(* ===== verification/Fdfs_Prelude.thy ===== *)
theory Fdfs_Prelude
  imports Main "HOL-Library.Signed_Division"
begin

text \<open>
  Shared vocabulary of the development: the C error numbers the sources return, the
  outcomes of calls that leave the program (system calls and allocators), the part of
  the C standard library that the sources use on text (\<open>printf\<close> conversions and
  \<open>atoi\<close>), two interfaces that several components implement (a step system with an
  invariant, and a codec), and generic list lemmas.

  Conventions. A C function that returns an error number returns an \<open>int\<close>, \<open>0\<close>
  for success. A C string is a \<open>string\<close> without its terminating NUL. A C \<open>int\<close>
  that is only ever compared and added within bounds proved for it is a HOL \<open>int\<close>.
\<close>

section \<open>Error numbers\<close>

text \<open>The Linux values of the error numbers the sources name.\<close>

abbreviation (input) EPERM :: int where "EPERM \<equiv> 1"
abbreviation (input) ENOENT :: int where "ENOENT \<equiv> 2"
abbreviation (input) EIO :: int where "EIO \<equiv> 5"
abbreviation (input) EAGAIN :: int where "EAGAIN \<equiv> 11"
abbreviation (input) ENOMEM :: int where "ENOMEM \<equiv> 12"
abbreviation (input) EACCES :: int where "EACCES \<equiv> 13"
abbreviation (input) EBUSY :: int where "EBUSY \<equiv> 16"
abbreviation (input) EEXIST :: int where "EEXIST \<equiv> 17"
abbreviation (input) EINVAL :: int where "EINVAL \<equiv> 22"
abbreviation (input) ENOSPC :: int where "ENOSPC \<equiv> 28"
abbreviation (input) ENAMETOOLONG :: int where "ENAMETOOLONG \<equiv> 36"
abbreviation (input) ENONET :: int where "ENONET \<equiv> 64"
abbreviation (input) EOPNOTSUPP :: int where "EOPNOTSUPP \<equiv> 95"
abbreviation (input) ECONNREFUSED :: int where "ECONNREFUSED \<equiv> 111"
abbreviation (input) ETIMEDOUT :: int where "ETIMEDOUT \<equiv> 110"
abbreviation (input) EALREADY :: int where "EALREADY \<equiv> 114"
abbreviation (input) EINPROGRESS :: int where "EINPROGRESS \<equiv> 115"

section \<open>Calls that leave the program\<close>

text \<open>
  A system call or an allocator can fail at any time. The outcomes of such calls are a
  list, in the order in which the calls are made; a model of code that makes such a call
  takes the next outcome from it. \<open>ExtFail e\<close> is a failed call that left \<open>errno = e\<close>
  (\<open>e\<close> may be \<open>0\<close>: the sources guard against it), \<open>ExtShort n e\<close> a write that
  transferred only \<open>n\<close> bytes. When the list is used up every further call succeeds.
  Theorems are about every such list, so about every pattern of failures.
\<close>

datatype ext_res = ExtOk | ExtFail int | ExtShort nat int

type_synonym ext_tape = "ext_res list"

fun ext_pop :: "ext_tape \<Rightarrow> ext_res \<times> ext_tape" where
  "ext_pop [] = (ExtOk, [])"
| "ext_pop (r # rs) = (r, rs)"

fun ext_errno :: "ext_res \<Rightarrow> int" where
  "ext_errno ExtOk = 0"
| "ext_errno (ExtFail e) = e"
| "ext_errno (ExtShort n e) = e"

text \<open>The idiom \<open>errno != 0 ? errno : dflt\<close>.\<close>

definition errno_or :: "int \<Rightarrow> int \<Rightarrow> int" where
  "errno_or e dflt = (if e \<noteq> 0 then e else dflt)"

lemma errno_or_nonzero [simp]: "dflt \<noteq> 0 \<Longrightarrow> errno_or e dflt \<noteq> 0"
  by (simp add: errno_or_def)

text \<open>A call that either succeeds (\<open>0\<close>) or returns \<open>errno\<close>, with a default for \<open>errno = 0\<close>.\<close>

definition ext_call :: "int \<Rightarrow> ext_tape \<Rightarrow> int \<times> ext_tape" where
  "ext_call dflt tp =
     (case ext_pop tp of (ExtOk, tp') \<Rightarrow> (0, tp') | (r, tp') \<Rightarrow> (errno_or (ext_errno r) dflt, tp'))"

definition ext_all_ok :: "ext_tape \<Rightarrow> bool" where
  "ext_all_ok tp \<longleftrightarrow> (\<forall>r \<in> set tp. r = ExtOk)"

lemma ext_all_ok_simps [simp]:
  "ext_all_ok []"
  "ext_all_ok (r # tp) \<longleftrightarrow> r = ExtOk \<and> ext_all_ok tp"
  by (auto simp: ext_all_ok_def)

lemma ext_pop_ok:
  "ext_all_ok tp \<Longrightarrow> \<exists>tp'. ext_pop tp = (ExtOk, tp') \<and> ext_all_ok tp'"
  by (cases tp) auto

lemma ext_call_ok:
  "ext_all_ok tp \<Longrightarrow> \<exists>tp'. ext_call d tp = (0, tp') \<and> ext_all_ok tp'"
  using ext_pop_ok [of tp] by (auto simp: ext_call_def)

lemma ext_call_Nil [simp]: "ext_call d [] = (0, [])"
  by (simp add: ext_call_def)

section \<open>Text: printf conversions and atoi\<close>

definition digit_char :: "nat \<Rightarrow> char" where
  "digit_char d = char_of (if d < 10 then 48 + d else 55 + d)"

definition char_digit :: "char \<Rightarrow> nat option" where
  "char_digit c = (let n = of_char c :: nat in if 48 \<le> n \<and> n \<le> 57 then Some (n - 48) else None)"

text \<open>The digits of \<open>n\<close> in base \<open>b\<close> (upper case, as \<open>%X\<close> prints them).\<close>

function fmt_base :: "nat \<Rightarrow> nat \<Rightarrow> string" where
  "fmt_base b n = (if n < b \<or> b < 2 then [digit_char n] else fmt_base b (n div b) @ [digit_char (n mod b)])"
  by pat_completeness auto
termination
  by (relation "measure snd") (auto intro: div_less_dividend)

declare fmt_base.simps [simp del]

text \<open>\<open>%u\<close> of a 32-bit value, \<open>%d\<close>, \<open>%06u\<close> and \<open>%02X\<close>.\<close>

definition fmt_u :: "int \<Rightarrow> string" where
  "fmt_u n = fmt_base 10 (nat (n mod 2 ^ 32))"

definition fmt_d :: "int \<Rightarrow> string" where
  "fmt_d n = (if n < 0 then CHR ''-'' # fmt_base 10 (nat (- n)) else fmt_base 10 (nat n))"

definition pad0 :: "nat \<Rightarrow> string \<Rightarrow> string" where
  "pad0 w s = replicate (w - length s) (CHR ''0'') @ s"

definition fmt_06u :: "int \<Rightarrow> string" where
  "fmt_06u n = pad0 6 (fmt_u n)"

definition fmt_02X :: "nat \<Rightarrow> string" where
  "fmt_02X n = pad0 2 (fmt_base 16 n)"

fun atoi_digits :: "int \<Rightarrow> string \<Rightarrow> int" where
  "atoi_digits acc [] = acc"
| "atoi_digits acc (c # cs) =
     (case char_digit c of Some d \<Rightarrow> atoi_digits (10 * acc + int d) cs | None \<Rightarrow> acc)"

fun skip_space :: "string \<Rightarrow> string" where
  "skip_space [] = []"
| "skip_space (c # cs) =
     (if c \<in> {CHR '' '', CHR 0x09, CHR 0x0A, CHR 0x0B, CHR 0x0C, CHR 0x0D} then skip_space cs else c # cs)"

text \<open>
  \<open>atoi\<close>: leading white space, an optional sign, the longest run of digits. (C leaves
  values outside \<open>int\<close> undefined; here they are the mathematical value.)
\<close>

definition atoi :: "string \<Rightarrow> int" where
  "atoi s = (case skip_space s of
       [] \<Rightarrow> 0
     | c # cs \<Rightarrow> if c = CHR ''-'' then - atoi_digits 0 cs
               else if c = CHR ''+'' then atoi_digits 0 cs
               else atoi_digits 0 (c # cs))"

text \<open>Conversion to \<open>unsigned char\<close>.\<close>

definition to_u8 :: "int \<Rightarrow> nat" where
  "to_u8 n = nat (n mod 256)"

lemma to_u8_id [simp]: "n < 256 \<Longrightarrow> to_u8 (int n) = n"
  by (simp add: to_u8_def)

lemma to_u8_less [simp]: "to_u8 n < 256"
  by (simp add: to_u8_def nat_less_iff)

lemma of_char_digit_char: "d < 10 \<Longrightarrow> of_char (digit_char d) = (48 + d :: nat)"
  by (simp add: digit_char_def)

lemma char_digit_digit_char [simp]: "d < 10 \<Longrightarrow> char_digit (digit_char d) = Some d"
  by (simp add: char_digit_def of_char_digit_char Let_def)

lemma atoi_digits_append:
  assumes "\<forall>c \<in> set s. char_digit c \<noteq> None"
  shows "atoi_digits acc (s @ t) = atoi_digits (atoi_digits acc s) t"
  using assms by (induction s arbitrary: acc) (auto split: option.splits)

lemma fmt_base_10_digits: "\<forall>c \<in> set (fmt_base 10 n). \<exists>d < 10. c = digit_char d"
proof (induction "10 :: nat" n rule: fmt_base.induct)
  case (1 n)
  show ?case
  proof (cases "n < 10")
    case True
    then show ?thesis by (auto simp: fmt_base.simps [of 10 n])
  next
    case False
    with "1.hyps" have "\<forall>c \<in> set (fmt_base 10 (n div 10)). \<exists>d < 10. c = digit_char d" by simp
    moreover have "\<exists>d < 10. digit_char (n mod 10) = digit_char d"
      by (rule exI [of _ "n mod 10"]) simp
    ultimately show ?thesis using False by (simp add: fmt_base.simps [of 10 n])
  qed
qed

lemma atoi_digits_fmt_base:
  "atoi_digits (int a) (fmt_base 10 n @ t)
     = atoi_digits (int (a * 10 ^ length (fmt_base 10 n) + n)) t"
proof (induction "10 :: nat" n arbitrary: t rule: fmt_base.induct)
  case (1 n)
  show ?case
  proof (cases "n < 10")
    case True
    then show ?thesis by (simp add: fmt_base.simps [of 10 n] algebra_simps)
  next
    case False
    let ?q = "fmt_base 10 (n div 10)" and ?d = "digit_char (n mod 10)"
    have "atoi_digits (int a) (?q @ ([?d] @ t))
        = atoi_digits (int (a * 10 ^ length ?q + n div 10)) ([?d] @ t)"
      using False "1.hyps" by simp
    also have "\<dots> = atoi_digits (10 * int (a * 10 ^ length ?q + n div 10) + int (n mod 10)) t"
      by simp
    also have "10 * int (a * 10 ^ length ?q + n div 10) + int (n mod 10)
        = int (a * 10 ^ Suc (length ?q) + n)"
    proof -
      have "10 * int (n div 10) + int (n mod 10) = int n" by presburger
      then show ?thesis by (simp add: algebra_simps)
    qed
    finally show ?thesis using False by (simp add: fmt_base.simps [of 10 n])
  qed
qed

text \<open>A text that starts with no digit ends the number that \<open>atoi\<close> reads.\<close>

definition no_digit_first :: "string \<Rightarrow> bool" where
  "no_digit_first t = (case t of [] \<Rightarrow> True | c # _ \<Rightarrow> char_digit c = None)"

lemma atoi_digits_stop: "no_digit_first t \<Longrightarrow> atoi_digits a t = a"
  by (cases t) (auto simp: no_digit_first_def)

lemma fmt_base_10_Cons: "\<exists>d cs. fmt_base 10 n = digit_char d # cs \<and> d < 10"
proof -
  have ne: "fmt_base 10 n \<noteq> []" by (subst fmt_base.simps) simp
  with fmt_base_10_digits [of n] show ?thesis by (cases "fmt_base 10 n") auto
qed

lemma digit_char_facts:
  assumes "d < 10"
  shows "digit_char d \<noteq> CHR ''-''" "digit_char d \<noteq> CHR ''+''" "digit_char d \<noteq> CHR '' ''"
    "digit_char d \<notin> {CHR '' '', CHR 0x09, CHR 0x0A, CHR 0x0B, CHR 0x0C, CHR 0x0D}"
    "digit_char d \<noteq> CHR 0x0A"
proof -
  have "of_char (digit_char d) = (48 + d :: nat)" using assms by (rule of_char_digit_char)
  then show "digit_char d \<noteq> CHR ''-''" "digit_char d \<noteq> CHR ''+''" "digit_char d \<noteq> CHR '' ''"
    "digit_char d \<notin> {CHR '' '', CHR 0x09, CHR 0x0A, CHR 0x0B, CHR 0x0C, CHR 0x0D}"
    "digit_char d \<noteq> CHR 0x0A"
    by auto
qed

lemma atoi_fmt_base_10:
  assumes "no_digit_first t"
  shows "atoi (fmt_base 10 n @ t) = int n"
proof -
  obtain d cs where dcs: "fmt_base 10 n = digit_char d # cs" "d < 10"
    using fmt_base_10_Cons by blast
  have "atoi (fmt_base 10 n @ t) = atoi_digits (int 0) (fmt_base 10 n @ t)"
    using dcs digit_char_facts [OF dcs(2)] by (simp add: atoi_def)
  also have "\<dots> = int n"
    using assms by (simp only: atoi_digits_fmt_base) (simp add: atoi_digits_stop)
  finally show ?thesis .
qed

text \<open>\<open>atoi\<close> reads back what \<open>%d\<close> and, for a value that fits, \<open>%u\<close> printed.\<close>

lemma atoi_fmt_d:
  assumes "no_digit_first t"
  shows "atoi (fmt_d n @ t) = n"
proof (cases "n < 0")
  case True
  have "atoi_digits (int 0) (fmt_base 10 (nat (- n)) @ t) = int (nat (- n))"
    using assms by (simp only: atoi_digits_fmt_base) (simp add: atoi_digits_stop)
  with True show ?thesis by (simp add: fmt_d_def atoi_def)
next
  case False
  with assms show ?thesis by (simp add: fmt_d_def atoi_fmt_base_10)
qed

lemma atoi_fmt_u:
  assumes "no_digit_first t" "0 \<le> n" "n < 2 ^ 32"
  shows "atoi (fmt_u n @ t) = n"
  using assms by (simp add: fmt_u_def atoi_fmt_base_10)

lemma no_digit_first_simps [simp]: "no_digit_first []" "no_digit_first [CHR 0x0A]"
  by (simp_all add: no_digit_first_def char_digit_def)

lemma atoi_fmt_d_Nil [simp]: "atoi (fmt_d n) = n"
  using atoi_fmt_d [of "[]" n] by simp

lemma atoi_fmt_u_Nil: "0 \<le> n \<Longrightarrow> n < 2 ^ 32 \<Longrightarrow> atoi (fmt_u n) = n"
  using atoi_fmt_u [of "[]" n] by simp

lemma char_digit_0 [simp]: "char_digit (CHR ''0'') = Some 0"
  by (simp add: char_digit_def)

lemma atoi_digits_zeros: "atoi_digits 0 (replicate k (CHR ''0'') @ s) = atoi_digits 0 s"
  by (induction k) simp_all

lemma atoi_fmt_06u:
  assumes "0 \<le> n" "n < 2 ^ 32"
  shows "atoi (fmt_06u n) = n"
proof -
  obtain d cs where dcs: "fmt_u n = digit_char d # cs" "d < 10" using fmt_base_10_Cons by (metis fmt_u_def)
  have ns: "skip_space (fmt_06u n) = fmt_06u n" "hd (fmt_06u n) \<noteq> CHR ''-''" "hd (fmt_06u n) \<noteq> CHR ''+''" "fmt_06u n \<noteq> []"
    using dcs digit_char_facts [OF dcs(2)] by (cases "6 - length (fmt_u n)"; simp add: fmt_06u_def pad0_def)+
  then have "atoi (fmt_06u n) = atoi_digits 0 (fmt_06u n)" by (cases "fmt_06u n") (auto simp: atoi_def)
  also have "\<dots> = atoi_digits 0 (fmt_u n)" by (simp add: fmt_06u_def pad0_def atoi_digits_zeros)
  also have "\<dots> = atoi (fmt_u n)" using dcs digit_char_facts [OF dcs(2)] by (simp add: atoi_def)
  finally show ?thesis using atoi_fmt_u_Nil assms by simp
qed

lemma fmt_base_10_no_char:
  assumes "\<And>d. d < 10 \<Longrightarrow> digit_char d \<noteq> c"
  shows "c \<notin> set (fmt_base 10 n)"
  using fmt_base_10_digits [of n] assms by fastforce

lemma fmt_d_no_space [simp]: "CHR '' '' \<notin> set (fmt_d n)"
  by (auto simp: fmt_d_def digit_char_facts(3) dest: fmt_base_10_no_char [THEN notE, rotated])

lemma fmt_u_no_space [simp]: "CHR '' '' \<notin> set (fmt_u n)"
  by (auto simp: fmt_u_def digit_char_facts(3) dest: fmt_base_10_no_char [THEN notE, rotated])

lemma fmt_06u_no_slash [simp]: "CHR ''/'' \<notin> set (fmt_06u n)"
proof -
  have "digit_char d \<noteq> CHR ''/''" if "d < 10" for d using of_char_digit_char [OF that] by auto
  then show ?thesis
    using fmt_base_10_no_char [of "CHR ''/''"] by (auto simp: fmt_06u_def pad0_def fmt_u_def)
qed

lemma fmt_d_no_newline [simp]: "CHR 0x0A \<notin> set (fmt_d n)"
  by (auto simp: fmt_d_def digit_char_facts(5) dest: fmt_base_10_no_char [THEN notE, rotated])

lemma fmt_u_no_newline [simp]: "CHR 0x0A \<notin> set (fmt_u n)"
  by (auto simp: fmt_u_def digit_char_facts(5) dest: fmt_base_10_no_char [THEN notE, rotated])

lemma fmt_base_10_length: "n < 10 ^ k \<Longrightarrow> 0 < k \<Longrightarrow> length (fmt_base 10 n) \<le> k"
proof (induction k arbitrary: n)
  case 0
  then show ?case by simp
next
  case (Suc k)
  show ?case
  proof (cases "n < 10")
    case True
    then show ?thesis by (simp add: fmt_base.simps [of 10 n])
  next
    case False
    then have "k \<noteq> 0" using Suc.prems by (cases k) auto
    moreover have "n div 10 < 10 ^ k" using Suc.prems by (simp add: less_mult_imp_div_less mult.commute)
    ultimately have "length (fmt_base 10 (n div 10)) \<le> k" using Suc.IH by simp
    with False show ?thesis by (simp add: fmt_base.simps [of 10 n])
  qed
qed

definition in_i32 :: "int \<Rightarrow> bool" where
  "in_i32 n \<longleftrightarrow> - (2 ^ 31) \<le> n \<and> n < 2 ^ 31"

text \<open>Conversion to \<open>int\<close>.\<close>

definition c_int :: "int \<Rightarrow> int" where
  "c_int n = (n + 2 ^ 31) mod 2 ^ 32 - 2 ^ 31"

lemma c_int_id: "in_i32 n \<Longrightarrow> c_int n = n"
  by (simp add: c_int_def in_i32_def)

lemma fmt_d_length: "in_i32 n \<Longrightarrow> length (fmt_d n) \<le> 11"
  using fmt_base_10_length [of "nat n" 11] fmt_base_10_length [of "nat (- n)" 10]
  by (simp add: fmt_d_def in_i32_def nat_less_iff)

lemma fmt_d_length_u8: "n < 256 \<Longrightarrow> length (fmt_d (int n)) \<le> 3"
  using fmt_base_10_length [of n 3] by (simp add: fmt_d_def)

lemma fmt_u_length: "length (fmt_u n) \<le> 10"
proof -
  have "nat (n mod 2 ^ 32) < 10 ^ 10" using pos_mod_bound [of "2 ^ 32" n] by simp
  from fmt_base_10_length [OF this] show ?thesis by (simp add: fmt_u_def)
qed

section \<open>Splitting a line into columns\<close>

text \<open>
  \<open>splitEx\<close> of libfastcommon is not part of the repository: the code that calls it takes
  it as a parameter, with the line, the separator and the greatest number of columns.
\<close>

type_synonym split_fun = "string \<Rightarrow> char \<Rightarrow> nat \<Rightarrow> string list"

text \<open>
  \<open>splitEx\<close> on a line of columns gives the columns, when no column contains the
  separator; the last may when the greatest number of columns is reached with it.
\<close>

fun join_cols :: "char \<Rightarrow> string list \<Rightarrow> string" where
  "join_cols sep [] = []"
| "join_cols sep [c] = c"
| "join_cols sep (c # cs) = c @ sep # join_cols sep cs"

definition splitEx_ok :: "split_fun \<Rightarrow> bool" where
  "splitEx_ok split \<longleftrightarrow>
     (\<forall>cols sep n. cols \<noteq> [] \<and> length cols \<le> n \<and>
        (\<forall>c \<in> set (if length cols < n then cols else butlast cols). sep \<notin> set c) \<longrightarrow>
        split (join_cols sep cols) sep n = cols)"

lemma splitEx_full:
  "splitEx_ok split \<Longrightarrow> cols \<noteq> [] \<Longrightarrow> \<forall>c \<in> set (butlast cols). sep \<notin> set c \<Longrightarrow>
   split (join_cols sep cols) sep (length cols) = cols"
  unfolding splitEx_ok_def by (drule spec [of _ cols], drule spec [of _ sep], drule spec [of _ "length cols"]) simp

lemma splitEx_free:
  assumes "splitEx_ok split" "cols \<noteq> []" "length cols \<le> n" "\<forall>c \<in> set cols. sep \<notin> set c"
  shows "split (join_cols sep cols) sep n = cols"
proof -
  have "\<forall>c \<in> set (if length cols < n then cols else butlast cols). sep \<notin> set c"
    using assms(4) by (auto dest: in_set_butlastD)
  with assms(1-3) show ?thesis unfolding splitEx_ok_def by blast
qed

text \<open>\<open>splitEx\<close> as libfastcommon documents it, for concrete runs.\<close>

fun split_cols :: "string \<Rightarrow> char \<Rightarrow> nat \<Rightarrow> string list" where
  "split_cols line sep 0 = []"
| "split_cols line sep (Suc 0) = [line]"
| "split_cols line sep (Suc n) =
     (if sep \<in> set line
      then takeWhile (\<lambda>c. c \<noteq> sep) line # split_cols (tl (dropWhile (\<lambda>c. c \<noteq> sep) line)) sep n
      else [line])"

lemma split_cols_ok: "splitEx_ok split_cols"
proof -
  have "split_cols (join_cols sep cols) sep n = cols"
    if "cols \<noteq> []" "length cols \<le> n" "\<forall>c \<in> set (if length cols < n then cols else butlast cols). sep \<notin> set c"
    for cols sep n
    using that
  proof (induction sep cols arbitrary: n rule: join_cols.induct)
    case (2 sep c)
    then show ?case by (cases "(c, sep, n)" rule: split_cols.cases) (auto split: if_splits)
  next
    case (3 sep c d cs)
    then obtain m where m: "n = Suc (Suc m)" by (cases n rule: nat.exhaust; cases "n - 1") auto
    have c: "sep \<notin> set c" using "3.prems"(3) by (auto split: if_splits)
    have "takeWhile (\<lambda>x. x \<noteq> sep) (c @ sep # join_cols sep (d # cs)) = c"
      "dropWhile (\<lambda>x. x \<noteq> sep) (c @ sep # join_cols sep (d # cs)) = sep # join_cols sep (d # cs)"
      using c by (auto simp: takeWhile_append dropWhile_append)
    moreover have "split_cols (join_cols sep (d # cs)) sep (Suc m) = d # cs"
      using "3.IH" [of "Suc m"] "3.prems" m by (auto split: if_splits)
    ultimately show ?case using m by simp
  qed simp
  then show ?thesis unfolding splitEx_ok_def by blast
qed

section \<open>Interfaces several components implement\<close>

text \<open>
  A step system and an invariant of it: what holds initially and is kept by every step
  holds in every reachable state.
\<close>

locale step_system =
  fixes init :: "'s \<Rightarrow> bool"
    and step :: "'s \<Rightarrow> 's \<Rightarrow> bool"
    and inv :: "'s \<Rightarrow> bool"
  assumes init_inv: "init s \<Longrightarrow> inv s"
    and step_inv: "inv s \<Longrightarrow> step s t \<Longrightarrow> inv t"
begin

lemma steps_inv: "step\<^sup>*\<^sup>* s t \<Longrightarrow> inv s \<Longrightarrow> inv t"
  by (induction rule: rtranclp_induct) (auto intro: step_inv)

lemma reachable_inv: "init s \<Longrightarrow> step\<^sup>*\<^sup>* s t \<Longrightarrow> inv t"
  using steps_inv init_inv by blast

end

text \<open>An encoding and a decoding of it; on well-formed values decoding undoes encoding.\<close>

locale codec =
  fixes enc :: "'a \<Rightarrow> 'b"
    and dec :: "'b \<Rightarrow> 'c"
    and obs :: "'a \<Rightarrow> 'c"
    and wf :: "'a \<Rightarrow> bool"
  assumes dec_enc: "wf x \<Longrightarrow> dec (enc x) = obs x"
begin

lemma enc_determines: "wf x \<Longrightarrow> wf y \<Longrightarrow> enc x = enc y \<Longrightarrow> obs x = obs y"
  using dec_enc by metis

lemma map_dec_enc: "\<forall>x \<in> set xs. wf x \<Longrightarrow> map dec (map enc xs) = map obs xs"
  by (induction xs) (auto simp: dec_enc)

end

section \<open>Lists\<close>

lemma find_Some_in: "find P xs = Some x \<Longrightarrow> x \<in> set xs \<and> P x"
  by (auto simp: find_Some_iff)

lemma sum_list_map_filter_split:
  "sum_list (map f xs) = sum_list (map f (filter P xs)) + sum_list (map f (filter (\<lambda>x. \<not> P x) xs))"
  for f :: "'a \<Rightarrow> 'b::comm_monoid_add"
  by (induction xs) (auto simp: ac_simps)

lemma sorted_wrt_insert_nth:
  assumes "sorted_wrt R xs" "p \<le> length xs"
    and "\<forall>y \<in> set (take p xs). R y x" "\<forall>y \<in> set (drop p xs). R x y"
  shows "sorted_wrt R (take p xs @ x # drop p xs)"
proof -
  have "sorted_wrt R (take p xs @ drop p xs)" using assms(1) by simp
  then have "sorted_wrt R (take p xs)" "sorted_wrt R (drop p xs)"
    "\<forall>y \<in> set (take p xs). \<forall>z \<in> set (drop p xs). R y z"
    unfolding sorted_wrt_append by blast+
  then show ?thesis using assms(3,4) by (auto simp: sorted_wrt_append)
qed

lemma sorted_wrt_delete_nth:
  assumes "sorted_wrt R xs"
  shows "sorted_wrt R (take p xs @ drop (Suc p) xs)"
proof -
  have "sorted_wrt R (take (Suc p) xs @ drop (Suc p) xs)" using assms by simp
  then have h: "sorted_wrt R (take (Suc p) xs)" "sorted_wrt R (drop (Suc p) xs)"
    "\<forall>y \<in> set (take (Suc p) xs). \<forall>z \<in> set (drop (Suc p) xs). R y z"
    unfolding sorted_wrt_append by blast+
  have s: "set (take p xs) \<subseteq> set (take (Suc p) xs)" by (rule set_take_subset_set_take) simp
  have "sorted_wrt R (take p (take (Suc p) xs))" using h(1) by (rule sorted_wrt_take)
  then have "sorted_wrt R (take p xs)" by (simp add: min_def)
  with h s show ?thesis by (auto simp: sorted_wrt_append)
qed

lemma first_occurrence_unique:
  "c \<notin> set xs \<Longrightarrow> c \<notin> set xs' \<Longrightarrow> xs @ c # ys = xs' @ c # ys' \<Longrightarrow> xs = xs' \<and> ys = ys'"
proof (induction xs arbitrary: xs')
  case Nil
  then show ?case by (cases xs') auto
next
  case (Cons x xs)
  then show ?case by (cases xs') auto
qed

lemma take_drop_length_take [simp]: "take k xs @ drop (length (take k xs)) xs = xs"
  by (simp add: min_def)

lemma length_filter_strict:
  assumes "\<And>y. Q y \<Longrightarrow> P y" "x \<in> set xs" "P x" "\<not> Q x"
  shows "length (filter Q xs) < length (filter P xs)"
proof -
  have "filter Q xs = filter Q (filter P xs)" using assms(1) by (auto simp: filter_filter intro: filter_cong)
  moreover have "x \<in> set (filter P xs)" using assms(2,3) by simp
  ultimately show ?thesis using length_filter_less [of x "filter P xs" Q] assms(4) by metis
qed

end
