(* ===== verification/Avl_Api.thy ===== *)
theory Avl_Api
  imports Fdfs_Prelude "HOL-Library.Multiset"
begin

text \<open>
  The AVL tree of libfastcommon (\<open>fastcommon/avl_tree.h\<close>), which the trunk manager
  uses for its two indexes. The library is not part of the repository, so its functions
  are a parameter: a record \<open>avl_api\<close> of the functions the sources call, over an
  unspecified tree type. \<open>avl_ok\<close> is what the sources rely on, in terms of the data
  in walking order. A tree stores pointers to structures; writing through a pointer that
  \<open>avl_tree_find\<close> returned changes the structure in the tree, which is \<open>avl_store\<close>.

  \<open>list_avl\<close> is a plain instance (a list ordered by the key) that satisfies the laws;
  it shows that the hypothesis can hold, and witnesses evaluate on it.
\<close>

record ('k, 'd, 't) avl_api =
  avl_init :: "'t"
  avl_find :: "'t \<Rightarrow> 'k \<Rightarrow> 'd option"
  avl_find_ge :: "'t \<Rightarrow> 'k \<Rightarrow> 'd option"
  avl_insert :: "'t \<Rightarrow> 'd \<Rightarrow> 't \<times> int"
  avl_delete :: "'t \<Rightarrow> 'k \<Rightarrow> 't \<times> int"
  avl_store :: "'t \<Rightarrow> 'd \<Rightarrow> 't"
  avl_walk :: "'t \<Rightarrow> 'd list"
  avl_valid :: "'t \<Rightarrow> bool"

text \<open>
  The laws, for data with key \<open>key\<close> ordered by \<open>lt\<close> (the order of the compare
  function the tree was initialised with):
  \<open>avl_tree_find\<close> finds the datum with the key; \<open>avl_tree_find_ge\<close> the least
  datum whose key is not less; \<open>avl_tree_insert\<close> returns \<open>1\<close> and inserts, \<open>0\<close>
  when the key is there, and a negative number, the tree unchanged, when memory is short;
  \<open>avl_tree_delete\<close> returns \<open>1\<close> and deletes, or \<open>0\<close>. \<open>avl_valid\<close> holds of
  the trees these functions build.
\<close>

definition avl_ok :: "('k, 'd, 't) avl_api \<Rightarrow> ('d \<Rightarrow> 'k) \<Rightarrow> ('k \<Rightarrow> 'k \<Rightarrow> bool) \<Rightarrow> bool" where
  "avl_ok A key lt \<longleftrightarrow>
     irreflp lt \<and>
     avl_valid A (avl_init A) \<and> avl_walk A (avl_init A) = [] \<and>
     (\<forall>t. avl_valid A t \<longrightarrow>
        sorted_wrt lt (map key (avl_walk A t)) \<and>
        (\<forall>k. avl_find A t k = find (\<lambda>d. key d = k) (avl_walk A t)) \<and>
        (\<forall>k. avl_find_ge A t k = find (\<lambda>d. \<not> lt (key d) k) (avl_walk A t)) \<and>
        (\<forall>d t' r. avl_insert A t d = (t', r) \<longrightarrow>
           (if key d \<in> key ` set (avl_walk A t) then r = 0 \<and> t' = t
            else (r = 1 \<and> avl_valid A t' \<and>
                  (\<exists>xs ys. avl_walk A t = xs @ ys \<and> avl_walk A t' = xs @ d # ys))
               \<or> (r < 0 \<and> t' = t))) \<and>
        (\<forall>k t' r. avl_delete A t k = (t', r) \<longrightarrow>
           (if k \<in> key ` set (avl_walk A t)
            then r = 1 \<and> avl_valid A t' \<and> avl_walk A t' = filter (\<lambda>d. key d \<noteq> k) (avl_walk A t)
            else r = 0 \<and> t' = t)) \<and>
        (\<forall>d. key d \<in> key ` set (avl_walk A t) \<longrightarrow>
           avl_valid A (avl_store A t d) \<and>
           avl_walk A (avl_store A t d) = map (\<lambda>e. if key e = key d then d else e) (avl_walk A t)))"

text \<open>No allocation inside the library fails: an insertion of a new key returns \<open>1\<close>.\<close>

definition avl_total :: "('k, 'd, 't) avl_api \<Rightarrow> bool" where
  "avl_total A \<longleftrightarrow> (\<forall>t d. avl_valid A t \<longrightarrow> 0 \<le> snd (avl_insert A t d))"

lemma avl_init_laws:
  assumes "avl_ok A key lt"
  shows "avl_valid A (avl_init A)" "avl_walk A (avl_init A) = []"
  using assms by (simp_all add: avl_ok_def)

lemma avl_distinct_keys:
  assumes "avl_ok A key lt" "avl_valid A t"
  shows "distinct (map key (avl_walk A t))"
proof -
  have s: "sorted_wrt lt (map key (avl_walk A t))" and i: "irreflp lt"
    using assms by (auto simp: avl_ok_def)
  show ?thesis
  proof (rule ccontr)
    assume "\<not> ?thesis"
    then obtain i j where ij: "i < j" "j < length (map key (avl_walk A t))"
        "map key (avl_walk A t) ! i = map key (avl_walk A t) ! j"
      by (metis distinct_conv_nth linorder_neqE_nat)
    from sorted_wrt_nth_less [OF s ij(1,2)]
    have "lt (map key (avl_walk A t) ! i) (map key (avl_walk A t) ! j)" .
    with ij(3) i show False by (simp add: irreflp_def)
  qed
qed

lemma find_distinct_key:
  assumes "distinct (map key xs)" "d \<in> set xs"
  shows "find (\<lambda>e. key e = key d) xs = Some d"
  using assms by (induction xs) (auto simp: image_iff)

lemma avl_find_eq:
  assumes "avl_ok A key lt" "avl_valid A t"
  shows "avl_find A t k = find (\<lambda>d. key d = k) (avl_walk A t)"
  using assms by (simp add: avl_ok_def)

lemma avl_find_SomeD:
  assumes "avl_ok A key lt" "avl_valid A t" "avl_find A t k = Some d"
  shows "d \<in> set (avl_walk A t)" "key d = k"
  using assms by (auto simp: avl_find_eq dest: find_Some_in)

lemma avl_find_None_iff:
  assumes "avl_ok A key lt" "avl_valid A t"
  shows "avl_find A t k = None \<longleftrightarrow> k \<notin> key ` set (avl_walk A t)"
  using assms by (auto simp: avl_find_eq find_None_iff)

lemma avl_find_in:
  assumes "avl_ok A key lt" "avl_valid A t" "d \<in> set (avl_walk A t)"
  shows "avl_find A t (key d) = Some d"
  using assms by (simp add: avl_find_eq find_distinct_key avl_distinct_keys)

lemma avl_find_ge_eq:
  assumes "avl_ok A key lt" "avl_valid A t"
  shows "avl_find_ge A t k = find (\<lambda>d. \<not> lt (key d) k) (avl_walk A t)"
  using assms by (simp add: avl_ok_def)

lemma avl_insert_cases:
  assumes "avl_ok A key lt" "avl_valid A t" "avl_insert A t d = (t', r)"
    and "key d \<notin> key ` set (avl_walk A t)"
  obtains (inserted) xs ys where "r = 1" "avl_valid A t'" "avl_walk A t = xs @ ys"
      "avl_walk A t' = xs @ d # ys"
    | (failed) "r < 0" "t' = t"
proof -
  have "if key d \<in> key ` set (avl_walk A t) then r = 0 \<and> t' = t
        else (r = 1 \<and> avl_valid A t' \<and>
              (\<exists>xs ys. avl_walk A t = xs @ ys \<and> avl_walk A t' = xs @ d # ys))
           \<or> (r < 0 \<and> t' = t)"
    using assms(1-3) unfolding avl_ok_def by blast
  with assms(4) inserted failed show thesis by auto
qed

lemma avl_delete_present:
  assumes "avl_ok A key lt" "avl_valid A t" "avl_delete A t k = (t', r)"
    and "k \<in> key ` set (avl_walk A t)"
  shows "r = 1" "avl_valid A t'" "avl_walk A t' = filter (\<lambda>d. key d \<noteq> k) (avl_walk A t)"
proof -
  have "if k \<in> key ` set (avl_walk A t)
        then r = 1 \<and> avl_valid A t' \<and> avl_walk A t' = filter (\<lambda>d. key d \<noteq> k) (avl_walk A t)
        else r = 0 \<and> t' = t"
    using assms(1-3) unfolding avl_ok_def by blast
  with assms(4) show "r = 1" "avl_valid A t'"
    "avl_walk A t' = filter (\<lambda>d. key d \<noteq> k) (avl_walk A t)"
    by simp_all
qed

lemma avl_store_laws:
  assumes "avl_ok A key lt" "avl_valid A t" "key d \<in> key ` set (avl_walk A t)"
  shows "avl_valid A (avl_store A t d)"
    "avl_walk A (avl_store A t d) = map (\<lambda>e. if key e = key d then d else e) (avl_walk A t)"
  using assms unfolding avl_ok_def by blast+

section \<open>Splitting a walk at a key\<close>

text \<open>With distinct keys, a datum splits the list uniquely; the operations act on that split.\<close>

lemma distinct_keys_split:
  assumes "distinct (map key xs)" "d \<in> set xs"
  obtains ys zs where "xs = ys @ d # zs" "\<forall>e \<in> set ys \<union> set zs. key e \<noteq> key d"
proof -
  obtain ys zs where s: "xs = ys @ d # zs" using assms(2) by (meson split_list)
  have "\<forall>e \<in> set ys \<union> set zs. key e \<noteq> key d"
    using assms(1) by (auto simp: s image_iff)
  then show thesis using s that by blast
qed

lemma avl_store_split:
  assumes ok: "avl_ok A key lt" "avl_valid A t" and f: "avl_find A t (key d') = Some d"
  obtains ys zs where "avl_walk A t = ys @ d # zs" "avl_walk A (avl_store A t d') = ys @ d' # zs"
    "\<forall>e \<in> set ys \<union> set zs. key e \<noteq> key d" "avl_valid A (avl_store A t d')" "key d = key d'"
proof -
  have d: "d \<in> set (avl_walk A t)" "key d = key d'" using avl_find_SomeD [OF ok f] by auto
  obtain ys zs where s: "avl_walk A t = ys @ d # zs" "\<forall>e \<in> set ys \<union> set zs. key e \<noteq> key d"
    using distinct_keys_split [OF avl_distinct_keys [OF ok] d(1)] by blast
  have in_keys: "key d' \<in> key ` set (avl_walk A t)" using d by (metis image_eqI)
  have "avl_walk A (avl_store A t d') = ys @ d' # zs"
    using avl_store_laws(2) [OF ok in_keys] s d(2) by (auto intro: map_idI)
  with s d(2) avl_store_laws(1) [OF ok in_keys] show thesis using that by blast
qed

lemma avl_delete_split:
  assumes ok: "avl_ok A key lt" "avl_valid A t" and f: "avl_find A t k = Some d"
    and del: "avl_delete A t k = (t', r)"
  obtains ys zs where "avl_walk A t = ys @ d # zs" "avl_walk A t' = ys @ zs"
    "\<forall>e \<in> set ys \<union> set zs. key e \<noteq> k" "avl_valid A t'" "r = 1"
proof -
  have d: "d \<in> set (avl_walk A t)" "key d = k" using avl_find_SomeD [OF ok f] by auto
  obtain ys zs where s: "avl_walk A t = ys @ d # zs" "\<forall>e \<in> set ys \<union> set zs. key e \<noteq> key d"
    using distinct_keys_split [OF avl_distinct_keys [OF ok] d(1)] by blast
  have k: "k \<in> key ` set (avl_walk A t)" using d by (metis image_eqI)
  have "avl_walk A t' = ys @ zs"
    using avl_delete_present(3) [OF ok del k] s d(2) by (simp add: filter_id_conv)
  with s d(2) avl_delete_present(1,2) [OF ok del k] show thesis using that by blast
qed

section \<open>A reference instance\<close>

fun list_ins :: "('d \<Rightarrow> 'k) \<Rightarrow> ('k \<Rightarrow> 'k \<Rightarrow> bool) \<Rightarrow> 'd \<Rightarrow> 'd list \<Rightarrow> 'd list" where
  "list_ins key lt d [] = [d]"
| "list_ins key lt d (e # es) = (if lt (key d) (key e) then d # e # es else e # list_ins key lt d es)"

definition list_avl :: "('d \<Rightarrow> 'k) \<Rightarrow> ('k \<Rightarrow> 'k \<Rightarrow> bool) \<Rightarrow> ('k, 'd, 'd list) avl_api" where
  "list_avl key lt =
     \<lparr>avl_init = [],
      avl_find = (\<lambda>t k. find (\<lambda>d. key d = k) t),
      avl_find_ge = (\<lambda>t k. find (\<lambda>d. \<not> lt (key d) k) t),
      avl_insert = (\<lambda>t d. if list_ex (\<lambda>e. key e = key d) t then (t, 0) else (list_ins key lt d t, 1)),
      avl_delete = (\<lambda>t k. if list_ex (\<lambda>e. key e = k) t then (filter (\<lambda>d. key d \<noteq> k) t, 1) else (t, 0)),
      avl_store = (\<lambda>t d. map (\<lambda>e. if key e = key d then d else e) t),
      avl_walk = (\<lambda>t. t),
      avl_valid = (\<lambda>t. sorted_wrt lt (map key t))\<rparr>"

lemma list_avl_simps [simp]:
  "avl_init (list_avl key lt) = []"
  "avl_find (list_avl key lt) t k = find (\<lambda>d. key d = k) t"
  "avl_find_ge (list_avl key lt) t k = find (\<lambda>d. \<not> lt (key d) k) t"
  "avl_insert (list_avl key lt) t d =
     (if list_ex (\<lambda>e. key e = key d) t then (t, 0) else (list_ins key lt d t, 1))"
  "avl_delete (list_avl key lt) t k =
     (if list_ex (\<lambda>e. key e = k) t then (filter (\<lambda>d. key d \<noteq> k) t, 1) else (t, 0))"
  "avl_store (list_avl key lt) t d = map (\<lambda>e. if key e = key d then d else e) t"
  "avl_walk (list_avl key lt) t = t"
  "avl_valid (list_avl key lt) t = sorted_wrt lt (map key t)"
  by (simp_all add: list_avl_def)

lemma list_ins_split: "\<exists>xs ys. t = xs @ ys \<and> list_ins key lt d t = xs @ d # ys"
proof (induction t)
  case Nil
  then show ?case by simp
next
  case (Cons e es)
  show ?case
  proof (cases "lt (key d) (key e)")
    case True
    then have "e # es = [] @ (e # es) \<and> list_ins key lt d (e # es) = [] @ d # (e # es)" by simp
    then show ?thesis by blast
  next
    case False
    obtain xs ys where "es = xs @ ys" "list_ins key lt d es = xs @ d # ys" using Cons.IH by blast
    with False have "e # es = (e # xs) @ ys \<and> list_ins key lt d (e # es) = (e # xs) @ d # ys" by simp
    then show ?thesis by blast
  qed
qed

lemma set_list_ins [simp]: "set (list_ins key lt d t) = insert d (set t)"
  by (induction t) auto

lemma list_ins_sorted:
  assumes "sorted_wrt lt (map key t)" "key d \<notin> key ` set t" "transp lt" "totalp lt"
  shows "sorted_wrt lt (map key (list_ins key lt d t))"
  using assms(1,2)
proof (induction t)
  case Nil
  then show ?case by simp
next
  case (Cons e es)
  show ?case
  proof (cases "lt (key d) (key e)")
    case True
    with Cons.prems(1) \<open>transp lt\<close> show ?thesis by (auto dest: transpD)
  next
    case False
    with Cons.prems(2) \<open>totalp lt\<close> have "lt (key e) (key d)" by (auto simp: totalp_on_def)
    with False Cons show ?thesis by auto
  qed
qed

lemma list_avl_ok:
  assumes "irreflp lt" "transp lt" "totalp lt"
  shows "avl_ok (list_avl key lt) key lt"
  unfolding avl_ok_def
proof (intro conjI allI impI, goal_cases)
  case (7 t d t' r)
  show ?case
  proof (cases "key d \<in> key ` set t")
    case True
    then have "\<exists>e \<in> set t. key e = key d" by force
    with 7 True show ?thesis by (simp add: list_ex_iff)
  next
    case False
    then have "\<not> (\<exists>e \<in> set t. key e = key d)" by (metis image_eqI)
    with 7 have "t' = list_ins key lt d t" "r = 1" by (simp_all add: list_ex_iff)
    with False 7 list_ins_sorted [OF _ False assms(2,3)] list_ins_split [of t key lt d]
    show ?thesis by auto
  qed
next
  case (8 t k t' r)
  then show ?case by (auto simp: list_ex_iff image_iff sorted_wrt_map sorted_wrt_filter split: if_splits)
next
  case (9 t d)
  have "map key (map (\<lambda>e. if key e = key d then d else e) t) = map key t" by simp
  with 9 show ?case by (simp only: list_avl_simps)
qed (use assms in \<open>simp_all add: list_avl_def\<close>)

lemma list_avl_total: "avl_total (list_avl key lt)"
  by (simp add: avl_total_def)

end
