(* ===== verification/Trunk_Types.thy ===== *)
theory Trunk_Types
  imports Avl_Api
begin

text \<open>
  The data of the trunk manager (\<open>storage/trunk_mgr/trunk_shared.h\<close>,
  \<open>trunk_mem.h\<close>, \<open>trunk_free_block_checker.h\<close>). A trunk file is a large file that
  holds many small files; a block is a byte range of a trunk file. The C structures are
  records with the same fields; \<open>unsigned char\<close> fields are \<open>nat\<close> (below 256).
\<close>

record FDFSTrunkPathInfo =
  store_path_index :: nat
  sub_path_high :: nat
  sub_path_low :: nat

record FDFSTrunkFileInfo =
  trunk_id :: int
  trunk_offset :: int
  trunk_size :: int

record FDFSTrunkFullInfo =
  trunk_status :: int
  trunk_path :: FDFSTrunkPathInfo
  trunk_file :: FDFSTrunkFileInfo

abbreviation (input) FDFS_TRUNK_STATUS_FREE :: int where "FDFS_TRUNK_STATUS_FREE \<equiv> 0"
abbreviation (input) FDFS_TRUNK_STATUS_HOLD :: int where "FDFS_TRUNK_STATUS_HOLD \<equiv> 1"

text \<open>The trunk file a block belongs to: the key of the index by trunk file.\<close>

record FDFSTrunkFileIdentifier =
  ident_path :: FDFSTrunkPathInfo
  ident_id :: int

definition FILL_FILE_IDENTIFIER :: "FDFSTrunkFullInfo \<Rightarrow> FDFSTrunkFileIdentifier" where
  "FILL_FILE_IDENTIFIER b = \<lparr>ident_path = trunk_path b, ident_id = trunk_id (trunk_file b)\<rparr>"

text \<open>Shorthands for a block's range \<open>[blk_off, blk_end)\<close>, its size and its tree index.\<close>

abbreviation blk_off :: "FDFSTrunkFullInfo \<Rightarrow> int" where
  "blk_off b \<equiv> trunk_offset (trunk_file b)"

abbreviation blk_size :: "FDFSTrunkFullInfo \<Rightarrow> int" where
  "blk_size b \<equiv> trunk_size (trunk_file b)"

abbreviation blk_end :: "FDFSTrunkFullInfo \<Rightarrow> int" where
  "blk_end b \<equiv> blk_off b + blk_size b"

abbreviation blk_path :: "FDFSTrunkFullInfo \<Rightarrow> nat" where
  "blk_path b \<equiv> store_path_index (trunk_path b)"

text \<open>
  A slot of the index by size: the free nodes of one size, as the list that the
  \<open>next\<close> pointers link from \<open>head\<close>. A node is its \<open>trunk\<close> field; the pointers
  \<open>next\<close> and \<open>pMblockNode\<close> have no other use.
\<close>

record FDFSTrunkSlot =
  slot_size :: int
  slot_head :: "FDFSTrunkFullInfo list"

text \<open>
  The array of the blocks of one trunk file; \<open>count\<close> is the length of \<open>blocks\<close> and
  \<open>alloc\<close> its capacity. The array holds pointers to the nodes that the index by size
  links. The fields the checker reads (path, id, offset, size) do not change while a node
  is in both indexes; the status does, and an operation that changes it changes both.
\<close>

record FDFSBlockArray =
  ba_alloc :: int
  ba_blocks :: "FDFSTrunkFullInfo list"

record FDFSTrunksById =
  tb_file_id :: FDFSTrunkFileIdentifier
  tb_array :: FDFSBlockArray

section \<open>Ranges\<close>

text \<open>The bytes of a block, each named by its trunk file and its position.\<close>

definition blk_bytes :: "FDFSTrunkFullInfo \<Rightarrow> (FDFSTrunkFileIdentifier \<times> int) set" where
  "blk_bytes b = {FILL_FILE_IDENTIFIER b} \<times> {blk_off b ..< blk_end b}"

text \<open>Two blocks overlap: they share a byte.\<close>

definition blk_overlap :: "FDFSTrunkFullInfo \<Rightarrow> FDFSTrunkFullInfo \<Rightarrow> bool" where
  "blk_overlap a b \<longleftrightarrow> FILL_FILE_IDENTIFIER a = FILL_FILE_IDENTIFIER b \<and>
     blk_off a < blk_end b \<and> blk_off b < blk_end a"

lemma blk_overlap_bytes:
  assumes "0 < blk_size a" "0 < blk_size b"
  shows "blk_overlap a b \<longleftrightarrow> blk_bytes a \<inter> blk_bytes b \<noteq> {}"
proof
  assume "blk_overlap a b"
  then have "(FILL_FILE_IDENTIFIER a, max (blk_off a) (blk_off b)) \<in> blk_bytes a \<inter> blk_bytes b"
    using assms by (auto simp: blk_overlap_def blk_bytes_def)
  then show "blk_bytes a \<inter> blk_bytes b \<noteq> {}" by blast
qed (auto simp: blk_overlap_def blk_bytes_def)

lemma blk_overlap_sym: "blk_overlap a b \<longleftrightarrow> blk_overlap b a"
  by (auto simp: blk_overlap_def)

end
