(* ===== verification/Trunk_Checker.thy ===== *)
theory Trunk_Checker
  imports Trunk_Types
begin

text \<open>
  \<open>storage/trunk_mgr/trunk_free_block_checker.c\<close>: the index of the free blocks by trunk
  file. Each entry of the tree is an array of the blocks of one trunk file, ordered by
  offset; the checker refuses a block that overlaps one it has. The functions take the
  AVL interface \<open>B\<close>, the tree, and the outcomes of the allocations they make; they
  return the error number, the tree and the remaining outcomes.

  Shown here: the check answers exactly whether the block overlaps one of the trunk file
  (the binary search is right), insertion keeps the array ordered and free of overlaps and
  adds exactly the block, deletion removes exactly the block at the offset.
\<close>

abbreviation (input) TRUNK_FREE_BLOCK_ARRAY_INIT_SIZE :: int where
  "TRUNK_FREE_BLOCK_ARRAY_INIT_SIZE \<equiv> 32"

type_synonym 'u id_avl = "(FDFSTrunkFileIdentifier, FDFSTrunksById, 'u) avl_api"

section \<open>Definitions\<close>

definition trunk_free_block_tree_node_count :: "'u id_avl \<Rightarrow> 'u \<Rightarrow> int" where
  "trunk_free_block_tree_node_count B t = int (length (avl_walk B t))"

definition block_tree_count_walk_callback :: "FDFSTrunksById \<Rightarrow> int \<Rightarrow> int" where
  "block_tree_count_walk_callback d n = n + int (length (ba_blocks (tb_array d)))"

definition trunk_free_block_total_count :: "'u id_avl \<Rightarrow> 'u \<Rightarrow> int" where
  "trunk_free_block_total_count B t = fold block_tree_count_walk_callback (avl_walk B t) 0"

text \<open>
  The search loop of \<open>trunk_free_block_check_duplicate\<close>: \<open>EEXIST\<close> at the first block
  probed that overlaps \<open>[off, end_offset)\<close>.
\<close>

function check_duplicate_loop ::
    "FDFSTrunkFullInfo list \<Rightarrow> int \<Rightarrow> int \<Rightarrow> int \<Rightarrow> int \<Rightarrow> int" where
  "check_duplicate_loop blocks off end_offset left right =
     (if left \<le> right then
        let mid = (left + right) div 2; b = blocks ! nat mid in
        if off < blk_off b then
          (if blk_off b < end_offset then EEXIST
           else check_duplicate_loop blocks off end_offset left (mid - 1))
        else if off = blk_off b then EEXIST
        else
          (if off < blk_end b then EEXIST
           else check_duplicate_loop blocks off end_offset (mid + 1) right)
      else 0)"
  by pat_completeness auto
termination
  by (relation "measure (\<lambda>(blocks, off, e, left, right). nat (right - left + 1))") auto

declare check_duplicate_loop.simps [simp del]

definition trunk_free_block_check_duplicate :: "'u id_avl \<Rightarrow> FDFSTrunkFullInfo \<Rightarrow> 'u \<Rightarrow> int" where
  "trunk_free_block_check_duplicate B pTrunkInfo t =
     (case avl_find B t (FILL_FILE_IDENTIFIER pTrunkInfo) of
        None \<Rightarrow> 0
      | Some pFound \<Rightarrow>
          let blocks = ba_blocks (tb_array pFound);
              end_offset = blk_off pTrunkInfo + blk_size pTrunkInfo;
              right = int (length blocks) - 1
          in if blocks = [] then 0
             else if end_offset \<le> blk_off (blocks ! 0) then 0
             else if blk_off pTrunkInfo \<ge> blk_off (blocks ! nat right) + blk_size (blocks ! nat right) then 0
             else check_duplicate_loop blocks (blk_off pTrunkInfo) end_offset 0 right)"

text \<open>\<open>realloc\<close> of the array: the capacity changes, or the call fails and nothing does.\<close>

definition trunk_free_block_realloc ::
    "FDFSBlockArray \<Rightarrow> int \<Rightarrow> ext_tape \<Rightarrow> int \<times> FDFSBlockArray \<times> ext_tape" where
  "trunk_free_block_realloc pArray new_alloc tp =
     (case ext_call ENOMEM tp of
        (result, tp') \<Rightarrow>
          if result \<noteq> 0 then (result, pArray, tp')
          else (0, pArray\<lparr>ba_alloc := new_alloc\<rparr>, tp'))"

text \<open>
  The search loop that \<open>trunk_free_block_do_insert\<close> and \<open>trunk_free_block_delete\<close>
  share: whether a block at \<open>off\<close> was found, and the last \<open>mid\<close>.
\<close>

function find_offset_loop :: "FDFSTrunkFullInfo list \<Rightarrow> int \<Rightarrow> int \<Rightarrow> int \<Rightarrow> int \<Rightarrow> bool \<times> int" where
  "find_offset_loop blocks off left right mid0 =
     (if left \<le> right then
        let mid = (left + right) div 2; b = blocks ! nat mid in
        if blk_off b > off then find_offset_loop blocks off left (mid - 1) mid
        else if blk_off b = off then (True, mid)
        else find_offset_loop blocks off (mid + 1) right mid
      else (False, mid0))"
  by pat_completeness auto
termination
  by (relation "measure (\<lambda>(blocks, off, left, right, mid). nat (right - left + 1))") auto

declare find_offset_loop.simps [simp del]

text \<open>\<open>memmove\<close> by one place and assignment at \<open>pos\<close>.\<close>

definition array_insert_at :: "nat \<Rightarrow> 'a \<Rightarrow> 'a list \<Rightarrow> 'a list" where
  "array_insert_at pos x xs = take pos xs @ x # drop pos xs"

definition array_delete_at :: "nat \<Rightarrow> 'a list \<Rightarrow> 'a list" where
  "array_delete_at pos xs = take pos xs @ drop (Suc pos) xs"

definition trunk_free_block_do_insert ::
    "FDFSTrunkFullInfo \<Rightarrow> FDFSBlockArray \<Rightarrow> ext_tape \<Rightarrow> int \<times> FDFSBlockArray \<times> ext_tape" where
  "trunk_free_block_do_insert pTrunkInfo pArray tp =
     (let count = int (length (ba_blocks pArray));
          (result, arr, tp') =
            (if count \<ge> ba_alloc pArray
             then trunk_free_block_realloc pArray
                    (if ba_alloc pArray = 0 then TRUNK_FREE_BLOCK_ARRAY_INIT_SIZE else 2 * ba_alloc pArray) tp
             else (0, pArray, tp));
          blocks = ba_blocks arr;
          off = blk_off pTrunkInfo;
          right = count - 1
      in if result \<noteq> 0 then (result, arr, tp')
         else if count = 0 then (0, arr\<lparr>ba_blocks := [pTrunkInfo]\<rparr>, tp')
         else if off < blk_off (blocks ! 0) then (0, arr\<lparr>ba_blocks := pTrunkInfo # blocks\<rparr>, tp')
         else if off > blk_off (blocks ! nat right) then (0, arr\<lparr>ba_blocks := blocks @ [pTrunkInfo]\<rparr>, tp')
         else
           (case find_offset_loop blocks off 0 right 0 of
              (found, mid) \<Rightarrow>
                if found then (EEXIST, arr, tp')
                else
                  let pos = (if off < blk_off (blocks ! nat mid) then mid else mid + 1)
                  in (0, arr\<lparr>ba_blocks := array_insert_at (nat pos) pTrunkInfo blocks\<rparr>, tp')))"

definition trunk_free_block_insert ::
    "'u id_avl \<Rightarrow> FDFSTrunkFullInfo \<Rightarrow> 'u \<Rightarrow> ext_tape \<Rightarrow> int \<times> 'u \<times> ext_tape" where
  "trunk_free_block_insert B pTrunkInfo t tp =
     (let target = FILL_FILE_IDENTIFIER pTrunkInfo in
      case avl_find B t target of
        Some pTrunksById \<Rightarrow>
          (case trunk_free_block_do_insert pTrunkInfo (tb_array pTrunksById) tp of
             (result, arr, tp') \<Rightarrow> (result, avl_store B t (pTrunksById\<lparr>tb_array := arr\<rparr>), tp'))
      | None \<Rightarrow>
          (case ext_call ENOMEM tp of
             (result, tp') \<Rightarrow>
               if result \<noteq> 0 then (result, t, tp')
               else
                 let pTrunksById = \<lparr>tb_file_id = target, tb_array = \<lparr>ba_alloc = 0, ba_blocks = []\<rparr>\<rparr> in
                 case avl_insert B t pTrunksById of
                   (t', r) \<Rightarrow>
                     if r \<noteq> 1 then
                       (case ext_pop tp' of (e, tp'') \<Rightarrow> (errno_or (ext_errno e) ENOMEM, t', tp''))
                     else
                       (case trunk_free_block_do_insert pTrunkInfo (tb_array pTrunksById) tp' of
                          (result, arr, tp'') \<Rightarrow>
                            (result, avl_store B t' (pTrunksById\<lparr>tb_array := arr\<rparr>), tp''))))"

definition trunk_free_block_delete ::
    "'u id_avl \<Rightarrow> FDFSTrunkFullInfo \<Rightarrow> 'u \<Rightarrow> ext_tape \<Rightarrow> int \<times> 'u \<times> ext_tape" where
  "trunk_free_block_delete B pTrunkInfo t tp =
     (let target = FILL_FILE_IDENTIFIER pTrunkInfo in
      case avl_find B t target of
        None \<Rightarrow> (ENOENT, t, tp)
      | Some pTrunksById \<Rightarrow>
          (let arr = tb_array pTrunksById;
               blocks = ba_blocks arr
           in case find_offset_loop blocks (blk_off pTrunkInfo) 0 (int (length blocks) - 1) 0 of
                (found, mid) \<Rightarrow>
                  if \<not> found then (ENOENT, t, tp)
                  else
                    let blocks' = array_delete_at (nat mid) blocks;
                        count = int (length blocks');
                        arr' = arr\<lparr>ba_blocks := blocks'\<rparr>
                    in if count = 0 then
                         (case avl_delete B t target of
                            (t', r) \<Rightarrow>
                              if r \<noteq> 1
                              then (ENOENT, avl_store B t' (pTrunksById\<lparr>tb_array := \<lparr>ba_alloc = 0, ba_blocks = []\<rparr>\<rparr>), tp)
                              else (0, t', tp))
                       else if count < ba_alloc arr div 2 \<and> count > TRUNK_FREE_BLOCK_ARRAY_INIT_SIZE div 2 then
                         (case trunk_free_block_realloc arr' (ba_alloc arr div 2) tp of
                            (result, arr'', tp') \<Rightarrow>
                              (result, avl_store B t (pTrunksById\<lparr>tb_array := arr''\<rparr>), tp'))
                       else (0, avl_store B t (pTrunksById\<lparr>tb_array := arr'\<rparr>), tp)))"

text \<open>The counters of \<open>trunk_free_block_tree_print\<close> and the life cycle of the tree.\<close>

definition trunk_free_block_checker_init :: "'u id_avl \<Rightarrow> ext_tape \<Rightarrow> int \<times> 'u \<times> ext_tape" where
  "trunk_free_block_checker_init B tp =
     (case ext_call ENOMEM tp of (result, tp') \<Rightarrow> (result, avl_init B, tp'))"

definition trunk_free_block_checker_destroy :: "'u id_avl \<Rightarrow> 'u \<Rightarrow> 'u" where
  "trunk_free_block_checker_destroy B t = avl_init B"

section \<open>The invariant of the index\<close>

text \<open>The blocks of one trunk file: ordered by offset, no two overlapping, none empty.\<close>

definition blocks_wf :: "FDFSTrunkFullInfo list \<Rightarrow> bool" where
  "blocks_wf bs \<longleftrightarrow> sorted_wrt (\<lambda>a b. blk_end a \<le> blk_off b) bs \<and> (\<forall>b \<in> set bs. 0 < blk_size b)"

definition trunks_by_id_wf :: "FDFSTrunksById \<Rightarrow> bool" where
  "trunks_by_id_wf d \<longleftrightarrow> blocks_wf (ba_blocks (tb_array d)) \<and>
     (\<forall>b \<in> set (ba_blocks (tb_array d)). FILL_FILE_IDENTIFIER b = tb_file_id d)"

definition id_tree_inv :: "'u id_avl \<Rightarrow> 'u \<Rightarrow> bool" where
  "id_tree_inv B t \<longleftrightarrow> avl_valid B t \<and> (\<forall>d \<in> set (avl_walk B t). trunks_by_id_wf d)"

text \<open>All the blocks the index holds.\<close>

definition id_blocks :: "'u id_avl \<Rightarrow> 'u \<Rightarrow> FDFSTrunkFullInfo list" where
  "id_blocks B t = concat (map (\<lambda>d. ba_blocks (tb_array d)) (avl_walk B t))"

text \<open>The order of the identifiers is the byte order of \<open>memcmp\<close>; any strict order will do.\<close>

abbreviation id_avl_ok :: "'u id_avl \<Rightarrow> (FDFSTrunkFileIdentifier \<Rightarrow> FDFSTrunkFileIdentifier \<Rightarrow> bool) \<Rightarrow> bool" where
  "id_avl_ok B lt \<equiv> avl_ok B tb_file_id lt"

section \<open>The binary searches\<close>

lemma blocks_wf_nth:
  assumes "blocks_wf bs" "0 \<le> i" "i < j" "j < int (length bs)"
  shows "blk_end (bs ! nat i) \<le> blk_off (bs ! nat j)"
  using assms sorted_wrt_nth_less [of "\<lambda>a b. blk_end a \<le> blk_off b" bs "nat i" "nat j"]
  by (simp add: blocks_wf_def)

lemma blocks_wf_pos:
  assumes "blocks_wf bs" "0 \<le> i" "i < int (length bs)"
  shows "0 < blk_size (bs ! nat i)"
  using assms by (auto simp: blocks_wf_def)

lemma blocks_wf_off_mono:
  assumes "blocks_wf bs" "0 \<le> i" "i < j" "j < int (length bs)"
  shows "blk_off (bs ! nat i) < blk_off (bs ! nat j)"
  using blocks_wf_nth [OF assms] blocks_wf_pos [OF assms(1,2)] assms(3,4) by fastforce

lemma blocks_wf_off_mono_le:
  assumes "blocks_wf bs" "0 \<le> i" "i \<le> j" "j < int (length bs)"
  shows "blk_off (bs ! nat i) \<le> blk_off (bs ! nat j)"
  using blocks_wf_off_mono [OF assms(1,2), of j] assms(3,4) by (cases "i = j") auto

lemma blocks_wf_end_mono_le:
  assumes "blocks_wf bs" "0 \<le> i" "i \<le> j" "j < int (length bs)"
  shows "blk_end (bs ! nat i) \<le> blk_end (bs ! nat j)"
proof (cases "i = j")
  case False
  with assms blocks_wf_nth [of bs i j] blocks_wf_pos [of bs j] show ?thesis by fastforce
qed simp

lemma ex_range_shrink_right:
  fixes l r m :: int
  assumes "\<And>i. m \<le> i \<Longrightarrow> i \<le> r \<Longrightarrow> \<not> P i" "m \<le> r"
  shows "(\<exists>i. l \<le> i \<and> i \<le> m - 1 \<and> P i) \<longleftrightarrow> (\<exists>i. l \<le> i \<and> i \<le> r \<and> P i)"
proof (rule iff_exI)
  show "(l \<le> i \<and> i \<le> m - 1 \<and> P i) = (l \<le> i \<and> i \<le> r \<and> P i)" for i
    using assms by (cases "m \<le> i") auto
qed

lemma ex_range_shrink_left:
  fixes l r m :: int
  assumes "\<And>i. l \<le> i \<Longrightarrow> i \<le> m \<Longrightarrow> \<not> P i" "l \<le> m"
  shows "(\<exists>i. m + 1 \<le> i \<and> i \<le> r \<and> P i) \<longleftrightarrow> (\<exists>i. l \<le> i \<and> i \<le> r \<and> P i)"
proof (rule iff_exI)
  show "(m + 1 \<le> i \<and> i \<le> r \<and> P i) = (l \<le> i \<and> i \<le> r \<and> P i)" for i
    using assms by (cases "i \<le> m") auto
qed

text \<open>The loop answers whether a block of the searched range overlaps.\<close>

lemma check_duplicate_loop_spec:
  assumes "blocks_wf bs" "off < e" "0 \<le> l" "r < int (length bs)"
  shows "check_duplicate_loop bs off e l r =
    (if \<exists>i. l \<le> i \<and> i \<le> r \<and> blk_off (bs ! nat i) < e \<and> off < blk_end (bs ! nat i) then EEXIST else 0)"
  using assms
proof (induction bs off e l r rule: check_duplicate_loop.induct)
  case (1 bs off e l r)
  note prems = "1.prems"
  define m where "m = (l + r) div 2"
  let ?b = "bs ! nat m"
  let ?hit = "\<lambda>i. blk_off (bs ! nat i) < e \<and> off < blk_end (bs ! nat i)"
  show ?case
  proof (cases "l \<le> r")
    case False
    then show ?thesis by (simp add: check_duplicate_loop.simps [of bs off e l r])
  next
    case True
    have m: "l \<le> m" "m \<le> r" using True by (auto simp: m_def)
    have mr: "0 \<le> m" "m < int (length bs)" using m prems by auto
    consider (before) "off < blk_off ?b" "e \<le> blk_off ?b" | (after) "blk_end ?b \<le> off" "blk_off ?b < off"
      | (hit) "?hit m" "off \<ge> blk_off ?b \<or> blk_off ?b < e" "off \<le> blk_off ?b \<or> off < blk_end ?b"
      using blocks_wf_pos [OF prems(1) mr] prems(2) by linarith
    then show ?thesis
    proof cases
      case before
      have out: "\<not> ?hit i" if "m \<le> i" "i \<le> r" for i
        using blocks_wf_off_mono_le [OF prems(1) mr(1) that(1)] that prems(4) before by auto
      have "check_duplicate_loop bs off e l r = check_duplicate_loop bs off e l (m - 1)"
        using True before by (simp add: check_duplicate_loop.simps [of bs off e l r] m_def Let_def)
      also have "\<dots> = (if \<exists>i. l \<le> i \<and> i \<le> m - 1 \<and> ?hit i then EEXIST else 0)"
        using "1.IH"(1) [OF True m_def refl] before prems mr by simp
      also have "(\<exists>i. l \<le> i \<and> i \<le> m - 1 \<and> ?hit i) \<longleftrightarrow> (\<exists>i. l \<le> i \<and> i \<le> r \<and> ?hit i)"
        using out m by (intro ex_range_shrink_right) auto
      finally show ?thesis .
    next
      case after
      have out: "\<not> ?hit i" if "l \<le> i" "i \<le> m" for i
        using blocks_wf_end_mono_le [OF prems(1) _ that(2) mr(2)] that prems(3) after by auto
      have "check_duplicate_loop bs off e l r = check_duplicate_loop bs off e (m + 1) r"
        using True after by (simp add: check_duplicate_loop.simps [of bs off e l r] m_def Let_def)
      also have "\<dots> = (if \<exists>i. m + 1 \<le> i \<and> i \<le> r \<and> ?hit i then EEXIST else 0)"
        using "1.IH"(2) [OF True m_def refl] after prems mr by simp
      also have "(\<exists>i. m + 1 \<le> i \<and> i \<le> r \<and> ?hit i) \<longleftrightarrow> (\<exists>i. l \<le> i \<and> i \<le> r \<and> ?hit i)"
        using out m by (intro ex_range_shrink_left) auto
      finally show ?thesis .
    next
      case hit
      then have "check_duplicate_loop bs off e l r = EEXIST"
        using True by (simp add: check_duplicate_loop.simps [of bs off e l r] m_def [symmetric] Let_def)
      with hit(1) m show ?thesis by auto
    qed
  qed
qed

text \<open>
  The search for an offset: a hit is a block at that offset; a miss leaves \<open>mid\<close> next to
  the place where the offset belongs.
\<close>

definition insert_pos :: "FDFSTrunkFullInfo list \<Rightarrow> int \<Rightarrow> int \<Rightarrow> int" where
  "insert_pos bs off m = (if off < blk_off (bs ! nat m) then m else m + 1)"

lemma find_offset_loop_spec:
  assumes "blocks_wf bs" "0 \<le> l" "r < int (length bs)" "l \<le> r + 1"
    and "\<forall>i. 0 \<le> i \<and> i < l \<longrightarrow> blk_off (bs ! nat i) < off"
    and "\<forall>i. r < i \<and> i < int (length bs) \<longrightarrow> off < blk_off (bs ! nat i)"
    and "l \<le> r \<or> (0 \<le> m0 \<and> m0 < int (length bs) \<and> (m0 = l - 1 \<or> m0 = l))"
    and "find_offset_loop bs off l r m0 = (f, m)"
  shows "0 \<le> m \<and> m < int (length bs) \<and> (f \<longrightarrow> blk_off (bs ! nat m) = off) \<and>
    (\<not> f \<longrightarrow> (\<forall>i. 0 \<le> i \<and> i < insert_pos bs off m \<longrightarrow> blk_off (bs ! nat i) < off) \<and>
             (\<forall>i. insert_pos bs off m \<le> i \<and> i < int (length bs) \<longrightarrow> off < blk_off (bs ! nat i)))"
  using assms
proof (induction bs off l r m0 rule: find_offset_loop.induct)
  case (1 bs off l r m0)
  note prems = "1.prems"
  define k where "k = (l + r) div 2"
  show ?case
  proof (cases "l \<le> r")
    case False
    then have fm: "f = False" "m = m0" and lr: "l = r + 1"
      using prems(4,8) by (simp_all add: find_offset_loop.simps [of bs off l r m0])
    have "insert_pos bs off m = l"
      using prems(5,6,7) False lr fm by (auto simp: insert_pos_def)
    with prems fm lr show ?thesis by auto
  next
    case True
    have k: "l \<le> k" "k \<le> r" using True by (auto simp: k_def)
    have kr: "0 \<le> k" "k < int (length bs)" using k prems by auto
    consider (gt) "blk_off (bs ! nat k) > off" | (eq) "blk_off (bs ! nat k) = off"
      | (lt) "blk_off (bs ! nat k) < off" by linarith
    then show ?thesis
    proof cases
      case gt
      have fl: "find_offset_loop bs off l (k - 1) k = (f, m)"
        using prems(8) True gt by (simp add: find_offset_loop.simps [of bs off l r m0] k_def Let_def)
      have above: "\<forall>i. k - 1 < i \<and> i < int (length bs) \<longrightarrow> off < blk_off (bs ! nat i)"
      proof (intro allI impI)
        fix i assume "k - 1 < i \<and> i < int (length bs)"
        with blocks_wf_off_mono_le [OF prems(1) kr(1), of i] gt show "off < blk_off (bs ! nat i)" by simp
      qed
      show ?thesis
        by (rule "1.IH"(1) [OF True k_def refl _ prems(1,2) _ _ prems(5) above _ fl]) (use gt k kr in auto)
    next
      case eq
      then have "f" "m = k"
        using prems(8) True by (simp_all add: find_offset_loop.simps [of bs off l r m0] k_def Let_def)
      with eq kr show ?thesis by simp
    next
      case lt
      have fl: "find_offset_loop bs off (k + 1) r k = (f, m)"
        using prems(8) True lt by (simp add: find_offset_loop.simps [of bs off l r m0] k_def Let_def)
      have below: "\<forall>i. 0 \<le> i \<and> i < k + 1 \<longrightarrow> blk_off (bs ! nat i) < off"
      proof (intro allI impI)
        fix i assume "0 \<le> i \<and> i < k + 1"
        with blocks_wf_off_mono_le [OF prems(1), of i k] kr lt show "blk_off (bs ! nat i) < off" by simp
      qed
      show ?thesis
        by (rule "1.IH"(2) [OF True k_def refl _ _ prems(1) _ prems(3) _ below prems(6) _ fl])
          (use lt k kr in auto)
    qed
  qed
qed

section \<open>The check\<close>

lemma id_blocks_in:
  "b \<in> set (id_blocks B t) \<longleftrightarrow> (\<exists>d \<in> set (avl_walk B t). b \<in> set (ba_blocks (tb_array d)))"
  by (auto simp: id_blocks_def)

lemma id_blocks_of_entry:
  assumes ok: "id_avl_ok B lt" and inv: "id_tree_inv B t"
    and f: "avl_find B t (FILL_FILE_IDENTIFIER x) = Some d"
  shows "{b \<in> set (id_blocks B t). FILL_FILE_IDENTIFIER b = FILL_FILE_IDENTIFIER x}
       = set (ba_blocks (tb_array d))"
proof -
  have v: "avl_valid B t" using inv by (simp add: id_tree_inv_def)
  have d: "d \<in> set (avl_walk B t)" "tb_file_id d = FILL_FILE_IDENTIFIER x"
    using avl_find_SomeD [OF ok v f] by auto
  have same: "e = d" if "e \<in> set (avl_walk B t)" "tb_file_id e = FILL_FILE_IDENTIFIER x" for e
    using avl_find_in [OF ok v that(1)] that(2) f by simp
  have wf: "FILL_FILE_IDENTIFIER b = tb_file_id e"
    if "e \<in> set (avl_walk B t)" "b \<in> set (ba_blocks (tb_array e))" for e b
    using inv that by (auto simp: id_tree_inv_def trunks_by_id_wf_def)
  show ?thesis
  proof (intro set_eqI iffI)
    fix b assume "b \<in> {b \<in> set (id_blocks B t). FILL_FILE_IDENTIFIER b = FILL_FILE_IDENTIFIER x}"
    then obtain e where "e \<in> set (avl_walk B t)" "b \<in> set (ba_blocks (tb_array e))"
        "FILL_FILE_IDENTIFIER b = FILL_FILE_IDENTIFIER x"
      by (auto simp: id_blocks_in)
    with wf [of e b] same [of e] show "b \<in> set (ba_blocks (tb_array d))" by simp
  next
    fix b assume "b \<in> set (ba_blocks (tb_array d))"
    with d wf [of d b] show "b \<in> {b \<in> set (id_blocks B t). FILL_FILE_IDENTIFIER b = FILL_FILE_IDENTIFIER x}"
      by (auto simp: id_blocks_in)
  qed
qed

lemma id_blocks_no_entry:
  assumes ok: "id_avl_ok B lt" and inv: "id_tree_inv B t"
    and f: "avl_find B t (FILL_FILE_IDENTIFIER x) = None" and b: "b \<in> set (id_blocks B t)"
  shows "FILL_FILE_IDENTIFIER b \<noteq> FILL_FILE_IDENTIFIER x"
proof -
  have v: "avl_valid B t" using inv by (simp add: id_tree_inv_def)
  obtain d where "d \<in> set (avl_walk B t)" "FILL_FILE_IDENTIFIER b = tb_file_id d"
    using inv b by (auto simp: id_blocks_in id_tree_inv_def trunks_by_id_wf_def)
  with f show ?thesis unfolding avl_find_None_iff [OF ok v] by (metis image_eqI)
qed

lemma nth_int_in_set: "0 \<le> i \<Longrightarrow> i < int (length xs) \<Longrightarrow> xs ! nat i \<in> set xs"
  by (simp add: nat_less_iff)

lemma in_set_nth_int: "x \<in> set xs \<longleftrightarrow> (\<exists>i. 0 \<le> i \<and> i < int (length xs) \<and> xs ! nat i = x)"
proof
  assume "x \<in> set xs"
  then obtain n where "n < length xs" "xs ! n = x" by (auto simp: in_set_conv_nth)
  then show "\<exists>i. 0 \<le> i \<and> i < int (length xs) \<and> xs ! nat i = x" by (intro exI [of _ "int n"]) simp
qed (auto intro: nth_int_in_set)

lemma check_duplicate_array:
  assumes wf: "blocks_wf bs" and ne: "off < e" and nil: "bs \<noteq> []"
  shows "(if e \<le> blk_off (bs ! 0) then 0
          else if off \<ge> blk_end (bs ! nat (int (length bs) - 1)) then 0
          else check_duplicate_loop bs off e 0 (int (length bs) - 1))
       = (if \<exists>b \<in> set bs. off < blk_end b \<and> blk_off b < e then EEXIST else 0)"
proof -
  let ?n = "int (length bs)"
  have n: "0 \<le> ?n - 1" "?n - 1 < ?n" using nil by (cases bs; simp)+
  have first: "blk_off (bs ! 0) \<le> blk_off b" if "b \<in> set bs" for b
    using that blocks_wf_off_mono_le [OF wf, of 0] by (auto simp: in_set_nth_int)
  have last: "blk_end b \<le> blk_end (bs ! nat (?n - 1))" if "b \<in> set bs" for b
    using that blocks_wf_end_mono_le [OF wf, of _ "?n - 1"] n by (auto simp: in_set_nth_int)
  have hit: "(\<exists>i. 0 \<le> i \<and> i \<le> ?n - 1 \<and> blk_off (bs ! nat i) < e \<and> off < blk_end (bs ! nat i))
      \<longleftrightarrow> (\<exists>b \<in> set bs. off < blk_end b \<and> blk_off b < e)" (is "?L \<longleftrightarrow> ?R")
  proof
    assume ?L
    then obtain i where "0 \<le> i" "i < ?n" "blk_off (bs ! nat i) < e" "off < blk_end (bs ! nat i)" by auto
    with nth_int_in_set [of i bs] show ?R by blast
  next
    assume ?R
    then obtain i where "0 \<le> i" "i < ?n" "blk_off (bs ! nat i) < e" "off < blk_end (bs ! nat i)"
      by (auto simp: in_set_nth_int)
    then show ?L by (intro exI [of _ i]) simp
  qed
  have loop: "check_duplicate_loop bs off e 0 (?n - 1)
      = (if \<exists>b \<in> set bs. off < blk_end b \<and> blk_off b < e then EEXIST else 0)"
    using check_duplicate_loop_spec [OF wf ne, of 0 "?n - 1"] unfolding hit by simp
  show ?thesis unfolding loop using first last by force
qed

lemma check_duplicate_spec:
  assumes ok: "id_avl_ok B lt" and inv: "id_tree_inv B t" and pos: "0 < blk_size x"
  shows "trunk_free_block_check_duplicate B x t =
    (if \<exists>b \<in> set (id_blocks B t). blk_overlap x b then EEXIST else 0)"
proof (cases "avl_find B t (FILL_FILE_IDENTIFIER x)")
  case None
  have "\<not> blk_overlap x b" if "b \<in> set (id_blocks B t)" for b
    using id_blocks_no_entry [OF ok inv None that] by (simp add: blk_overlap_def)
  with None show ?thesis by (auto simp: trunk_free_block_check_duplicate_def)
next
  case (Some d)
  let ?bs = "ba_blocks (tb_array d)"
  have "d \<in> set (avl_walk B t)"
    using avl_find_SomeD [OF ok _ Some] inv by (simp add: id_tree_inv_def)
  then have wf: "blocks_wf ?bs" using inv by (simp add: id_tree_inv_def trunks_by_id_wf_def)
  have eq: "(\<exists>b \<in> set (id_blocks B t). blk_overlap x b)
      \<longleftrightarrow> (\<exists>b \<in> set ?bs. blk_off x < blk_end b \<and> blk_off b < blk_end x)"
  proof -
    have "b \<in> set (id_blocks B t) \<and> FILL_FILE_IDENTIFIER b = FILL_FILE_IDENTIFIER x \<longleftrightarrow> b \<in> set ?bs" for b
      using id_blocks_of_entry [OF ok inv Some] by blast
    then show ?thesis unfolding blk_overlap_def by metis
  qed
  show ?thesis
  proof (cases "?bs = []")
    case True
    with Some eq show ?thesis by (simp add: trunk_free_block_check_duplicate_def Let_def)
  next
    case False
    with Some eq check_duplicate_array [OF wf _ False, of "blk_off x" "blk_end x"] pos
    show ?thesis by (simp add: trunk_free_block_check_duplicate_def Let_def)
  qed
qed

section \<open>Insertion into an array\<close>

lemma realloc_blocks:
  "trunk_free_block_realloc arr n tp = (res, arr', tp') \<Longrightarrow> ba_blocks arr' = ba_blocks arr"
  by (auto simp: trunk_free_block_realloc_def split: prod.splits if_splits)

lemma realloc_ok:
  "ext_all_ok tp \<Longrightarrow> trunk_free_block_realloc arr n tp = (res, arr', tp') \<Longrightarrow> res = 0 \<and> ext_all_ok tp'"
  using ext_call_ok [of tp ENOMEM] by (auto simp: trunk_free_block_realloc_def split: prod.splits if_splits)

lemma mset_array_insert_at [simp]: "mset (array_insert_at p x xs) = add_mset x (mset xs)"
proof -
  have "mset (take p xs @ drop p xs) = mset xs" by simp
  then show ?thesis by (simp add: array_insert_at_def del: append_take_drop_id)
qed

lemma array_insert_at_wf:
  assumes wf: "blocks_wf bs" and pos: "0 < blk_size x"
    and clear: "\<forall>b \<in> set bs. \<not> (blk_off x < blk_end b \<and> blk_off b < blk_end x)"
    and p: "0 \<le> p" "p \<le> int (length bs)"
    and below: "\<forall>i. 0 \<le> i \<and> i < p \<longrightarrow> blk_off (bs ! nat i) < blk_off x"
    and above: "\<forall>i. p \<le> i \<and> i < int (length bs) \<longrightarrow> blk_off x < blk_off (bs ! nat i)"
  shows "blocks_wf (array_insert_at (nat p) x bs)"
proof -
  have t: "blk_end b \<le> blk_off x" if b: "b \<in> set (take (nat p) bs)" for b
  proof -
    obtain i where "i < nat p" "i < length bs" "b = bs ! i"
      using b by (auto simp: in_set_conv_nth)
    with below have "blk_off b < blk_off x" by (auto dest: spec [of _ "int i"])
    with clear in_set_takeD [OF b] pos show ?thesis by auto
  qed
  have d: "blk_end x \<le> blk_off b" if b: "b \<in> set (drop (nat p) bs)" for b
  proof -
    obtain i where "i < length bs - nat p" "b = bs ! (nat p + i)"
      using b by (auto simp: in_set_conv_nth)
    then have "p \<le> int (nat p + i)" "int (nat p + i) < int (length bs)" "b = bs ! nat (int (nat p + i))"
      using p(1) by (auto simp: nat_add_distrib)
    with above have "blk_off x < blk_off b" by blast
    moreover have "0 < blk_size b" using in_set_dropD [OF b] wf by (auto simp: blocks_wf_def)
    ultimately show ?thesis using clear in_set_dropD [OF b] by auto
  qed
  have "sorted_wrt (\<lambda>a b. blk_end a \<le> blk_off b) (take (nat p) bs @ x # drop (nat p) bs)"
    by (rule sorted_wrt_insert_nth) (use wf p t d in \<open>auto simp: blocks_wf_def\<close>)
  moreover have "set (array_insert_at (nat p) x bs) = insert x (set bs)"
    using mset_array_insert_at [of "nat p" x bs] by (metis set_mset_add_mset_insert set_mset_mset)
  ultimately show ?thesis using wf pos by (auto simp: blocks_wf_def array_insert_at_def)
qed

lemma do_insert_spec:
  assumes wf: "blocks_wf (ba_blocks arr)" and pos: "0 < blk_size x"
    and clear: "\<forall>b \<in> set (ba_blocks arr). \<not> (blk_off x < blk_end b \<and> blk_off b < blk_end x)"
    and ins: "trunk_free_block_do_insert x arr tp = (res, arr', tp')"
  shows "(res = 0 \<and> blocks_wf (ba_blocks arr') \<and> mset (ba_blocks arr') = add_mset x (mset (ba_blocks arr)))
       \<or> (res \<noteq> 0 \<and> ba_blocks arr' = ba_blocks arr)"
    and "ext_all_ok tp \<Longrightarrow> res = 0 \<and> ext_all_ok tp'"
proof -
  let ?bs = "ba_blocks arr" and ?off = "blk_off x"
  define n where "n = int (length ?bs)"
  obtain r0 arr0 tp0 where g: "(if n \<ge> ba_alloc arr
      then trunk_free_block_realloc arr (if ba_alloc arr = 0 then 32 else 2 * ba_alloc arr) tp
      else (0, arr, tp)) = (r0, arr0, tp0)" by (metis prod_cases3)
  have bs0: "ba_blocks arr0 = ?bs" using g realloc_blocks by (auto split: if_splits)
  have ok0: "r0 = 0 \<and> ext_all_ok tp0" if "ext_all_ok tp" using g realloc_ok that by (auto split: if_splits)
  obtain f m where fm: "find_offset_loop ?bs ?off 0 (n - 1) 0 = (f, m)" by (metis surj_pair)
  note unf = ins [unfolded trunk_free_block_do_insert_def n_def [symmetric] Let_def g bs0 fm prod.case bs0]
  have inside: "\<not> f \<and> blocks_wf (array_insert_at (nat (insert_pos ?bs ?off m)) x ?bs)"
    if ne: "n \<noteq> 0" and l: "\<not> ?off < blk_off (?bs ! 0)" and r: "\<not> ?off > blk_off (?bs ! nat (n - 1))"
  proof -
    have n1: "0 \<le> n - 1" using ne by (simp add: n_def)
    note spec = find_offset_loop_spec [OF wf _ _ _ _ _ _ fm]
    have sp: "0 \<le> m" "m < n" "f \<longrightarrow> blk_off (?bs ! nat m) = ?off"
      "\<not> f \<longrightarrow> (\<forall>i. 0 \<le> i \<and> i < insert_pos ?bs ?off m \<longrightarrow> blk_off (?bs ! nat i) < ?off) \<and>
        (\<forall>i. insert_pos ?bs ?off m \<le> i \<and> i < n \<longrightarrow> ?off < blk_off (?bs ! nat i))"
      using spec n1 by (simp_all add: n_def)
    have nf: "\<not> f"
    proof
      assume f
      with sp have "blk_off (?bs ! nat m) = ?off" "?bs ! nat m \<in> set ?bs"
        using nth_int_in_set [of m ?bs] by (auto simp: n_def)
      moreover have "0 < blk_size (?bs ! nat m)" using blocks_wf_pos [OF wf, of m] sp by (simp add: n_def)
      ultimately show False using clear pos by fastforce
    qed
    have rng: "0 \<le> insert_pos ?bs ?off m" "insert_pos ?bs ?off m \<le> int (length ?bs)"
      using sp(1,2) by (simp_all add: insert_pos_def n_def)
    have "blocks_wf (array_insert_at (nat (insert_pos ?bs ?off m)) x ?bs)"
      using sp(4) [rule_format, OF nf, folded n_def] by (intro array_insert_at_wf [OF wf pos clear rng]) (fold n_def, blast+)
    with nf show ?thesis by blast
  qed
  have first: "blocks_wf (x # ?bs)" if "n \<noteq> 0" "?off < blk_off (?bs ! 0)"
  proof -
    have "\<forall>i. 0 \<le> i \<and> i < int (length ?bs) \<longrightarrow> ?off < blk_off (?bs ! nat i)"
    proof (intro allI impI)
      fix i assume "0 \<le> i \<and> i < int (length ?bs)"
      with blocks_wf_off_mono_le [OF wf, of 0 i] that(2) show "?off < blk_off (?bs ! nat i)" by simp
    qed
    with array_insert_at_wf [OF wf pos clear, of 0] show ?thesis by (simp add: array_insert_at_def)
  qed
  have last: "blocks_wf (?bs @ [x])" if "n \<noteq> 0" "?off > blk_off (?bs ! nat (n - 1))"
  proof -
    have "\<forall>i. 0 \<le> i \<and> i < int (length ?bs) \<longrightarrow> blk_off (?bs ! nat i) < ?off"
    proof (intro allI impI)
      fix i assume "0 \<le> i \<and> i < int (length ?bs)"
      with blocks_wf_off_mono_le [OF wf, of i "n - 1"] that(2) show "blk_off (?bs ! nat i) < ?off"
        by (simp add: n_def)
    qed
    with array_insert_at_wf [OF wf pos clear, of "int (length ?bs)"] show ?thesis
      by (simp add: array_insert_at_def)
  qed
  have single: "blocks_wf [x]" using pos by (simp add: blocks_wf_def)
  show "(res = 0 \<and> blocks_wf (ba_blocks arr') \<and> mset (ba_blocks arr') = add_mset x (mset (ba_blocks arr)))
       \<or> (res \<noteq> 0 \<and> ba_blocks arr' = ba_blocks arr)"
    using unf inside first last single bs0
    by (auto simp: insert_pos_def mset_array_insert_at n_def split: if_splits)
  show "res = 0 \<and> ext_all_ok tp'" if "ext_all_ok tp"
    using unf inside ok0 [OF that] by (auto simp: insert_pos_def split: if_splits)
qed

section \<open>Insertion into and deletion from the index\<close>

lemma id_blocks_split:
  "avl_walk B t = ys @ d # zs \<Longrightarrow> mset (id_blocks B t) =
     mset (ba_blocks (tb_array d)) + mset (concat (map (\<lambda>d. ba_blocks (tb_array d)) (ys @ zs)))"
  by (simp add: id_blocks_def ac_simps)

lemma id_tree_inv_split:
  assumes "id_tree_inv B t" "avl_walk B t = ys @ d # zs" "avl_valid B t'"
    and "avl_walk B t' = ys @ d' # zs" "trunks_by_id_wf d'"
  shows "id_tree_inv B t'"
  using assms by (auto simp: id_tree_inv_def)

lemma insert_entry_spec:
  assumes ok: "id_avl_ok B lt" and inv: "id_tree_inv B t" and pos: "0 < blk_size x"
    and clear: "\<forall>b \<in> set (id_blocks B t). \<not> blk_overlap x b"
    and f: "avl_find B t (FILL_FILE_IDENTIFIER x) = Some d"
    and di: "trunk_free_block_do_insert x (tb_array d) tp = (res, arr, tp')"
  defines "t' \<equiv> avl_store B t (d\<lparr>tb_array := arr\<rparr>)"
  shows "id_tree_inv B t' \<and>
      (res = 0 \<longrightarrow> mset (id_blocks B t') = add_mset x (mset (id_blocks B t))) \<and>
      (res \<noteq> 0 \<longrightarrow> mset (id_blocks B t') = mset (id_blocks B t)) \<and>
      (ext_all_ok tp \<longrightarrow> res = 0 \<and> ext_all_ok tp')"
proof -
  have v: "avl_valid B t" using inv by (simp add: id_tree_inv_def)
  have d: "d \<in> set (avl_walk B t)" "tb_file_id d = FILL_FILE_IDENTIFIER x"
    using avl_find_SomeD [OF ok v f] by auto
  have wfd: "trunks_by_id_wf d" using inv d by (simp add: id_tree_inv_def)
  then have wf0: "blocks_wf (ba_blocks (tb_array d))" by (simp add: trunks_by_id_wf_def)
  have clr: "\<forall>b \<in> set (ba_blocks (tb_array d)). \<not> (blk_off x < blk_end b \<and> blk_off b < blk_end x)"
  proof
    fix b assume "b \<in> set (ba_blocks (tb_array d))"
    then have "b \<in> set (id_blocks B t)" "FILL_FILE_IDENTIFIER b = FILL_FILE_IDENTIFIER x"
      using id_blocks_of_entry [OF ok inv f] by blast+
    with clear show "\<not> (blk_off x < blk_end b \<and> blk_off b < blk_end x)" by (auto simp: blk_overlap_def)
  qed
  note sp = do_insert_spec [OF wf0 pos clr di]
  have set': "set (ba_blocks arr) \<subseteq> insert x (set (ba_blocks (tb_array d)))"
    using sp(1) by (metis set_mset_add_mset_insert set_mset_mset subset_insertI subset_refl)
  have wfd': "trunks_by_id_wf (d\<lparr>tb_array := arr\<rparr>)"
    using sp(1) wfd wf0 set' d(2) unfolding trunks_by_id_wf_def by auto
  have f': "avl_find B t (tb_file_id (d\<lparr>tb_array := arr\<rparr>)) = Some d" using f d(2) by simp
  obtain ys zs where w: "avl_walk B t = ys @ d # zs" "avl_walk B t' = ys @ d\<lparr>tb_array := arr\<rparr> # zs"
      "avl_valid B t'"
    using avl_store_split [OF ok v f'] t'_def by blast
  have "id_tree_inv B t'" by (rule id_tree_inv_split [OF inv w(1,3,2) wfd'])
  then show ?thesis
    unfolding id_blocks_split [OF w(1)] id_blocks_split [OF w(2)] using sp by auto
qed

lemma trunk_free_block_insert_all:
  assumes ok: "id_avl_ok B lt" and inv: "id_tree_inv B t" and pos: "0 < blk_size x"
    and clear: "\<forall>b \<in> set (id_blocks B t). \<not> blk_overlap x b"
    and ins: "trunk_free_block_insert B x t tp = (res, t', tp')"
  shows "id_tree_inv B t' \<and>
      (res = 0 \<longrightarrow> mset (id_blocks B t') = add_mset x (mset (id_blocks B t))) \<and>
      (res \<noteq> 0 \<longrightarrow> mset (id_blocks B t') = mset (id_blocks B t)) \<and>
      (ext_all_ok tp \<longrightarrow> avl_total B \<longrightarrow> res = 0 \<and> ext_all_ok tp')"
proof -
  let ?key = "FILL_FILE_IDENTIFIER x"
  let ?d = "\<lparr>tb_file_id = ?key, tb_array = \<lparr>ba_alloc = 0, ba_blocks = []\<rparr>\<rparr>"
  have v: "avl_valid B t" using inv by (simp add: id_tree_inv_def)
  obtain r0 tp0 where c0: "ext_call ENOMEM tp = (r0, tp0)" by (metis surj_pair)
  obtain t1 r1 where i1: "avl_insert B t ?d = (t1, r1)" by (metis surj_pair)
  obtain e tp1 where p1: "ext_pop tp0 = (e, tp1)" by (metis surj_pair)
  obtain rd arrd tpd where dd: "trunk_free_block_do_insert x (tb_array ?d) tp0 = (rd, arrd, tpd)"
    by (metis prod_cases3)
  have c0ok: "ext_all_ok tp \<Longrightarrow> r0 = 0 \<and> ext_all_ok tp0" using ext_call_ok [of tp ENOMEM] c0 by auto
  show ?thesis
  proof (cases "avl_find B t ?key")
    case (Some d)
    obtain r arr tp2 where di: "trunk_free_block_do_insert x (tb_array d) tp = (r, arr, tp2)"
      by (metis prod_cases3)
    with ins Some have "res = r" "t' = avl_store B t (d\<lparr>tb_array := arr\<rparr>)" "tp' = tp2"
      by (simp_all add: trunk_free_block_insert_def Let_def)
    with insert_entry_spec [OF ok inv pos clear Some di] show ?thesis by simp
  next
    case None
    note unf = ins [unfolded trunk_free_block_insert_def Let_def None c0 i1 p1 dd option.case prod.case]
    have fresh: "tb_file_id ?d \<notin> tb_file_id ` set (avl_walk B t)"
      using None avl_find_None_iff [OF ok v] by simp
    consider (nomem) "r0 \<noteq> 0" | (full) "r0 = 0" "r1 < 0" "t1 = t"
      | (new) xs ys where "r0 = 0" "r1 = 1" "avl_valid B t1" "avl_walk B t = xs @ ys"
          "avl_walk B t1 = xs @ ?d # ys"
      using avl_insert_cases [OF ok v i1 fresh] by metis
    then show ?thesis
    proof cases
      case nomem
      then have "res = r0" "t' = t" using unf by simp_all
      with nomem inv c0ok show ?thesis by auto
    next
      case full
      then have "res = errno_or (ext_errno e) ENOMEM" "t' = t" using unf by simp_all
      moreover have "\<not> avl_total B" using full i1 v unfolding avl_total_def by (metis not_less snd_conv)
      ultimately show ?thesis using inv by simp
    next
      case (new xs ys)
      have inv1: "id_tree_inv B t1"
        using inv new by (auto simp: id_tree_inv_def trunks_by_id_wf_def blocks_wf_def)
      have same: "mset (id_blocks B t1) = mset (id_blocks B t)" using new by (simp add: id_blocks_def)
      then have clear1: "\<forall>b \<in> set (id_blocks B t1). \<not> blk_overlap x b"
        using clear by (metis set_mset_mset)
      have f1: "avl_find B t1 ?key = Some ?d" using avl_find_in [OF ok new(3), of ?d] new by simp
      have "res = rd" "t' = avl_store B t1 (?d\<lparr>tb_array := arrd\<rparr>)" "tp' = tpd"
        using unf new by simp_all
      with insert_entry_spec [OF ok inv1 pos clear1 f1 dd] same c0ok show ?thesis by simp
    qed
  qed
qed

lemmas trunk_free_block_insert_spec =
  trunk_free_block_insert_all [THEN conjunct1]
  trunk_free_block_insert_all [THEN conjunct2, THEN conjunct1, rule_format]
  trunk_free_block_insert_all [THEN conjunct2, THEN conjunct2, THEN conjunct1, rule_format]
  trunk_free_block_insert_all [THEN conjunct2, THEN conjunct2, THEN conjunct2, rule_format]

lemma find_offset_array:
  assumes wf: "blocks_wf bs" and f: "find_offset_loop bs off 0 (int (length bs) - 1) 0 = (f, m)"
  shows "f \<Longrightarrow> 0 \<le> m \<and> m < int (length bs) \<and> blk_off (bs ! nat m) = off"
    and "f \<longleftrightarrow> (\<exists>b \<in> set bs. blk_off b = off)"
proof -
  have all: "(f \<longrightarrow> 0 \<le> m \<and> m < int (length bs) \<and> blk_off (bs ! nat m) = off) \<and>
     (\<not> f \<longrightarrow> (\<forall>i. 0 \<le> i \<and> i < int (length bs) \<longrightarrow> blk_off (bs ! nat i) \<noteq> off))"
  proof (cases "bs = []")
    case True
    with f show ?thesis by (simp add: find_offset_loop.simps)
  next
    case False
    then have n: "0 \<le> int (length bs) - 1" by (cases bs) simp_all
    have sp: "0 \<le> m \<and> m < int (length bs) \<and> (f \<longrightarrow> blk_off (bs ! nat m) = off) \<and>
      (\<not> f \<longrightarrow> (\<forall>i. 0 \<le> i \<and> i < insert_pos bs off m \<longrightarrow> blk_off (bs ! nat i) < off) \<and>
               (\<forall>i. insert_pos bs off m \<le> i \<and> i < int (length bs) \<longrightarrow> off < blk_off (bs ! nat i)))"
      by (rule find_offset_loop_spec [OF wf _ _ _ _ _ _ f]) (use n in simp_all)
    then show ?thesis by (metis less_irrefl not_less)
  qed
  then show "f \<Longrightarrow> 0 \<le> m \<and> m < int (length bs) \<and> blk_off (bs ! nat m) = off" by blast
  from all show "f \<longleftrightarrow> (\<exists>b \<in> set bs. blk_off b = off)"
    unfolding Bex_def in_set_nth_int by metis
qed

lemma mset_array_delete_at:
  assumes "p < length xs"
  shows "mset xs = add_mset (xs ! p) (mset (array_delete_at p xs))"
  by (subst id_take_nth_drop [OF assms]) (simp add: array_delete_at_def)

lemma array_delete_at_wf: "blocks_wf bs \<Longrightarrow> blocks_wf (array_delete_at p bs)"
  unfolding blocks_wf_def array_delete_at_def
  using sorted_wrt_delete_nth [of "\<lambda>a b. blk_end a \<le> blk_off b" bs p] by (auto dest: in_set_takeD in_set_dropD)

lemma set_array_delete_at: "set (array_delete_at p xs) \<subseteq> set xs"
  by (auto simp: array_delete_at_def dest: in_set_takeD in_set_dropD)

text \<open>Two blocks of the index in the same trunk file at the same offset are the same block.\<close>

lemma id_blocks_unique:
  assumes ok: "id_avl_ok B lt" and inv: "id_tree_inv B t"
    and y: "y \<in> set (id_blocks B t)" and x: "x \<in> set (id_blocks B t)"
    and e: "FILL_FILE_IDENTIFIER y = FILL_FILE_IDENTIFIER x" "blk_off y = blk_off x"
  shows "y = x"
proof -
  have v: "avl_valid B t" using inv by (simp add: id_tree_inv_def)
  obtain d where d: "avl_find B t (FILL_FILE_IDENTIFIER x) = Some d"
    using id_blocks_no_entry [OF ok inv _ x] by (cases "avl_find B t (FILL_FILE_IDENTIFIER x)") auto
  have "d \<in> set (avl_walk B t)" using avl_find_SomeD [OF ok v d] by simp
  then have wf: "blocks_wf (ba_blocks (tb_array d))"
    using inv by (simp add: id_tree_inv_def trunks_by_id_wf_def)
  have "x \<in> set (ba_blocks (tb_array d))" "y \<in> set (ba_blocks (tb_array d))"
    using id_blocks_of_entry [OF ok inv d] x y e by blast+
  then obtain i j where ij: "0 \<le> i" "i < int (length (ba_blocks (tb_array d)))" "ba_blocks (tb_array d) ! nat i = x"
      "0 \<le> j" "j < int (length (ba_blocks (tb_array d)))" "ba_blocks (tb_array d) ! nat j = y"
    unfolding in_set_nth_int by blast
  have "i = j" using blocks_wf_off_mono [OF wf, of i j] blocks_wf_off_mono [OF wf, of j i] ij e(2)
    by (cases i j rule: linorder_cases) auto
  with ij show ?thesis by simp
qed

lemma delete_entry_spec:
  assumes ok: "id_avl_ok B lt" and inv: "id_tree_inv B t"
    and f: "avl_find B t k = Some d" and m: "nat m < length (ba_blocks (tb_array d))"
    and arr: "ba_blocks arr = array_delete_at (nat m) (ba_blocks (tb_array d))"
  defines "t' \<equiv> avl_store B t (d\<lparr>tb_array := arr\<rparr>)"
  shows "id_tree_inv B t' \<and> mset (id_blocks B t) = add_mset (ba_blocks (tb_array d) ! nat m) (mset (id_blocks B t'))"
proof -
  have v: "avl_valid B t" using inv by (simp add: id_tree_inv_def)
  have d: "d \<in> set (avl_walk B t)" "tb_file_id d = k" using avl_find_SomeD [OF ok v f] by auto
  have wfd: "trunks_by_id_wf d" using inv d by (simp add: id_tree_inv_def)
  have wfd': "trunks_by_id_wf (d\<lparr>tb_array := arr\<rparr>)"
    using wfd array_delete_at_wf set_array_delete_at [of "nat m" "ba_blocks (tb_array d)"] arr
    by (auto simp: trunks_by_id_wf_def)
  have f': "avl_find B t (tb_file_id (d\<lparr>tb_array := arr\<rparr>)) = Some d" using f d(2) by simp
  obtain ys zs where w: "avl_walk B t = ys @ d # zs" "avl_walk B t' = ys @ d\<lparr>tb_array := arr\<rparr> # zs"
      "avl_valid B t'"
    using avl_store_split [OF ok v f'] t'_def by blast
  have "id_tree_inv B t'" by (rule id_tree_inv_split [OF inv w(1,3,2) wfd'])
  then show ?thesis
    unfolding id_blocks_split [OF w(1)] id_blocks_split [OF w(2)]
    using mset_array_delete_at [OF m] arr by simp
qed

lemma trunk_free_block_delete_all:
  assumes ok: "id_avl_ok B lt" and inv: "id_tree_inv B t"
    and del: "trunk_free_block_delete B x t tp = (res, t', tp')"
  shows "id_tree_inv B t' \<and> (ext_all_ok tp \<longrightarrow> ext_all_ok tp') \<and>
      ((\<exists>y \<in> set (id_blocks B t). FILL_FILE_IDENTIFIER y = FILL_FILE_IDENTIFIER x \<and> blk_off y = blk_off x \<and>
          mset (id_blocks B t) = add_mset y (mset (id_blocks B t')) \<and> (ext_all_ok tp \<longrightarrow> res = 0))
       \<or> (res = ENOENT \<and> t' = t \<and>
          (\<forall>y \<in> set (id_blocks B t). \<not> (FILL_FILE_IDENTIFIER y = FILL_FILE_IDENTIFIER x \<and> blk_off y = blk_off x))))"
proof (cases "avl_find B t (FILL_FILE_IDENTIFIER x)")
  case None
  with del have "res = ENOENT" "t' = t" "tp' = tp" by (simp_all add: trunk_free_block_delete_def)
  with inv id_blocks_no_entry [OF ok inv None] show ?thesis by auto
next
  case (Some d)
  let ?bs = "ba_blocks (tb_array d)" and ?k = "FILL_FILE_IDENTIFIER x"
  have v: "avl_valid B t" using inv by (simp add: id_tree_inv_def)
  have d: "d \<in> set (avl_walk B t)" using avl_find_SomeD [OF ok v Some] by auto
  then have wf: "blocks_wf ?bs" using inv by (simp add: id_tree_inv_def trunks_by_id_wf_def)
  obtain f m where fm: "find_offset_loop ?bs (blk_off x) 0 (int (length ?bs) - 1) 0 = (f, m)"
    by (metis surj_pair)
  note mem = id_blocks_of_entry [OF ok inv Some]
  define arr1 where "arr1 = (tb_array d)\<lparr>ba_blocks := array_delete_at (nat m) ?bs\<rparr>"
  obtain r2 arr2 tp2 where re: "trunk_free_block_realloc arr1 (ba_alloc (tb_array d) div 2) tp = (r2, arr2, tp2)"
    by (metis prod_cases3)
  obtain t3 r3 where de: "avl_delete B t ?k = (t3, r3)" by (metis surj_pair)
  note unf = del [unfolded trunk_free_block_delete_def Let_def Some option.case fm prod.case
      arr1_def [symmetric] re de]
  show ?thesis
  proof (cases f)
    case False
    with unf have "res = ENOENT" "t' = t" "tp' = tp" by simp_all
    with False inv mem find_offset_array(2) [OF wf fm] show ?thesis by auto
  next
    case True
    note fo = find_offset_array(1) [OF wf fm True]
    then have y: "?bs ! nat m \<in> set (id_blocks B t)" "FILL_FILE_IDENTIFIER (?bs ! nat m) = ?k"
        "blk_off (?bs ! nat m) = blk_off x" "nat m < length ?bs"
      using mem nth_int_in_set [of m ?bs] by auto
    have st: "id_tree_inv B (avl_store B t (d\<lparr>tb_array := arr\<rparr>)) \<and>
        mset (id_blocks B t) = add_mset (?bs ! nat m) (mset (id_blocks B (avl_store B t (d\<lparr>tb_array := arr\<rparr>))))"
      if "ba_blocks arr = ba_blocks arr1" for arr
      by (rule delete_entry_spec [OF ok inv Some y(4)]) (simp add: that arr1_def)
    have re': "ba_blocks arr2 = ba_blocks arr1" "ext_all_ok tp \<Longrightarrow> r2 = 0 \<and> ext_all_ok tp2"
      using realloc_blocks [OF re] realloc_ok [OF _ re] by auto
    obtain ys zs where w: "avl_walk B t = ys @ d # zs" "avl_walk B t3 = ys @ zs" "avl_valid B t3" "r3 = 1"
      using avl_delete_split [OF ok v Some de] by metis
    have emp: "id_tree_inv B t3 \<and> mset (id_blocks B t) = add_mset (?bs ! nat m) (mset (id_blocks B t3))"
      if "array_delete_at (nat m) ?bs = []"
    proof -
      have "mset ?bs = {#?bs ! nat m#}" using mset_array_delete_at [OF y(4)] that by simp
      then show ?thesis using w inv unfolding id_blocks_split [OF w(1)] by (auto simp: id_tree_inv_def id_blocks_def)
    qed
    have res: "id_tree_inv B t' \<and> (ext_all_ok tp \<longrightarrow> ext_all_ok tp' \<and> res = 0) \<and>
        mset (id_blocks B t) = add_mset (?bs ! nat m) (mset (id_blocks B t'))"
      using unf True emp w(4) st [OF refl] st [OF re'(1)] re'(2) by (auto split: if_splits)
    then show ?thesis using y by blast
  qed
qed

text \<open>The blocks of a well-formed index are distinct, and no two overlap.\<close>

lemma blocks_wf_distinct: "blocks_wf bs \<Longrightarrow> distinct bs"
  by (induction bs) (force simp: blocks_wf_def)+

lemma trunks_wf_distinct:
  "distinct (map tb_file_id ds) \<Longrightarrow> \<forall>d \<in> set ds. trunks_by_id_wf d \<Longrightarrow>
   distinct (concat (map (\<lambda>d. ba_blocks (tb_array d)) ds))"
proof (induction ds)
  case (Cons d ds)
  have "FILL_FILE_IDENTIFIER b = tb_file_id d" if "b \<in> set (ba_blocks (tb_array d))" for b
    using that Cons.prems(2) by (simp add: trunks_by_id_wf_def)
  moreover have "FILL_FILE_IDENTIFIER b \<noteq> tb_file_id d" if "d' \<in> set ds" "b \<in> set (ba_blocks (tb_array d'))" for b d'
    using that Cons.prems by (auto simp: trunks_by_id_wf_def image_iff)
  ultimately have "set (ba_blocks (tb_array d)) \<inter> set (concat (map (\<lambda>d. ba_blocks (tb_array d)) ds)) = {}" by fastforce
  moreover have "distinct (ba_blocks (tb_array d))"
    using Cons.prems(2) blocks_wf_distinct by (simp add: trunks_by_id_wf_def)
  ultimately show ?case using Cons by simp
qed simp

lemma id_blocks_distinct:
  assumes "id_avl_ok B lt" "id_tree_inv B t"
  shows "distinct (id_blocks B t)"
  using trunks_wf_distinct [of "avl_walk B t"] avl_distinct_keys [OF assms(1)] assms(2)
  by (simp add: id_blocks_def id_tree_inv_def)

lemma id_blocks_disjoint:
  assumes ok: "id_avl_ok B lt" and inv: "id_tree_inv B t"
    and x: "x \<in> set (id_blocks B t)" and y: "y \<in> set (id_blocks B t)" and ne: "x \<noteq> y"
  shows "\<not> blk_overlap x y"
proof
  assume o: "blk_overlap x y"
  then have id: "FILL_FILE_IDENTIFIER y = FILL_FILE_IDENTIFIER x" by (simp add: blk_overlap_def)
  have v: "avl_valid B t" using inv by (simp add: id_tree_inv_def)
  obtain d where d: "avl_find B t (FILL_FILE_IDENTIFIER x) = Some d"
    using id_blocks_no_entry [OF ok inv _ x] by (cases "avl_find B t (FILL_FILE_IDENTIFIER x)") auto
  let ?bs = "ba_blocks (tb_array d)"
  have "d \<in> set (avl_walk B t)" using avl_find_SomeD [OF ok v d] by simp
  then have wf: "blocks_wf ?bs" using inv by (simp add: id_tree_inv_def trunks_by_id_wf_def)
  have "x \<in> set ?bs" "y \<in> set ?bs" using id_blocks_of_entry [OF ok inv d] x y id by blast+
  then obtain i j where ij: "0 \<le> i" "i < int (length ?bs)" "?bs ! nat i = x" "0 \<le> j" "j < int (length ?bs)" "?bs ! nat j = y"
    unfolding in_set_nth_int by blast
  then have "i \<noteq> j" using ne by auto
  then consider "i < j" | "j < i" by linarith
  then show False
    by cases (use o ij blocks_wf_nth [OF wf, of i j] blocks_wf_nth [OF wf, of j i] in \<open>auto simp: blk_overlap_def\<close>)
qed

section \<open>Properties\<close>

text \<open>
  An order of the identifiers and an index for concrete runs: \<open>memcmp\<close> on the
  identifiers gives some strict total order, and nothing below depends on which.
\<close>

definition ident_lt :: "FDFSTrunkFileIdentifier \<Rightarrow> FDFSTrunkFileIdentifier \<Rightarrow> bool" where
  "ident_lt a b \<longleftrightarrow>
     (let p = ident_path a; q = ident_path b in
      store_path_index p < store_path_index q \<or> store_path_index p = store_path_index q \<and>
      (sub_path_high p < sub_path_high q \<or> sub_path_high p = sub_path_high q \<and>
      (sub_path_low p < sub_path_low q \<or> sub_path_low p = sub_path_low q \<and> ident_id a < ident_id b)))"

abbreviation list_id_avl :: "FDFSTrunksById list id_avl" where
  "list_id_avl \<equiv> list_avl tb_file_id ident_lt"

lemma ident_lt_order: "irreflp ident_lt" "transp ident_lt" "totalp ident_lt"
proof -
  show "irreflp ident_lt" "transp ident_lt" by (auto simp: ident_lt_def Let_def irreflp_def transp_def)
  show "totalp ident_lt"
  proof (rule totalpI)
    fix a b :: FDFSTrunkFileIdentifier assume "a \<noteq> b"
    then have "ident_id a \<noteq> ident_id b \<or> ident_path a \<noteq> ident_path b"
      by (metis FDFSTrunkFileIdentifier.equality old.unit.exhaust)
    moreover have "store_path_index p \<noteq> store_path_index q \<or> sub_path_high p \<noteq> sub_path_high q \<or>
        sub_path_low p \<noteq> sub_path_low q" if "p \<noteq> q" for p q :: FDFSTrunkPathInfo
      using that by (metis FDFSTrunkPathInfo.equality old.unit.exhaust)
    ultimately show "ident_lt a b \<or> ident_lt b a" unfolding ident_lt_def Let_def by force
  qed
qed

lemma list_id_avl_ok: "id_avl_ok list_id_avl ident_lt"
  by (rule list_avl_ok [OF ident_lt_order])

definition sample_block :: "int \<Rightarrow> int \<Rightarrow> int \<Rightarrow> FDFSTrunkFullInfo" where
  "sample_block fid off sz =
     \<lparr>trunk_status = FDFS_TRUNK_STATUS_FREE,
      trunk_path = \<lparr>store_path_index = 0, sub_path_high = 3, sub_path_low = 7\<rparr>,
      trunk_file = \<lparr>trunk_id = fid, trunk_offset = off, trunk_size = sz\<rparr>\<rparr>"

definition sample_index :: "FDFSTrunksById list" where
  "sample_index =
     (let b = sample_block 1 0 512; c = sample_block 1 1024 256 in
      [\<lparr>tb_file_id = FILL_FILE_IDENTIFIER b, tb_array = \<lparr>ba_alloc = 32, ba_blocks = [b, c]\<rparr>\<rparr>])"

lemma sample_index_inv: "id_tree_inv list_id_avl sample_index"
  by (simp add: id_tree_inv_def sample_index_def sample_block_def trunks_by_id_wf_def blocks_wf_def
      FILL_FILE_IDENTIFIER_def Let_def)

lemma sample_index_blocks:
  "id_blocks list_id_avl sample_index = [sample_block 1 0 512, sample_block 1 1024 256]"
  by (simp add: id_blocks_def sample_index_def Let_def)



text \<open>
  C13: \<open>trunk_free_block_insert\<close> of a non-empty block that overlaps no block of the
  index keeps the index well-formed (per trunk file ordered by offset, no two blocks
  overlapping). Result \<open>0\<close> means that exactly this block was added, any other result
  (an allocation failed) that the blocks are the same as before; and when no allocation
  fails the result is \<open>0\<close>.
\<close>

theorem free_block_insert_correct:
  assumes "id_avl_ok B lt" "id_tree_inv B t" "0 < blk_size x"
    and "trunk_free_block_check_duplicate B x t = 0"
    and "trunk_free_block_insert B x t tp = (res, t', tp')"
  shows "id_tree_inv B t' \<and>
    mset (id_blocks B t') = (if res = 0 then add_mset x (mset (id_blocks B t)) else mset (id_blocks B t)) \<and>
    (ext_all_ok tp \<and> avl_total B \<longrightarrow> res = 0)"
proof -
  have "\<forall>b \<in> set (id_blocks B t). \<not> blk_overlap x b"
    using assms(4) unfolding check_duplicate_spec [OF assms(1-3)] by (auto split: if_splits)
  from trunk_free_block_insert_all [OF assms(1-3) this assms(5)] show ?thesis by auto
qed

theorem free_block_insert_correct_witness:
  "mset (id_blocks list_id_avl (fst (snd (trunk_free_block_insert list_id_avl (sample_block 1 512 512) sample_index []))))
     = {#sample_block 1 512 512, sample_block 1 0 512, sample_block 1 1024 256#}"
proof -
  let ?r = "trunk_free_block_insert list_id_avl (sample_block 1 512 512) sample_index []"
  have clear: "trunk_free_block_check_duplicate list_id_avl (sample_block 1 512 512) sample_index = 0"
    by code_simp
  have "0 < blk_size (sample_block 1 512 512)" by (simp add: sample_block_def)
  from free_block_insert_correct [OF list_id_avl_ok sample_index_inv this clear, of "[]" "fst ?r" "fst (snd ?r)" "snd (snd ?r)"]
  show ?thesis by (simp add: list_avl_total sample_index_blocks)
qed

text \<open>
  C14: \<open>trunk_free_block_delete\<close> of a block that the index holds removes exactly that
  block and keeps the index well-formed, whatever the outcome of the attempt to shrink the
  array; deleting what was just inserted gives back the blocks there were.
\<close>

theorem free_block_delete_correct:
  assumes "id_avl_ok B lt" "id_tree_inv B t" "x \<in> set (id_blocks B t)"
    and "trunk_free_block_delete B x t tp = (res, t', tp')"
  shows "id_tree_inv B t' \<and> mset (id_blocks B t) = add_mset x (mset (id_blocks B t')) \<and>
    (ext_all_ok tp \<longrightarrow> res = 0)"
  using trunk_free_block_delete_all [OF assms(1,2,4)] id_blocks_unique [OF assms(1,2) _ assms(3)] assms(3)
  by auto

theorem free_block_delete_correct_witness:
  "mset (id_blocks list_id_avl (fst (snd (trunk_free_block_delete list_id_avl (sample_block 1 1024 256) sample_index []))))
     = {#sample_block 1 0 512#}"
proof -
  let ?r = "trunk_free_block_delete list_id_avl (sample_block 1 1024 256) sample_index []"
  have "sample_block 1 1024 256 \<in> set (id_blocks list_id_avl sample_index)" by (simp add: sample_index_blocks)
  from free_block_delete_correct [OF list_id_avl_ok sample_index_inv this, of "[]" "fst ?r" "fst (snd ?r)" "snd (snd ?r)"]
  show ?thesis by (simp add: sample_index_blocks add_mset_commute)
qed

end
