(* ===== verification/Trunk_Binlog.thy ===== *)
theory Trunk_Binlog
  imports Trunk_Types
begin

text \<open>
  The trunk binlog of \<open>storage/trunk_mgr/trunk_sync.c\<close>: the log of the trunk server in
  which every addition and removal of a free block is a line of text. Modelled are the
  write cache with its flush (\<open>trunk_binlog_fsync_ex\<close>, \<open>trunk_binlog_flush\<close>,
  \<open>trunk_binlog_write\<close>, \<open>trunk_binlog_write_buffer\<close>) and the reader
  (\<open>trunk_binlog_preread\<close>, \<open>trunk_binlog_do_line_read\<close>,
  \<open>trunk_binlog_read_line\<close>, \<open>trunk_binlog_read\<close>). \<open>splitEx\<close> of libfastcommon is
  the parameter \<open>split\<close>; \<open>fc_safe_write\<close>, \<open>fsync\<close> and \<open>fc_safe_read\<close> take
  their outcomes from the list of external outcomes.

  Shown here: a record reads back as it was written, the reader returns the records of the
  file one by one across the refills of its buffer, the log (file and cache together) grows
  by exactly the lines written, and the write cache stays within its buffer.
\<close>

abbreviation (input) TRUNK_BINLOG_BUFFER_SIZE :: int where "TRUNK_BINLOG_BUFFER_SIZE \<equiv> 65536"
abbreviation (input) TRUNK_BINLOG_LINE_SIZE :: int where "TRUNK_BINLOG_LINE_SIZE \<equiv> 128"

abbreviation (input) TRUNK_OP_TYPE_ADD_SPACE :: char where "TRUNK_OP_TYPE_ADD_SPACE \<equiv> CHR ''A''"
abbreviation (input) TRUNK_OP_TYPE_DEL_SPACE :: char where "TRUNK_OP_TYPE_DEL_SPACE \<equiv> CHR ''D''"

section \<open>Definitions: writing\<close>

text \<open>
  \<open>log_file\<close> is the content of the binlog file, \<open>log_cache\<close> the first
  \<open>trunk_binlog_write_cache_len\<close> bytes of the cache, \<open>log_version\<close> is
  \<open>trunk_binlog_write_version\<close>.
\<close>

record trunk_binlog =
  log_file :: string
  log_cache :: string
  log_version :: int

text \<open>
  \<open>fc_safe_write\<close> to the end of the file: whether all bytes were written, \<open>errno\<close>
  otherwise, and the file.
\<close>

definition safe_write :: "string \<Rightarrow> string \<Rightarrow> ext_tape \<Rightarrow> bool \<times> int \<times> string \<times> ext_tape" where
  "safe_write file buff tp =
     (case ext_pop tp of
        (ExtOk, tp') \<Rightarrow> (True, 0, file @ buff, tp')
      | (ExtFail e, tp') \<Rightarrow> (False, e, file, tp')
      | (ExtShort n e, tp') \<Rightarrow> (False, e, file @ take (min n (length buff - 1)) buff, tp'))"

text \<open>The result, the new value of \<open>*length\<close>, and the log.\<close>

definition trunk_binlog_fsync_ex ::
    "string \<Rightarrow> trunk_binlog \<Rightarrow> ext_tape \<Rightarrow> int \<times> nat \<times> trunk_binlog \<times> ext_tape" where
  "trunk_binlog_fsync_ex buff s tp =
     (let (write_ret, file, tp2) =
        (if buff = [] then (0, log_file s, tp)
         else
           (case safe_write (log_file s) buff tp of
              (ok, e, file, tp1) \<Rightarrow>
                if \<not> ok then (errno_or e EIO, file, tp1)
                else (case ext_call EIO tp1 of (r, tp2) \<Rightarrow> (r, file, tp2))))
      in if write_ret = 0
         then (0, 0, s\<lparr>log_file := file, log_version := log_version s + 1\<rparr>, tp2)
         else (write_ret, length buff, s\<lparr>log_file := file\<rparr>, tp2))"

definition trunk_binlog_flush :: "trunk_binlog \<Rightarrow> ext_tape \<Rightarrow> int \<times> trunk_binlog \<times> ext_tape" where
  "trunk_binlog_flush s tp =
     (case trunk_binlog_fsync_ex (log_cache s) s tp of
        (r, len, s', tp') \<Rightarrow> (r, s'\<lparr>log_cache := take len (log_cache s')\<rparr>, tp'))"

text \<open>The line that \<open>sprintf\<close> writes for a record.\<close>

definition trunk_binlog_line :: "int \<Rightarrow> char \<Rightarrow> FDFSTrunkFullInfo \<Rightarrow> string" where
  "trunk_binlog_line timestamp op_type pTrunk =
     fmt_d timestamp @ '' '' @ [op_type] @ '' '' @
     fmt_d (int (store_path_index (trunk_path pTrunk))) @ '' '' @
     fmt_d (int (sub_path_high (trunk_path pTrunk))) @ '' '' @
     fmt_d (int (sub_path_low (trunk_path pTrunk))) @ '' '' @
     fmt_u (trunk_id (trunk_file pTrunk)) @ '' '' @
     fmt_d (trunk_offset (trunk_file pTrunk)) @ '' '' @
     fmt_d (trunk_size (trunk_file pTrunk)) @ [CHR 0x0A]"

definition trunk_binlog_write ::
    "int \<Rightarrow> char \<Rightarrow> FDFSTrunkFullInfo \<Rightarrow> trunk_binlog \<Rightarrow> ext_tape \<Rightarrow> int \<times> trunk_binlog \<times> ext_tape" where
  "trunk_binlog_write timestamp op_type pTrunk s tp =
     (let s1 = s\<lparr>log_cache := log_cache s @ trunk_binlog_line timestamp op_type pTrunk\<rparr>
      in if TRUNK_BINLOG_BUFFER_SIZE - int (length (log_cache s1)) < 128
         then trunk_binlog_flush s1 tp
         else (0, s1, tp))"

definition trunk_binlog_write_buffer ::
    "string \<Rightarrow> trunk_binlog \<Rightarrow> ext_tape \<Rightarrow> int \<times> trunk_binlog \<times> ext_tape" where
  "trunk_binlog_write_buffer buff s tp =
     (let (write_ret, s1, tp1) =
        (if TRUNK_BINLOG_BUFFER_SIZE - (int (length (log_cache s)) + int (length buff)) < 128
         then trunk_binlog_flush s tp else (0, s, tp))
      in if write_ret \<noteq> 0 then (write_ret, s1, tp1)
         else if int (length buff) \<ge> TRUNK_BINLOG_BUFFER_SIZE then
           (let (write_ret, s2, tp2) = (if log_cache s1 \<noteq> [] then trunk_binlog_flush s1 tp1 else (0, s1, tp1))
            in if write_ret \<noteq> 0 then (write_ret, s2, tp2)
               else (case trunk_binlog_fsync_ex buff s2 tp2 of (r, _, s3, tp3) \<Rightarrow> (r, s3, tp3)))
         else (0, s1\<lparr>log_cache := log_cache s1 @ buff\<rparr>, tp1))"

section \<open>Definitions: reading\<close>

text \<open>
  The reader: \<open>rd_buff\<close> are the \<open>binlog_buff.length\<close> bytes from
  \<open>binlog_buff.current\<close> on, \<open>rd_pos\<close> is the position of the file descriptor.
\<close>

record TrunkBinLogReader =
  rd_buff :: string
  rd_version :: int
  rd_pos :: nat
  binlog_offset :: int

record TrunkBinLogRecord =
  rec_timestamp :: int
  rec_op_type :: char
  rec_trunk :: FDFSTrunkFullInfo

text \<open>
  \<open>fc_safe_read\<close> of up to \<open>n\<close> bytes: \<open>Inr\<close> the bytes, \<open>Inl\<close> the \<open>errno\<close> of a
  negative return.
\<close>

definition safe_read :: "string \<Rightarrow> nat \<Rightarrow> nat \<Rightarrow> ext_tape \<Rightarrow> (int + string) \<times> nat \<times> ext_tape" where
  "safe_read file pos n tp =
     (case ext_pop tp of
        (ExtOk, tp') \<Rightarrow> (let bytes = take n (drop pos file) in (Inr bytes, pos + length bytes, tp'))
      | (ExtFail e, tp') \<Rightarrow> (Inl e, pos, tp')
      | (ExtShort k e, tp') \<Rightarrow> (Inl e, pos + length (take (min k n) (drop pos file)), tp'))"

definition trunk_binlog_preread ::
    "string \<Rightarrow> int \<Rightarrow> TrunkBinLogReader \<Rightarrow> ext_tape \<Rightarrow> int \<times> TrunkBinLogReader \<times> ext_tape" where
  "trunk_binlog_preread file write_version pReader tp =
     (if rd_version pReader = write_version \<and> rd_buff pReader = [] then (ENOENT, pReader, tp)
      else if int (length (rd_buff pReader)) = TRUNK_BINLOG_BUFFER_SIZE then (0, pReader, tp)
      else
        (case safe_read file (rd_pos pReader) (nat (TRUNK_BINLOG_BUFFER_SIZE - int (length (rd_buff pReader)))) tp of
           (Inl e, pos, tp') \<Rightarrow> (errno_or e EIO, pReader\<lparr>rd_pos := pos\<rparr>, tp')
         | (Inr bytes, pos, tp') \<Rightarrow>
             if bytes = [] then
               (if rd_buff pReader = [] then ENOENT else 0, pReader\<lparr>rd_version := write_version\<rparr>, tp')
             else (0, pReader\<lparr>rd_buff := rd_buff pReader @ bytes, rd_pos := pos\<rparr>, tp')))"

text \<open>The line with its newline; \<open>*line_length\<close> is its length.\<close>

definition trunk_binlog_do_line_read ::
    "int \<Rightarrow> TrunkBinLogReader \<Rightarrow> (int + string) \<times> TrunkBinLogReader" where
  "trunk_binlog_do_line_read line_size pReader =
     (if rd_buff pReader = [] then (Inl ENOENT, pReader)
      else if CHR 0x0A \<notin> set (rd_buff pReader) then (Inl ENOENT, pReader)
      else
        let line = takeWhile (\<lambda>c. c \<noteq> CHR 0x0A) (rd_buff pReader) @ [CHR 0x0A]
        in if int (length line) \<ge> line_size then (Inl ENOSPC, pReader)
           else (Inr line, pReader\<lparr>rd_buff := drop (length line) (rd_buff pReader)\<rparr>))"

definition trunk_binlog_read_line ::
    "string \<Rightarrow> int \<Rightarrow> int \<Rightarrow> TrunkBinLogReader \<Rightarrow> ext_tape \<Rightarrow> (int + string) \<times> TrunkBinLogReader \<times> ext_tape" where
  "trunk_binlog_read_line file write_version line_size pReader tp =
     (case trunk_binlog_do_line_read line_size pReader of
        (r, pReader1) \<Rightarrow>
          if r \<noteq> Inl ENOENT then (r, pReader1, tp)
          else
            (case trunk_binlog_preread file write_version pReader1 tp of
               (result, pReader2, tp') \<Rightarrow>
                 if result \<noteq> 0 then (Inl result, pReader2, tp')
                 else (case trunk_binlog_do_line_read line_size pReader2 of (r, pReader3) \<Rightarrow> (r, pReader3, tp'))))"

text \<open>The conversion of the columns; the status field of the record is left as it is.\<close>

definition binlog_record_of_cols :: "string list \<Rightarrow> TrunkBinLogRecord \<Rightarrow> TrunkBinLogRecord" where
  "binlog_record_of_cols cols pRecord =
     \<lparr>rec_timestamp = atoi (cols ! 0),
      rec_op_type = (case cols ! 1 of [] \<Rightarrow> CHR 0x00 | c # _ \<Rightarrow> c),
      rec_trunk =
        \<lparr>trunk_status = trunk_status (rec_trunk pRecord),
         trunk_path = \<lparr>store_path_index = to_u8 (atoi (cols ! 2)),
           sub_path_high = to_u8 (atoi (cols ! 3)), sub_path_low = to_u8 (atoi (cols ! 4))\<rparr>,
         trunk_file = \<lparr>trunk_id = atoi (cols ! 5), trunk_offset = atoi (cols ! 6),
           trunk_size = atoi (cols ! 7)\<rparr>\<rparr>\<rparr>"

definition trunk_binlog_read ::
    "split_fun \<Rightarrow> string \<Rightarrow> int \<Rightarrow> TrunkBinLogReader \<Rightarrow> TrunkBinLogRecord \<Rightarrow> ext_tape \<Rightarrow>
     int \<times> TrunkBinLogRecord \<times> int \<times> TrunkBinLogReader \<times> ext_tape" where
  "trunk_binlog_read split file write_version pReader pRecord tp =
     (case trunk_binlog_read_line file write_version TRUNK_BINLOG_LINE_SIZE pReader tp of
        (Inl e, pReader', tp') \<Rightarrow> (e, pRecord, 0, pReader', tp')
      | (Inr line, pReader', tp') \<Rightarrow>
          let cols = split line (CHR '' '') 8 in
          if length cols < 8 then (ENOENT, pRecord, int (length line), pReader', tp')
          else (0, binlog_record_of_cols cols pRecord, int (length line), pReader', tp'))"

section \<open>Records and lines\<close>

text \<open>A record whose fields are in the range of their C types; the id of a trunk file is not negative.\<close>

definition binlog_record_wf :: "TrunkBinLogRecord \<Rightarrow> bool" where
  "binlog_record_wf r \<longleftrightarrow>
     in_i32 (rec_timestamp r) \<and> rec_op_type r \<noteq> CHR '' '' \<and> rec_op_type r \<noteq> CHR 0x0A \<and>
     (let p = trunk_path (rec_trunk r); f = trunk_file (rec_trunk r) in
      store_path_index p < 256 \<and> sub_path_high p < 256 \<and> sub_path_low p < 256 \<and>
      0 \<le> trunk_id f \<and> in_i32 (trunk_id f) \<and> in_i32 (trunk_offset f) \<and> in_i32 (trunk_size f))"

abbreviation binlog_line :: "TrunkBinLogRecord \<Rightarrow> string" where
  "binlog_line r \<equiv> trunk_binlog_line (rec_timestamp r) (rec_op_type r) (rec_trunk r)"

definition binlog_cols :: "TrunkBinLogRecord \<Rightarrow> string list" where
  "binlog_cols r =
     (let p = trunk_path (rec_trunk r); f = trunk_file (rec_trunk r) in
      [fmt_d (rec_timestamp r), [rec_op_type r], fmt_d (int (store_path_index p)), fmt_d (int (sub_path_high p)),
       fmt_d (int (sub_path_low p)), fmt_u (trunk_id f), fmt_d (trunk_offset f), fmt_d (trunk_size f) @ [CHR 0x0A]])"

lemma binlog_line_cols: "binlog_line r = join_cols (CHR '' '') (binlog_cols r)"
  by (simp add: trunk_binlog_line_def binlog_cols_def Let_def)

lemma binlog_split_cols:
  assumes "splitEx_ok split" "binlog_record_wf r"
  shows "split (binlog_line r) (CHR '' '') 8 = binlog_cols r"
proof -
  have "\<forall>c \<in> set (butlast (binlog_cols r)). CHR '' '' \<notin> set c" "binlog_cols r \<noteq> []" "length (binlog_cols r) = 8"
    using assms(2) by (auto simp: binlog_cols_def Let_def binlog_record_wf_def)
  then show ?thesis using splitEx_full [OF assms(1)] unfolding binlog_line_cols by metis
qed

text \<open>A record read back: as written, but for the status, which the line does not carry.\<close>

definition with_status :: "int \<Rightarrow> TrunkBinLogRecord \<Rightarrow> TrunkBinLogRecord" where
  "with_status st r = r\<lparr>rec_trunk := (rec_trunk r)\<lparr>trunk_status := st\<rparr>\<rparr>"

lemma binlog_record_of_binlog_cols:
  assumes "binlog_record_wf r"
  shows "binlog_record_of_cols (binlog_cols r) r0 = with_status (trunk_status (rec_trunk r0)) r"
  using assms
  by (simp add: binlog_record_of_cols_def binlog_cols_def with_status_def binlog_record_wf_def Let_def
      atoi_fmt_d atoi_fmt_u_Nil in_i32_def numeral_nat nth_Cons')

lemma binlog_line_newline:
  assumes "binlog_record_wf r"
  obtains body where "binlog_line r = body @ [CHR 0x0A]" "CHR 0x0A \<notin> set body" "length body < 127"
proof -
  let ?body = "butlast (binlog_line r)"
  let ?p = "trunk_path (rec_trunk r)" and ?f = "trunk_file (rec_trunk r)"
  have "binlog_line r = ?body @ [CHR 0x0A]" by (simp add: trunk_binlog_line_def butlast_append)
  moreover have "CHR 0x0A \<notin> set ?body"
    using assms by (auto simp: trunk_binlog_line_def butlast_append binlog_record_wf_def Let_def)
  moreover have "length ?body < 127"
    using assms fmt_d_length [of "rec_timestamp r"] fmt_d_length_u8 [of "store_path_index ?p"]
      fmt_d_length_u8 [of "sub_path_high ?p"] fmt_d_length_u8 [of "sub_path_low ?p"]
      fmt_u_length [of "trunk_id ?f"] fmt_d_length [of "trunk_offset ?f"] fmt_d_length [of "trunk_size ?f"]
    by (simp add: trunk_binlog_line_def binlog_record_wf_def Let_def)
  ultimately show thesis by (rule that)
qed

lemma binlog_codec:
  assumes "splitEx_ok split"
  shows "codec binlog_line (\<lambda>l. binlog_record_of_cols (split l (CHR '' '') 8) r0)
           (with_status (trunk_status (rec_trunk r0))) binlog_record_wf"
  by unfold_locales (simp add: binlog_split_cols [OF assms] binlog_record_of_binlog_cols)

section \<open>The reader\<close>

text \<open>
  What is still to be read: the buffer and then the rest of the file. A reader that has
  the version of the writer is at the end of the file.
\<close>

definition reader_pending :: "string \<Rightarrow> TrunkBinLogReader \<Rightarrow> string" where
  "reader_pending file r = rd_buff r @ drop (rd_pos r) file"

definition reader_inv :: "string \<Rightarrow> int \<Rightarrow> TrunkBinLogReader \<Rightarrow> bool" where
  "reader_inv file ver r \<longleftrightarrow>
     int (length (rd_buff r)) \<le> TRUNK_BINLOG_BUFFER_SIZE \<and> (rd_version r = ver \<longrightarrow> length file \<le> rd_pos r)"

lemma do_line_read_hit:
  assumes "rd_buff r = body @ [CHR 0x0A] @ rest" "CHR 0x0A \<notin> set body" "length body < 127"
  shows "trunk_binlog_do_line_read TRUNK_BINLOG_LINE_SIZE r
           = (Inr (body @ [CHR 0x0A]), r\<lparr>rd_buff := rest\<rparr>)"
proof -
  have "takeWhile (\<lambda>c. c \<noteq> CHR 0x0A) (rd_buff r) = body"
    using assms(1,2) by (auto simp: takeWhile_append)
  with assms show ?thesis by (simp add: trunk_binlog_do_line_read_def Let_def)
qed

lemma do_line_read_miss:
  "CHR 0x0A \<notin> set (rd_buff r) \<Longrightarrow> trunk_binlog_do_line_read n r = (Inl ENOENT, r)"
  by (simp add: trunk_binlog_do_line_read_def)

lemma preread_fill:
  assumes inv: "reader_inv file ver r" and ok: "ext_all_ok tp"
    and short: "int (length (rd_buff r)) < TRUNK_BINLOG_BUFFER_SIZE" and ne: "rd_pos r < length file"
  obtains tp' bs where "ext_all_ok tp'" "bs = take (65536 - length (rd_buff r)) (drop (rd_pos r) file)"
    "trunk_binlog_preread file ver r tp
       = (0, r\<lparr>rd_buff := rd_buff r @ bs, rd_pos := rd_pos r + length bs\<rparr>, tp')"
proof -
  obtain tp' where tp': "ext_pop tp = (ExtOk, tp')" "ext_all_ok tp'" using ext_pop_ok [OF ok] by blast
  have n: "nat (65536 - int (length (rd_buff r))) = 65536 - length (rd_buff r)" by simp
  have ver: "rd_version r \<noteq> ver" using inv ne by (auto simp: reader_inv_def)
  have "trunk_binlog_preread file ver r tp = (0, r\<lparr>rd_buff := rd_buff r @ take (65536 - length (rd_buff r)) (drop (rd_pos r) file),
      rd_pos := rd_pos r + length (take (65536 - length (rd_buff r)) (drop (rd_pos r) file))\<rparr>, tp')"
    using short ne ver unfolding trunk_binlog_preread_def safe_read_def tp' n Let_def by simp
  with tp' that show thesis by blast
qed

lemma read_line_next:
  assumes inv: "reader_inv file ver r" and ok: "ext_all_ok tp"
    and pend: "reader_pending file r = body @ [CHR 0x0A] @ rest"
    and body: "CHR 0x0A \<notin> set body" "length body < 127"
  shows "\<exists>r' tp'. trunk_binlog_read_line file ver TRUNK_BINLOG_LINE_SIZE r tp = (Inr (body @ [CHR 0x0A]), r', tp') \<and>
    reader_inv file ver r' \<and> reader_pending file r' = rest \<and> ext_all_ok tp'"
proof (cases "CHR 0x0A \<in> set (rd_buff r)")
  case True
  then obtain b1 b2 where b: "rd_buff r = b1 @ CHR 0x0A # b2" "CHR 0x0A \<notin> set b1"
    by (meson split_list_first)
  then have "b1 = body \<and> b2 @ drop (rd_pos r) file = rest"
    using pend body(1) first_occurrence_unique [of "CHR 0x0A" b1 body "b2 @ drop (rd_pos r) file" rest]
    by (simp add: reader_pending_def)
  then show ?thesis
    using b do_line_read_hit [of r body b2] body inv ok
    by (auto simp: trunk_binlog_read_line_def reader_inv_def reader_pending_def)
next
  case False
  note miss = do_line_read_miss [OF False]
  obtain x where x: "body @ [CHR 0x0A] = rd_buff r @ x" "drop (rd_pos r) file = x @ rest" "x \<noteq> []"
  proof -
    have "rd_buff r @ drop (rd_pos r) file = (body @ [CHR 0x0A]) @ rest"
      using pend by (simp add: reader_pending_def)
    then obtain us where "rd_buff r = (body @ [CHR 0x0A]) @ us \<or>
        rd_buff r @ us = body @ [CHR 0x0A] \<and> drop (rd_pos r) file = us @ rest"
      by (subst (asm) append_eq_append_conv2) blast
    with False have "rd_buff r @ us = body @ [CHR 0x0A]" "drop (rd_pos r) file = us @ rest" "us \<noteq> []" by auto
    then show thesis by (intro that) simp_all
  qed
  have len: "length (rd_buff r) + length x = Suc (length body)" using arg_cong [OF x(1), of length] by simp
  have ne: "rd_pos r < length file" using x(2,3) by (cases "rd_pos r < length file") auto
  have short: "int (length (rd_buff r)) < TRUNK_BINLOG_BUFFER_SIZE" using len body(2) by simp
  obtain tp' bs where pr: "ext_all_ok tp'" "bs = take (65536 - length (rd_buff r)) (drop (rd_pos r) file)"
      "trunk_binlog_preread file ver r tp
         = (0, r\<lparr>rd_buff := rd_buff r @ bs, rd_pos := rd_pos r + length bs\<rparr>, tp')" (is "_ = (_, ?r1, _)")
    by (rule preread_fill [OF inv ok short ne])
  let ?rest1 = "take (65536 - length (rd_buff r) - length x) rest"
  have bs: "bs = x @ ?rest1" using pr(2) x(2) len body(2) by simp
  have "rd_buff ?r1 = (rd_buff r @ x) @ ?rest1" using bs by simp
  then have buff1: "rd_buff ?r1 = body @ [CHR 0x0A] @ ?rest1" unfolding x(1) [symmetric] by simp
  have "drop (rd_pos r + length bs) file = drop (length bs) (x @ rest)"
    using x(2) by (metis add.commute drop_drop)
  then have pend': "?rest1 @ drop (rd_pos r + length bs) file = rest"
    unfolding bs by (simp del: length_take)
  have inv': "reader_inv file ver (?r1\<lparr>rd_buff := ?rest1\<rparr>)"
    using inv ne by (auto simp: reader_inv_def min_def)
  show ?thesis
    using miss pr(1,3) do_line_read_hit [OF buff1 body] inv' pend'
    by (simp add: trunk_binlog_read_line_def reader_pending_def)
qed

lemma read_line_end:
  assumes "reader_inv file ver r" "ext_all_ok tp" "reader_pending file r = []"
  shows "\<exists>r' tp'. trunk_binlog_read_line file ver n r tp = (Inl ENOENT, r', tp') \<and>
    reader_inv file ver r' \<and> reader_pending file r' = [] \<and> rd_version r' = ver \<and> ext_all_ok tp'"
proof -
  have r: "rd_buff r = []" "length file \<le> rd_pos r" using assms(3) by (auto simp: reader_pending_def)
  obtain tp' where tp': "ext_pop tp = (ExtOk, tp')" "ext_all_ok tp'" using ext_pop_ok [OF assms(2)] by blast
  show ?thesis
    using r tp' assms by (cases "rd_version r = ver")
      (auto simp: trunk_binlog_read_line_def trunk_binlog_do_line_read_def trunk_binlog_preread_def
        safe_read_def reader_inv_def reader_pending_def)
qed

lemma read_next:
  assumes "splitEx_ok split" "reader_inv file ver r" "ext_all_ok tp" "binlog_record_wf x"
    and pend: "reader_pending file r = binlog_line x @ rest"
  shows "\<exists>r' tp'. trunk_binlog_read split file ver r rec0 tp =
      (0, with_status (trunk_status (rec_trunk rec0)) x, int (length (binlog_line x)), r', tp') \<and>
    reader_inv file ver r' \<and> reader_pending file r' = rest \<and> ext_all_ok tp'"
proof -
  obtain body where b: "binlog_line x = body @ [CHR 0x0A]" "CHR 0x0A \<notin> set body" "length body < 127"
    using binlog_line_newline [OF assms(4)] by blast
  obtain r' tp' where r: "trunk_binlog_read_line file ver TRUNK_BINLOG_LINE_SIZE r tp = (Inr (binlog_line x), r', tp')"
      "reader_inv file ver r'" "reader_pending file r' = rest" "ext_all_ok tp'"
    using read_line_next [OF assms(2,3) _ b(2,3), of rest] pend b(1) by auto
  have "length (binlog_cols x) = 8" by (simp add: binlog_cols_def Let_def)
  with r show ?thesis
    by (simp add: trunk_binlog_read_def binlog_split_cols [OF assms(1,4)]
        binlog_record_of_binlog_cols [OF assms(4)] Let_def)
qed

text \<open>\<open>n\<close> calls of \<open>trunk_binlog_read\<close>, up to the first that fails: the records and the reader.\<close>

primrec binlog_read_n ::
    "split_fun \<Rightarrow> string \<Rightarrow> int \<Rightarrow> nat \<Rightarrow> TrunkBinLogReader \<Rightarrow> TrunkBinLogRecord \<Rightarrow> ext_tape \<Rightarrow>
     TrunkBinLogRecord list \<times> TrunkBinLogReader \<times> ext_tape" where
  "binlog_read_n split file ver 0 r rec0 tp = ([], r, tp)"
| "binlog_read_n split file ver (Suc n) r rec0 tp =
     (case trunk_binlog_read split file ver r rec0 tp of
        (result, rec, len, r', tp') \<Rightarrow>
          if result \<noteq> 0 then ([], r', tp')
          else (case binlog_read_n split file ver n r' rec tp' of (recs, r'', tp'') \<Rightarrow> (rec # recs, r'', tp'')))"

lemma trunk_status_with_status [simp]: "trunk_status (rec_trunk (with_status st r)) = st"
  by (simp add: with_status_def)

lemma read_n_all:
  assumes sp: "splitEx_ok split" and "reader_inv file ver r" "ext_all_ok tp" "\<forall>x \<in> set xs. binlog_record_wf x"
    and "reader_pending file r = concat (map binlog_line xs) @ rest"
  shows "\<exists>r' tp'. binlog_read_n split file ver (length xs) r rec0 tp =
      (map (with_status (trunk_status (rec_trunk rec0))) xs, r', tp') \<and>
    reader_inv file ver r' \<and> reader_pending file r' = rest \<and> ext_all_ok tp'"
  using assms(2-)
proof (induction xs arbitrary: r tp rec0)
  case Nil
  then show ?case by simp
next
  case (Cons x xs)
  obtain r' tp' where r: "trunk_binlog_read split file ver r rec0 tp =
        (0, with_status (trunk_status (rec_trunk rec0)) x, int (length (binlog_line x)), r', tp')"
      "reader_inv file ver r'" "reader_pending file r' = concat (map binlog_line xs) @ rest" "ext_all_ok tp'"
    using read_next [OF sp Cons.prems(1,2), of x "concat (map binlog_line xs) @ rest" rec0] Cons.prems(3,4) by auto
  with Cons.IH [OF r(2,4) _ r(3), of "with_status (trunk_status (rec_trunk rec0)) x"] Cons.prems(3)
  show ?case by auto
qed

section \<open>The write cache\<close>

definition log_text :: "trunk_binlog \<Rightarrow> string" where
  "log_text s = log_file s @ log_cache s"

lemma fsync_ex_zero:
  assumes "trunk_binlog_fsync_ex buff s tp = (0, len, s', tp')"
  shows "len = 0" "log_file s' = log_file s @ buff" "log_cache s' = log_cache s"
  using assms by (auto simp: trunk_binlog_fsync_ex_def safe_write_def split: prod.splits if_splits ext_res.splits)

lemma fsync_ex_nonzero:
  assumes "trunk_binlog_fsync_ex buff s tp = (r, len, s', tp')" "r \<noteq> 0"
  shows "len = length buff" "log_cache s' = log_cache s" "\<exists>k. log_file s' = log_file s @ take k buff"
proof -
  show "len = length buff" "log_cache s' = log_cache s"
    using assms by (auto simp: trunk_binlog_fsync_ex_def Let_def split: prod.splits if_splits)
  have "\<exists>k. fl = log_file s @ take k buff" if "safe_write (log_file s) buff tp = (ok, e, fl, tp1)" for ok e fl tp1
    using that by (auto simp: safe_write_def intro: exI [of _ 0] exI [of _ "length buff"] split: prod.splits ext_res.splits)
  moreover have "\<exists>k. log_file s = log_file s @ take k buff" by (intro exI [of _ 0]) simp
  ultimately show "\<exists>k. log_file s' = log_file s @ take k buff"
    using assms by (auto simp: trunk_binlog_fsync_ex_def Let_def split: prod.splits if_splits)
qed

lemma fsync_ex_ok:
  assumes "ext_all_ok tp"
  shows "\<exists>s' tp'. trunk_binlog_fsync_ex buff s tp = (0, 0, s', tp') \<and> ext_all_ok tp'"
proof (cases "buff = []")
  case False
  obtain tp1 where tp1: "ext_pop tp = (ExtOk, tp1)" "ext_all_ok tp1" using ext_pop_ok [OF assms] by blast
  obtain tp2 where tp2: "ext_call EIO tp1 = (0, tp2)" "ext_all_ok tp2" using ext_call_ok [OF tp1(2)] by blast
  show ?thesis using False tp1 tp2 by (simp add: trunk_binlog_fsync_ex_def safe_write_def)
qed (use assms in \<open>simp add: trunk_binlog_fsync_ex_def\<close>)

lemma flush_zero:
  assumes "trunk_binlog_flush s tp = (0, s', tp')"
  shows "log_file s' = log_text s" "log_cache s' = []"
proof -
  obtain len s1 tp1 where 1: "trunk_binlog_fsync_ex (log_cache s) s tp = (0, len, s1, tp1)"
      "s' = s1\<lparr>log_cache := take len (log_cache s1)\<rparr>"
    using assms by (auto simp: trunk_binlog_flush_def split: prod.splits)
  from fsync_ex_zero [OF 1(1)] 1(2)
  show "log_file s' = log_text s" "log_cache s' = []" by (simp_all add: log_text_def)
qed

lemma flush_nonzero:
  assumes "trunk_binlog_flush s tp = (r, s', tp')" "r \<noteq> 0"
  shows "log_cache s' = log_cache s" "\<exists>k. log_file s' = log_file s @ take k (log_cache s)"
proof -
  obtain len s1 tp1 where 1: "trunk_binlog_fsync_ex (log_cache s) s tp = (r, len, s1, tp1)"
      "s' = s1\<lparr>log_cache := take len (log_cache s1)\<rparr>"
    using assms(1) by (auto simp: trunk_binlog_flush_def split: prod.splits)
  from fsync_ex_nonzero [OF 1(1) assms(2)] 1(2)
  show "log_cache s' = log_cache s" "\<exists>k. log_file s' = log_file s @ take k (log_cache s)" by simp_all
qed

lemma flush_ok: "ext_all_ok tp \<Longrightarrow> \<exists>s' tp'. trunk_binlog_flush s tp = (0, s', tp') \<and> ext_all_ok tp'"
  using fsync_ex_ok [of tp "log_cache s" s] by (auto simp: trunk_binlog_flush_def)

lemma binlog_write_zero:
  assumes "trunk_binlog_write ts op b s tp = (0, s', tp')"
  shows "log_text s' = log_text s @ trunk_binlog_line ts op b"
  using assms flush_zero [of "s\<lparr>log_cache := log_cache s @ trunk_binlog_line ts op b\<rparr>" tp]
  by (auto simp: trunk_binlog_write_def log_text_def Let_def split: if_splits)

lemma binlog_write_ok:
  "ext_all_ok tp \<Longrightarrow> \<exists>s' tp'. trunk_binlog_write ts op b s tp = (0, s', tp') \<and> ext_all_ok tp'"
  using flush_ok [of tp] by (auto simp: trunk_binlog_write_def Let_def)

lemma binlog_write_buffer_zero:
  assumes "trunk_binlog_write_buffer buff s tp = (0, s', tp')"
  shows "log_text s' = log_text s @ buff"
proof -
  let ?full = "TRUNK_BINLOG_BUFFER_SIZE - (int (length (log_cache s)) + int (length buff)) < 128"
  obtain w1 s1 tp1 where 1: "(if ?full then trunk_binlog_flush s tp else (0, s, tp)) = (w1, s1, tp1)"
    by (metis prod_cases3)
  obtain w2 s2 tp2 where 2: "(if log_cache s1 \<noteq> [] then trunk_binlog_flush s1 tp1 else (0, s1, tp1)) = (w2, s2, tp2)"
    by (metis prod_cases3)
  obtain w3 n3 s3 tp3 where 3: "trunk_binlog_fsync_ex buff s2 tp2 = (w3, n3, s3, tp3)" by (metis prod_cases4)
  note unf = assms [unfolded trunk_binlog_write_buffer_def Let_def 1 prod.case 2 3]
  have t1: "w1 = 0 \<Longrightarrow> log_text s1 = log_text s"
    using 1 flush_zero [of s tp] by (auto simp: log_text_def split: if_splits)
  have t2: "w2 = 0 \<Longrightarrow> log_text s2 = log_text s1 \<and> log_cache s2 = []"
    using 2 flush_zero [of s1 tp1] by (auto simp: log_text_def split: if_splits)
  have t3: "w3 = 0 \<Longrightarrow> log_file s3 = log_file s2 @ buff \<and> log_cache s3 = log_cache s2"
    using 3 fsync_ex_zero by blast
  show ?thesis using unf t1 t2 t3 by (auto simp: log_text_def split: if_splits)
qed

interpretation binlog_line_codec: codec binlog_line
  "\<lambda>l. binlog_record_of_cols (split_cols l (CHR '' '') 8) r0"
  "with_status (trunk_status (rec_trunk r0))" binlog_record_wf for r0
  by (rule binlog_codec [OF split_cols_ok])

section \<open>Properties\<close>

definition sample_record :: "char \<Rightarrow> int \<Rightarrow> int \<Rightarrow> TrunkBinLogRecord" where
  "sample_record op off sz =
     \<lparr>rec_timestamp = 1700000000, rec_op_type = op,
      rec_trunk = \<lparr>trunk_status = 0, trunk_path = \<lparr>store_path_index = 0, sub_path_high = 1, sub_path_low = 255\<rparr>,
        trunk_file = \<lparr>trunk_id = 12, trunk_offset = off, trunk_size = sz\<rparr>\<rparr>\<rparr>"

text \<open>
  C15: the trunk binlog reads back as it was written. A reader that is opened at any line
  boundary of the binlog file returns, call by call of \<open>trunk_binlog_read\<close>, exactly the
  records whose lines follow, in order and with every field as it was written (the status
  is not part of a line), however often its buffer has to be refilled; after the last one
  the next call returns \<open>ENOENT\<close>.
\<close>

theorem trunk_binlog_reads_back:
  assumes "splitEx_ok split" "ext_all_ok tp" "\<forall>x \<in> set xs. binlog_record_wf x"
    and "file = pre @ concat (map binlog_line xs)" "ver \<noteq> 0"
  shows "\<exists>r tp'. binlog_read_n split file ver (length xs)
        \<lparr>rd_buff = [], rd_version = 0, rd_pos = length pre, binlog_offset = int (length pre)\<rparr> rec0 tp
      = (map (with_status (trunk_status (rec_trunk rec0))) xs, r, tp') \<and>
    fst (trunk_binlog_read split file ver r rec1 tp') = ENOENT"
proof -
  let ?r = "\<lparr>rd_buff = [], rd_version = 0, rd_pos = length pre, binlog_offset = int (length pre)\<rparr>"
  have "reader_inv file ver ?r" "reader_pending file ?r = concat (map binlog_line xs) @ []"
    using assms(4,5) by (simp_all add: reader_inv_def reader_pending_def)
  from read_n_all [OF assms(1) this(1) assms(2,3) this(2), of rec0]
  obtain r tp' where r: "binlog_read_n split file ver (length xs) ?r rec0 tp
        = (map (with_status (trunk_status (rec_trunk rec0))) xs, r, tp')"
      "reader_inv file ver r" "reader_pending file r = []" "ext_all_ok tp'" by auto
  have "fst (trunk_binlog_read split file ver r rec1 tp') = ENOENT"
    using read_line_end [OF r(2,4,3), of TRUNK_BINLOG_LINE_SIZE] by (auto simp: trunk_binlog_read_def)
  with r(1) show ?thesis by blast
qed

theorem trunk_binlog_reads_back_witness:
  "\<exists>r tp'. binlog_read_n split_cols
        (concat (map binlog_line [sample_record CHR ''A'' 0 4096, sample_record CHR ''D'' 1024 512])) 1 2
        \<lparr>rd_buff = [], rd_version = 0, rd_pos = 0, binlog_offset = 0\<rparr> (sample_record CHR ''A'' 0 0) []
      = ([sample_record CHR ''A'' 0 4096, sample_record CHR ''D'' 1024 512], r, tp')"
proof -
  let ?xs = "[sample_record CHR ''A'' 0 4096, sample_record CHR ''D'' 1024 512]"
  have "\<forall>x \<in> set ?xs. binlog_record_wf x" by (simp add: sample_record_def binlog_record_wf_def in_i32_def)
  moreover have "with_status 0 (sample_record op off sz) = sample_record op off sz" for op off sz
    by (simp add: sample_record_def with_status_def)
  moreover have "trunk_status (rec_trunk (sample_record CHR ''A'' 0 0)) = 0" by (simp add: sample_record_def)
  moreover have "length ?xs = 2" by simp
  ultimately show ?thesis
    using trunk_binlog_reads_back [OF split_cols_ok, of "[]" ?xs "concat (map binlog_line ?xs)" "[]" 1 "sample_record CHR ''A'' 0 0"]
    by (simp del: length_Cons list.size(4) binlog_read_n.simps) blast
qed

text \<open>
  C16: \<open>trunk_binlog_write\<close> writes within its buffer and loses nothing. When the cache has
  its usual room (at most the buffer size less 128 bytes), \<open>sprintf\<close> with its NUL ends
  inside the 64 KB buffer, for every record of valid fields. Result \<open>0\<close> means that the
  log, that is the file followed by the cache, has grown by exactly the record's line, and
  that the cache has its room again; and the result is \<open>0\<close> when no write fails.
\<close>

theorem trunk_binlog_write_bounded:
  assumes "binlog_record_wf r" "int (length (log_cache s)) \<le> TRUNK_BINLOG_BUFFER_SIZE - 128"
    and "trunk_binlog_write (rec_timestamp r) (rec_op_type r) (rec_trunk r) s tp = (res, s', tp')"
  shows "int (length (log_cache s)) + int (length (binlog_line r)) + 1 \<le> TRUNK_BINLOG_BUFFER_SIZE \<and>
    (res = 0 \<longrightarrow> log_text s' = log_text s @ binlog_line r \<and>
      int (length (log_cache s')) \<le> TRUNK_BINLOG_BUFFER_SIZE - 128) \<and>
    (ext_all_ok tp \<longrightarrow> res = 0)"
proof -
  obtain body where b: "binlog_line r = body @ [CHR 0x0A]" "length body < 127"
    using binlog_line_newline [OF assms(1)] by blast
  have "int (length (log_cache s')) \<le> TRUNK_BINLOG_BUFFER_SIZE - 128" if "res = 0"
  proof -
    let ?s1 = "s\<lparr>log_cache := log_cache s @ binlog_line r\<rparr>"
    have "trunk_binlog_flush ?s1 tp = (0, s', tp') \<or>
        s' = ?s1 \<and> \<not> TRUNK_BINLOG_BUFFER_SIZE - int (length (log_cache ?s1)) < 128"
      using assms(3) that by (auto simp: trunk_binlog_write_def Let_def split: if_splits)
    then consider "trunk_binlog_flush ?s1 tp = (0, s', tp')"
      | "s' = ?s1" "\<not> TRUNK_BINLOG_BUFFER_SIZE - int (length (log_cache ?s1)) < 128" by blast
    then show ?thesis by cases (use flush_zero [of ?s1 tp s' tp'] in simp_all)
  qed
  moreover have "ext_all_ok tp \<Longrightarrow> res = 0" using binlog_write_ok assms(3) by (metis fst_conv)
  ultimately show ?thesis using b assms(2,3) binlog_write_zero by auto
qed

theorem trunk_binlog_write_bounded_witness:
  "log_text (fst (snd (trunk_binlog_write 1700000000 CHR ''A'' (rec_trunk (sample_record CHR ''A'' 0 4096))
      \<lparr>log_file = ''x'', log_cache = ''y'', log_version = 1\<rparr> []))) = ''xy'' @ binlog_line (sample_record CHR ''A'' 0 4096)"
proof -
  let ?r = "sample_record CHR ''A'' 0 4096" and ?s = "\<lparr>log_file = ''x'', log_cache = ''y'', log_version = 1\<rparr>"
  let ?w = "trunk_binlog_write (rec_timestamp ?r) (rec_op_type ?r) (rec_trunk ?r) ?s []"
  have "binlog_record_wf ?r" by (simp add: sample_record_def binlog_record_wf_def in_i32_def)
  from trunk_binlog_write_bounded [OF this, of ?s "[]" "fst ?w" "fst (snd ?w)" "snd (snd ?w)"]
  show ?thesis by (simp add: log_text_def) (simp add: sample_record_def)
qed

lemma binlog_write_fail:
  assumes "int (length (log_cache s)) + int (length (trunk_binlog_line ts op b)) > TRUNK_BINLOG_BUFFER_SIZE - 128"
  shows "trunk_binlog_write ts op b s (ExtFail EIO # tp)
           = (EIO, s\<lparr>log_cache := log_cache s @ trunk_binlog_line ts op b\<rparr>, tp)"
proof -
  have "trunk_binlog_line ts op b \<noteq> []" by (simp add: trunk_binlog_line_def)
  with assms show ?thesis
    by (simp add: trunk_binlog_write_def trunk_binlog_flush_def trunk_binlog_fsync_ex_def safe_write_def
        errno_or_def Let_def)
qed

text \<open>
  C17: the room of the cache is lost when the flush fails. \<open>trunk_binlog_write\<close> appends the
  line before it flushes and keeps it when the flush fails, and nothing refuses the next
  write: from every state whose cache has grown past the flush mark, \<open>n\<close> writes of a
  record while the disk returns errors leave a cache length of \<open>n\<close> lines more, so that
  enough of them pass the end of the 64 KB buffer.
\<close>

theorem trunk_binlog_failed_flush_grows:
  assumes "int (length (log_cache s)) > TRUNK_BINLOG_BUFFER_SIZE - 128"
  shows "length (log_cache (fst (((\<lambda>(s, tp). case trunk_binlog_write ts op b s tp of (r, s', tp') \<Rightarrow> (s', tp')) ^^ n)
           (s, replicate n (ExtFail EIO)))))
         = length (log_cache s) + n * length (trunk_binlog_line ts op b)"
  using assms
proof (induction n arbitrary: s)
  case (Suc n)
  let ?f = "\<lambda>(s, tp). case trunk_binlog_write ts op b s tp of (r, s', tp') \<Rightarrow> (s', tp')"
  let ?s1 = "s\<lparr>log_cache := log_cache s @ trunk_binlog_line ts op b\<rparr>"
  have "?f (s, replicate (Suc n) (ExtFail EIO)) = (?s1, replicate n (ExtFail EIO))"
    using binlog_write_fail [of s ts op b "replicate n (ExtFail EIO)"] Suc.prems by simp
  then have "(?f ^^ Suc n) (s, replicate (Suc n) (ExtFail EIO)) = (?f ^^ n) (?s1, replicate n (ExtFail EIO))"
    by (simp only: funpow_Suc_right o_apply)
  with Suc.IH [of ?s1] Suc.prems show ?case by simp
qed simp

theorem trunk_binlog_failed_flush_grows_witness:
  "length (log_cache (fst (((\<lambda>(s, tp). case trunk_binlog_write 1700000000 CHR ''A'' (rec_trunk (sample_record CHR ''A'' 0 4096)) s tp of
         (r, s', tp') \<Rightarrow> (s', tp')) ^^ 15)
       (\<lparr>log_file = [], log_cache = replicate 65409 CHR ''x'', log_version = 1\<rparr>, replicate 15 (ExtFail EIO))))) > 65536"
proof -
  define c where "c = replicate 65409 CHR ''x''"
  have c: "length c = 65409" by (simp only: c_def length_replicate)
  let ?s = "\<lparr>log_file = [], log_cache = c, log_version = 1\<rparr>"
  have "length (trunk_binlog_line 1700000000 CHR ''A'' (rec_trunk (sample_record CHR ''A'' 0 4096))) \<ge> 9"
    by (simp add: trunk_binlog_line_def)
  with trunk_binlog_failed_flush_grows [where s = ?s and ts = 1700000000 and op = "CHR ''A''" and
      b = "rec_trunk (sample_record CHR ''A'' 0 4096)" and n = 15] c
  show ?thesis unfolding c_def [symmetric] by simp
qed

end
