(* ===== verification/Shared_Func.thy ===== *)
theory Shared_Func
  imports Complex_Main Fdfs_Prelude
begin

text \<open>
  \<open>tracker/fdfs_shared_func.c\<close>: server addresses (a server has one or two addresses, an
  inner and an outer one) and the rules on reserved disk space.

  Parameters for libfastcommon: \<open>eq\<close> is the macro \<open>FC_CONNECTION_SERVER_EQUAL\<close>,
  \<open>split\<close> is \<open>splitEx\<close>, \<open>resolve_host\<close> is \<open>getIpaddrByName\<close> (\<open>None\<close> for
  \<open>INADDR_NONE\<close>), \<open>ip_size\<close> is \<open>IP_ADDRESS_SIZE\<close>. A ratio (a C \<open>double\<close>)
  is a rational number: rounding of the quotient is not modelled.

  Shown here: comparison of servers is comparison of their sets of addresses, the leader
  index is the first matching server, an address list reads back from its text, the
  formatted pair of addresses has the inner address first.
\<close>

section \<open>Server addresses\<close>

record ConnectionInfo =
  ip_addr :: string
  conn_port :: int
  conn_sock :: int

text \<open>\<open>count\<close> is the length of \<open>connections\<close>.\<close>

record TrackerServerInfo =
  connections :: "ConnectionInfo list"
  server_index :: int

type_synonym conn_eq = "ConnectionInfo \<Rightarrow> string \<Rightarrow> int \<Rightarrow> bool"

definition conn_eq_ok :: "conn_eq \<Rightarrow> bool" where
  "conn_eq_ok eq \<longleftrightarrow> (\<forall>c ip port. eq c ip port \<longleftrightarrow> ip_addr c = ip \<and> conn_port c = port)"

fun contain_loop :: "conn_eq \<Rightarrow> ConnectionInfo list \<Rightarrow> string \<Rightarrow> int \<Rightarrow> bool" where
  "contain_loop eq [] target_ip target_port = False"
| "contain_loop eq (conn # cs) target_ip target_port =
     (if eq conn target_ip target_port then True else contain_loop eq cs target_ip target_port)"

definition fdfs_server_contain :: "conn_eq \<Rightarrow> TrackerServerInfo \<Rightarrow> string \<Rightarrow> int \<Rightarrow> bool" where
  "fdfs_server_contain eq pServerInfo target_ip target_port =
     (let cs = connections pServerInfo in
      if length cs = 1 then eq (cs ! 0) target_ip target_port
      else if length cs = 2 then eq (cs ! 0) target_ip target_port \<or> eq (cs ! 1) target_ip target_port
      else contain_loop eq cs target_ip target_port)"

definition fdfs_server_contain1 :: "conn_eq \<Rightarrow> TrackerServerInfo \<Rightarrow> ConnectionInfo \<Rightarrow> bool" where
  "fdfs_server_contain1 eq pServerInfo target = fdfs_server_contain eq pServerInfo (ip_addr target) (conn_port target)"

fun contain_any_loop :: "conn_eq \<Rightarrow> ConnectionInfo list \<Rightarrow> TrackerServerInfo \<Rightarrow> bool" where
  "contain_any_loop eq [] pServer2 = False"
| "contain_any_loop eq (conn # cs) pServer2 =
     (if fdfs_server_contain1 eq pServer2 conn then True else contain_any_loop eq cs pServer2)"

definition fdfs_server_contain_ex :: "conn_eq \<Rightarrow> TrackerServerInfo \<Rightarrow> TrackerServerInfo \<Rightarrow> bool" where
  "fdfs_server_contain_ex eq pServer1 pServer2 =
     (let cs = connections pServer1 in
      if length cs = 1 then fdfs_server_contain1 eq pServer2 (cs ! 0)
      else if length cs = 2 then
        (if fdfs_server_contain1 eq pServer2 (cs ! 0) then True else fdfs_server_contain1 eq pServer2 (cs ! 1))
      else contain_any_loop eq cs pServer2)"

fun contain_all_loop :: "conn_eq \<Rightarrow> ConnectionInfo list \<Rightarrow> TrackerServerInfo \<Rightarrow> bool" where
  "contain_all_loop eq [] pServer2 = True"
| "contain_all_loop eq (conn # cs) pServer2 =
     (if \<not> fdfs_server_contain1 eq pServer2 conn then False else contain_all_loop eq cs pServer2)"

definition fdfs_server_equal :: "conn_eq \<Rightarrow> TrackerServerInfo \<Rightarrow> TrackerServerInfo \<Rightarrow> bool" where
  "fdfs_server_equal eq pServer1 pServer2 =
     (let cs = connections pServer1; ds = connections pServer2 in
      if length cs \<noteq> length ds then False
      else if length cs = 1 then conn_port (cs ! 0) = conn_port (ds ! 0) \<and> ip_addr (cs ! 0) = ip_addr (ds ! 0)
      else contain_all_loop eq cs pServer2)"

text \<open>The local addresses in the order of \<open>get_first_local_ip\<close> and \<open>get_next_local_ip\<close>.\<close>

fun fdfs_server_contain_local_service :: "conn_eq \<Rightarrow> string list \<Rightarrow> TrackerServerInfo \<Rightarrow> int \<Rightarrow> bool" where
  "fdfs_server_contain_local_service eq [] pServerInfo target_port = False"
| "fdfs_server_contain_local_service eq (current_ip # ips) pServerInfo target_port =
     (if fdfs_server_contain eq pServerInfo current_ip target_port then True
      else fdfs_server_contain_local_service eq ips pServerInfo target_port)"

text \<open>A group of trackers; the result of \<open>fdfs_tracker_group_get_server\<close> is the server found.\<close>

record TrackerServerGroup =
  servers :: "TrackerServerInfo list"
  leader_index :: int

fun group_get_loop :: "conn_eq \<Rightarrow> TrackerServerInfo list \<Rightarrow> nat \<Rightarrow> string \<Rightarrow> int \<Rightarrow> nat option" where
  "group_get_loop eq [] i target_ip target_port = None"
| "group_get_loop eq (pServer # rest) i target_ip target_port =
     (if fdfs_server_contain eq pServer target_ip target_port then Some i
      else group_get_loop eq rest (Suc i) target_ip target_port)"

definition fdfs_tracker_group_get_server ::
    "conn_eq \<Rightarrow> TrackerServerGroup \<Rightarrow> string \<Rightarrow> int \<Rightarrow> TrackerServerInfo option" where
  "fdfs_tracker_group_get_server eq pGroup target_ip target_port =
     map_option (\<lambda>i. servers pGroup ! i) (group_get_loop eq (servers pGroup) 0 target_ip target_port)"

definition fdfs_get_tracker_leader_index_ex :: "conn_eq \<Rightarrow> TrackerServerGroup \<Rightarrow> string \<Rightarrow> int \<Rightarrow> int" where
  "fdfs_get_tracker_leader_index_ex eq pServerGroup leaderIp leaderPort =
     (if servers pServerGroup = [] then -1
      else (case group_get_loop eq (servers pServerGroup) 0 leaderIp leaderPort of
              Some i \<Rightarrow> int i | None \<Rightarrow> -1))"

definition fdfs_server_sock_reset :: "TrackerServerInfo \<Rightarrow> TrackerServerInfo" where
  "fdfs_server_sock_reset pServerInfo =
     pServerInfo\<lparr>connections := map (\<lambda>c. c\<lparr>conn_sock := -1\<rparr>) (connections pServerInfo)\<rparr>"

section \<open>Reserved space\<close>

text \<open>The flag and the union of \<open>FDFSStorageReservedSpace\<close>.\<close>

datatype FDFSStorageReservedSpace = Reserved_MB int | Reserved_Ratio rat

record FDFSGroupSpace =
  group_total_mb :: int
  group_free_mb :: int
  group_trunk_free_mb :: int

definition fdfs_get_storage_reserved_space_mb :: "int \<Rightarrow> FDFSStorageReservedSpace \<Rightarrow> int" where
  "fdfs_get_storage_reserved_space_mb total_mb rs =
     (case rs of Reserved_MB mb \<Rightarrow> mb
      | Reserved_Ratio ratio \<Rightarrow>
          let x = of_int total_mb * ratio in if x < 0 then - \<lfloor>- x\<rfloor> else \<lfloor>x\<rfloor>)"

definition fdfs_check_reserved_space :: "FDFSGroupSpace \<Rightarrow> FDFSStorageReservedSpace \<Rightarrow> bool" where
  "fdfs_check_reserved_space pGroup rs =
     (case rs of Reserved_MB mb \<Rightarrow> group_free_mb pGroup > mb
      | Reserved_Ratio ratio \<Rightarrow>
          if group_total_mb pGroup = 0 then False
          else of_int (group_free_mb pGroup) / of_int (group_total_mb pGroup) > ratio)"

definition fdfs_check_reserved_space_trunk :: "FDFSGroupSpace \<Rightarrow> FDFSStorageReservedSpace \<Rightarrow> bool" where
  "fdfs_check_reserved_space_trunk pGroup rs =
     (case rs of Reserved_MB mb \<Rightarrow> group_free_mb pGroup + group_trunk_free_mb pGroup > mb
      | Reserved_Ratio ratio \<Rightarrow>
          if group_total_mb pGroup = 0 then False
          else of_int (group_free_mb pGroup + group_trunk_free_mb pGroup) / of_int (group_total_mb pGroup) > ratio)"

definition fdfs_check_reserved_space_path :: "int \<Rightarrow> int \<Rightarrow> int \<Rightarrow> FDFSStorageReservedSpace \<Rightarrow> bool" where
  "fdfs_check_reserved_space_path total_mb free_mb avg_mb rs =
     (case rs of Reserved_MB _ \<Rightarrow> free_mb > avg_mb
      | Reserved_Ratio ratio \<Rightarrow>
          if total_mb = 0 then False else of_int free_mb / of_int total_mb > ratio)"

section \<open>Parsing and printing of addresses\<close>

abbreviation (input) FDFS_IP_TYPE_UNKNOWN :: int where "FDFS_IP_TYPE_UNKNOWN \<equiv> 0"
abbreviation (input) FDFS_IP_TYPE_PRIVATE_10 :: int where "FDFS_IP_TYPE_PRIVATE_10 \<equiv> 1"
abbreviation (input) FDFS_IP_TYPE_PRIVATE_172 :: int where "FDFS_IP_TYPE_PRIVATE_172 \<equiv> 2"
abbreviation (input) FDFS_IP_TYPE_PRIVATE_192 :: int where "FDFS_IP_TYPE_PRIVATE_192 \<equiv> 3"
abbreviation (input) FDFS_IP_TYPE_OUTER :: int where "FDFS_IP_TYPE_OUTER \<equiv> 4"
abbreviation (input) FDFS_MULTI_IP_INDEX_INNER :: nat where "FDFS_MULTI_IP_INDEX_INNER \<equiv> 0"
abbreviation (input) FDFS_MULTI_IP_INDEX_OUTER :: nat where "FDFS_MULTI_IP_INDEX_OUTER \<equiv> 1"
abbreviation (input) FDFS_MULTI_IP_MAX_COUNT :: nat where "FDFS_MULTI_IP_MAX_COUNT \<equiv> 2"

text \<open>\<open>snprintf\<close> of a string into a buffer of \<open>n\<close> bytes.\<close>

definition snprintf_s :: "nat \<Rightarrow> string \<Rightarrow> string" where
  "snprintf_s n s = take (n - 1) s"

text \<open>
  The loop over the hosts of \<open>fdfs_parse_server_info_ex\<close>; when a host does not resolve,
  the connections from there on keep the zeros of \<open>memset\<close>.
\<close>

definition zero_conn :: ConnectionInfo where
  "zero_conn = \<lparr>ip_addr = [], conn_port = 0, conn_sock = 0\<rparr>"

fun parse_hosts :: "(string \<Rightarrow> string option) \<Rightarrow> nat \<Rightarrow> bool \<Rightarrow> int \<Rightarrow> string list \<Rightarrow> int \<times> ConnectionInfo list" where
  "parse_hosts resolve_host ip_size resolve port [] = (0, [])"
| "parse_hosts resolve_host ip_size resolve port (host # hosts) =
     (case (if resolve then resolve_host host else Some (snprintf_s ip_size host)) of
        None \<Rightarrow> (EINVAL, map (\<lambda>_. zero_conn) (host # hosts))
      | Some ip \<Rightarrow>
          (case parse_hosts resolve_host ip_size resolve port hosts of
             (r, cs) \<Rightarrow> (r, \<lparr>ip_addr = ip, conn_port = port, conn_sock = -1\<rparr> # cs)))"

text \<open>\<open>strrchr\<close>: what is before and after the last occurrence of \<open>c\<close>.\<close>

definition split_last :: "char \<Rightarrow> string \<Rightarrow> (string \<times> string) option" where
  "split_last c s =
     (if c \<in> set s
      then Some (rev (tl (dropWhile (\<lambda>x. x \<noteq> c) (rev s))), rev (takeWhile (\<lambda>x. x \<noteq> c) (rev s)))
      else None)"

definition fdfs_parse_server_info_ex ::
    "split_fun \<Rightarrow> (string \<Rightarrow> string option) \<Rightarrow> nat \<Rightarrow> string \<Rightarrow> int \<Rightarrow> bool \<Rightarrow> int \<times> TrackerServerInfo" where
  "fdfs_parse_server_info_ex split resolve_host ip_size server_str default_port resolve =
     (let (hosts_str, port) =
        (case split_last (CHR '':'') server_str of
           None \<Rightarrow> (server_str, default_port)
         | Some (before, after) \<Rightarrow> (before, atoi after));
          (result, cs) = parse_hosts resolve_host ip_size resolve port
            (split hosts_str (CHR '','') FDFS_MULTI_IP_MAX_COUNT)
      in (result, \<lparr>connections = cs, server_index = 0\<rparr>))"

text \<open>The text that \<open>snprintf\<close> writes into a buffer that is large enough.\<close>

definition fdfs_server_info_to_string_ex :: "TrackerServerInfo \<Rightarrow> int \<Rightarrow> string" where
  "fdfs_server_info_to_string_ex pServer port =
     (case connections pServer of
        [] \<Rightarrow> []
      | [c] \<Rightarrow> ip_addr c @ '':'' @ fmt_d port
      | c # cs \<Rightarrow> ip_addr c @ concat (map (\<lambda>c. '','' @ ip_addr c) cs) @ '':'' @ fmt_d port)"

definition fdfs_get_ip_type :: "string \<Rightarrow> int" where
  "fdfs_get_ip_type ip =
     (if length ip < 8 then FDFS_IP_TYPE_UNKNOWN
      else if take 3 ip = ''10.'' then FDFS_IP_TYPE_PRIVATE_10
      else if take 8 ip = ''192.168.'' then FDFS_IP_TYPE_PRIVATE_192
      else if take 4 ip = ''172.'' \<and> (let b = atoi (drop 4 ip) in b \<ge> 16 \<and> b < 32) then FDFS_IP_TYPE_PRIVATE_172
      else FDFS_IP_TYPE_OUTER)"

definition fdfs_check_server_ips :: "TrackerServerInfo \<Rightarrow> int" where
  "fdfs_check_server_ips pServer =
     (let cs = connections pServer in
      if length cs = 1 then 0
      else if length cs = 0 then EINVAL
      else if length cs > FDFS_MULTI_IP_MAX_COUNT then EINVAL
      else if fdfs_get_ip_type (ip_addr (cs ! 0)) = fdfs_get_ip_type (ip_addr (cs ! 1)) then EINVAL
      else 0)"

record FDFSIPInfo =
  ip_type :: int
  ip_address :: string

record FDFSMultiIP =
  multi_index :: int
  multi_ips :: "FDFSIPInfo list"

text \<open>The addresses set when the loop ends; after an error the rest of the array is not set.\<close>

fun parse_multi_loop :: "(string \<Rightarrow> string option) \<Rightarrow> nat \<Rightarrow> bool \<Rightarrow> string list \<Rightarrow> int \<times> FDFSIPInfo list" where
  "parse_multi_loop resolve_host ip_size resolve [] = (0, [])"
| "parse_multi_loop resolve_host ip_size resolve (host # hosts) =
     (case (if resolve then resolve_host host else Some (snprintf_s ip_size host)) of
        None \<Rightarrow> (EINVAL, [])
      | Some ip \<Rightarrow>
          let info = \<lparr>ip_type = fdfs_get_ip_type ip, ip_address = ip\<rparr> in
          if ip_type info = FDFS_IP_TYPE_UNKNOWN then (EINVAL, [info])
          else (case parse_multi_loop resolve_host ip_size resolve hosts of (r, is) \<Rightarrow> (r, info # is)))"

definition fdfs_parse_multi_ips_ex ::
    "split_fun \<Rightarrow> (string \<Rightarrow> string option) \<Rightarrow> nat \<Rightarrow> string \<Rightarrow> bool \<Rightarrow> int \<times> FDFSMultiIP" where
  "fdfs_parse_multi_ips_ex split resolve_host ip_size ip_str resolve =
     (case parse_multi_loop resolve_host ip_size resolve (split ip_str (CHR '','') FDFS_MULTI_IP_MAX_COUNT) of
        (result, is) \<Rightarrow> (result, \<lparr>multi_index = 0, multi_ips = is\<rparr>))"

definition fdfs_multi_ips_to_string_ex :: "FDFSMultiIP \<Rightarrow> char \<Rightarrow> string" where
  "fdfs_multi_ips_to_string_ex ip_addrs seperator =
     (case multi_ips ip_addrs of
        [] \<Rightarrow> []
      | [i] \<Rightarrow> ip_address i
      | i # is \<Rightarrow> ip_address i @ concat (map (\<lambda>i. seperator # ip_address i) is))"

definition fdfs_get_ipaddr_by_peer_ip :: "FDFSMultiIP \<Rightarrow> string \<Rightarrow> string" where
  "fdfs_get_ipaddr_by_peer_ip ip_addrs client_ip =
     (let is = multi_ips ip_addrs in
      if length is = 1 then ip_address (is ! 0)
      else if length is = 0 then []
      else
        let type = fdfs_get_ip_type client_ip;
            index = (if ip_type (is ! FDFS_MULTI_IP_INDEX_OUTER) = type
                     then FDFS_MULTI_IP_INDEX_OUTER else FDFS_MULTI_IP_INDEX_INNER)
        in ip_address (is ! index))"

definition fdfs_check_and_format_ips :: "FDFSMultiIP \<Rightarrow> int \<times> FDFSMultiIP" where
  "fdfs_check_and_format_ips ip_addrs =
     (let is = multi_ips ip_addrs;
          inner = is ! FDFS_MULTI_IP_INDEX_INNER; outer = is ! FDFS_MULTI_IP_INDEX_OUTER
      in if length is = 1 then (0, ip_addrs)
         else if length is = 0 then (EINVAL, ip_addrs)
         else if length is > FDFS_MULTI_IP_MAX_COUNT then (EINVAL, ip_addrs)
         else if ip_type inner = ip_type outer then (EINVAL, ip_addrs)
         else if ip_type inner = FDFS_IP_TYPE_OUTER
           then (0, ip_addrs\<lparr>multi_ips :=
                 is[FDFS_MULTI_IP_INDEX_INNER := outer, FDFS_MULTI_IP_INDEX_OUTER := inner]\<rparr>)
         else (0, ip_addrs))"

fun first_index :: "('a \<Rightarrow> bool) \<Rightarrow> 'a list \<Rightarrow> nat \<Rightarrow> nat option" where
  "first_index P [] i = None"
| "first_index P (x # xs) i = (if P x then Some i else first_index P xs (Suc i))"

definition fdfs_set_multi_ip_index :: "FDFSMultiIP \<Rightarrow> string \<Rightarrow> FDFSMultiIP" where
  "fdfs_set_multi_ip_index multi_ip target_ip =
     (if length (multi_ips multi_ip) \<le> 1 then multi_ip
      else (case first_index (\<lambda>i. ip_address i = target_ip) (multi_ips multi_ip) 0 of
              Some i \<Rightarrow> multi_ip\<lparr>multi_index := int i\<rparr> | None \<Rightarrow> multi_ip))"

definition fdfs_set_server_info_index :: "conn_eq \<Rightarrow> TrackerServerInfo \<Rightarrow> string \<Rightarrow> int \<Rightarrow> TrackerServerInfo" where
  "fdfs_set_server_info_index eq pServer target_ip target_port =
     (if length (connections pServer) \<le> 1 then pServer
      else (case first_index (\<lambda>c. eq c target_ip target_port) (connections pServer) 0 of
              Some i \<Rightarrow> pServer\<lparr>server_index := int i\<rparr> | None \<Rightarrow> pServer))"

section \<open>Lemmas\<close>

definition endpoints :: "TrackerServerInfo \<Rightarrow> (string \<times> int) set" where
  "endpoints s = set (map (\<lambda>c. (ip_addr c, conn_port c)) (connections s))"

lemma contain_loop_iff:
  "conn_eq_ok eq \<Longrightarrow> contain_loop eq cs ip port \<longleftrightarrow> (ip, port) \<in> set (map (\<lambda>c. (ip_addr c, conn_port c)) cs)"
  by (induction cs) (auto simp: conn_eq_ok_def)

lemma length_2_nth: "length xs = 2 \<longleftrightarrow> xs = [xs ! 0, xs ! 1]"
  by (auto simp: list_eq_iff_nth_eq less_Suc_eq numeral_2_eq_2)

lemma server_contain_iff:
  assumes "conn_eq_ok eq"
  shows "fdfs_server_contain eq s ip port \<longleftrightarrow> (ip, port) \<in> endpoints s"
proof -
  consider c where "connections s = [c]" | c d where "connections s = [c, d]"
    | "length (connections s) \<noteq> 1" "length (connections s) \<noteq> 2"
    by (auto simp: length_Suc_conv numeral_2_eq_2)
  then show ?thesis
    by cases (use assms in \<open>auto simp: fdfs_server_contain_def endpoints_def conn_eq_ok_def contain_loop_iff [OF assms] Let_def\<close>)
qed

lemma contain_any_loop_iff:
  "contain_any_loop eq cs s \<longleftrightarrow> (\<exists>c \<in> set cs. fdfs_server_contain1 eq s c)"
  by (induction cs) auto

lemma contain_all_loop_iff:
  "contain_all_loop eq cs s \<longleftrightarrow> (\<forall>c \<in> set cs. fdfs_server_contain1 eq s c)"
  by (induction cs) auto

lemma server_contain_ex_iff:
  assumes "conn_eq_ok eq"
  shows "fdfs_server_contain_ex eq s1 s2 \<longleftrightarrow> endpoints s1 \<inter> endpoints s2 \<noteq> {}"
proof -
  have "fdfs_server_contain_ex eq s1 s2 \<longleftrightarrow> (\<exists>c \<in> set (connections s1). fdfs_server_contain1 eq s2 c)"
  proof -
    consider c where "connections s1 = [c]" | c d where "connections s1 = [c, d]"
      | "length (connections s1) \<noteq> 1" "length (connections s1) \<noteq> 2"
      by (auto simp: length_Suc_conv numeral_2_eq_2)
    then show ?thesis by cases (auto simp: fdfs_server_contain_ex_def contain_any_loop_iff Let_def)
  qed
  then show ?thesis
    unfolding fdfs_server_contain1_def server_contain_iff [OF assms] by (auto simp: endpoints_def)
qed

lemma server_equal_iff:
  assumes "conn_eq_ok eq"
  shows "fdfs_server_equal eq s1 s2 \<longleftrightarrow>
    length (connections s1) = length (connections s2) \<and> endpoints s1 \<subseteq> endpoints s2"
proof (cases "length (connections s1) = length (connections s2) \<and> length (connections s1) = 1")
  case True
  then have "length (connections s1) = Suc 0" "length (connections s2) = Suc 0" by auto
  then obtain c d where "connections s1 = [c]" "connections s2 = [d]" unfolding length_Suc_conv by blast
  then show ?thesis by (auto simp: fdfs_server_equal_def endpoints_def)
next
  case False
  then have "fdfs_server_equal eq s1 s2 \<longleftrightarrow> length (connections s1) = length (connections s2) \<and>
      (\<forall>c \<in> set (connections s1). fdfs_server_contain1 eq s2 c)"
    by (auto simp: fdfs_server_equal_def contain_all_loop_iff Let_def)
  then show ?thesis
    unfolding fdfs_server_contain1_def server_contain_iff [OF assms] by (auto simp: endpoints_def)
qed

lemma group_get_loop_SomeD:
  "group_get_loop eq ss i ip port = Some k \<Longrightarrow>
     i \<le> k \<and> k - i < length ss \<and> fdfs_server_contain eq (ss ! (k - i)) ip port \<and>
     (\<forall>m < k - i. \<not> fdfs_server_contain eq (ss ! m) ip port)"
proof (induction ss arbitrary: i)
  case (Cons x xs)
  show ?case
  proof (cases "fdfs_server_contain eq x ip port")
    case True
    with Cons.prems show ?thesis by simp
  next
    case False
    with Cons.prems have r: "group_get_loop eq xs (Suc i) ip port = Some k" by simp
    then have "Suc i \<le> k" using Cons.IH by blast
    then have "k - i = Suc (k - Suc i)" by simp
    with Cons.IH [OF r] False show ?thesis by (auto simp: less_Suc_eq_0_disj)
  qed
qed simp

lemma group_get_loop_None:
  "group_get_loop eq ss i ip port = None \<longleftrightarrow> (\<forall>s \<in> set ss. \<not> fdfs_server_contain eq s ip port)"
  by (induction ss arbitrary: i) auto

lemma split_last_append:
  assumes "c \<notin> set t"
  shows "split_last c (s @ c # t) = Some (s, t)"
proof -
  have "takeWhile (\<lambda>x. x \<noteq> c) (rev t @ c # rev s) = rev t" "dropWhile (\<lambda>x. x \<noteq> c) (rev t @ c # rev s) = c # rev s"
    using assms by (auto simp: takeWhile_append dropWhile_append)
  then show ?thesis by (simp add: split_last_def)
qed

lemma fmt_d_no_colon [simp]: "CHR '':'' \<notin> set (fmt_d n)"
proof -
  have "digit_char d \<noteq> CHR '':''" if "d < 10" for d
    using of_char_digit_char [OF that] that by auto
  then show ?thesis using fmt_base_10_no_char [of "CHR '':''"] by (auto simp: fmt_d_def)
qed

lemma server_text_join:
  "connections s \<noteq> [] \<Longrightarrow> length (connections s) \<le> 2 \<Longrightarrow>
   fdfs_server_info_to_string_ex s port = join_cols (CHR '','') (map ip_addr (connections s)) @ CHR '':'' # fmt_d port"
  by (cases "connections s"; cases "tl (connections s)")
    (auto simp: fdfs_server_info_to_string_ex_def)

lemma parse_hosts_noresolve:
  "\<forall>h \<in> set hosts. length h < ip_size \<Longrightarrow>
   parse_hosts rh ip_size False port hosts
     = (0, map (\<lambda>h. \<lparr>ip_addr = h, conn_port = port, conn_sock = -1\<rparr>) hosts)"
  by (induction hosts) (auto simp: snprintf_s_def)

section \<open>Properties\<close>

definition plain_eq :: conn_eq where
  "plain_eq c ip port \<longleftrightarrow> ip_addr c = ip \<and> conn_port c = port"

lemma plain_eq_ok: "conn_eq_ok plain_eq"
  by (simp add: conn_eq_ok_def plain_eq_def)

definition sample_server :: "string list \<Rightarrow> int \<Rightarrow> TrackerServerInfo" where
  "sample_server ips port =
     \<lparr>connections = map (\<lambda>ip. \<lparr>ip_addr = ip, conn_port = port, conn_sock = -1\<rparr>) ips, server_index = 0\<rparr>"

text \<open>
  C23: \<open>fdfs_server_equal\<close> compares servers as sets of addresses. For servers whose own
  addresses are distinct it is true exactly when both have the same set of
  (address, port) pairs, in any order; the short cut for one address and the loop agree.
  In the same way \<open>fdfs_server_contain_ex\<close> is true exactly when they share a pair.
\<close>

theorem fdfs_server_equal_as_sets:
  assumes "conn_eq_ok eq" "distinct (map (\<lambda>c. (ip_addr c, conn_port c)) (connections s1))"
    and "distinct (map (\<lambda>c. (ip_addr c, conn_port c)) (connections s2))"
  shows "(fdfs_server_equal eq s1 s2 \<longleftrightarrow> endpoints s1 = endpoints s2) \<and>
    (fdfs_server_contain_ex eq s1 s2 \<longleftrightarrow> endpoints s1 \<inter> endpoints s2 \<noteq> {})"
proof -
  have card: "card (endpoints s1) = length (connections s1)" "card (endpoints s2) = length (connections s2)"
    using distinct_card [OF assms(2)] distinct_card [OF assms(3)] by (simp_all add: endpoints_def)
  have fin: "finite (endpoints s2)" by (simp add: endpoints_def)
  have "length (connections s1) = length (connections s2) \<and> endpoints s1 \<subseteq> endpoints s2 \<longleftrightarrow> endpoints s1 = endpoints s2"
    using card card_subset_eq [OF fin, of "endpoints s1"] by auto
  then show ?thesis using server_equal_iff [OF assms(1)] server_contain_ex_iff [OF assms(1)] by simp
qed

theorem fdfs_server_equal_as_sets_witness:
  "fdfs_server_equal plain_eq (sample_server [''10.0.0.1'', ''8.8.8.80''] 22122)
     (sample_server [''8.8.8.80'', ''10.0.0.1''] 22122)"
  using fdfs_server_equal_as_sets [OF plain_eq_ok, of "sample_server [''10.0.0.1'', ''8.8.8.80''] 22122"
      "sample_server [''8.8.8.80'', ''10.0.0.1''] 22122"]
  by (auto simp: sample_server_def endpoints_def)

text \<open>
  C24: \<open>fdfs_get_tracker_leader_index_ex\<close> returns the index of the first tracker of the
  group that has the leader's address, and \<open>-1\<close> exactly when no tracker has it.
\<close>

theorem fdfs_leader_index_first:
  assumes "conn_eq_ok eq"
  shows "let i = fdfs_get_tracker_leader_index_ex eq g ip port in
    (i = -1 \<and> (\<forall>s \<in> set (servers g). (ip, port) \<notin> endpoints s)) \<or>
    (0 \<le> i \<and> nat i < length (servers g) \<and> (ip, port) \<in> endpoints (servers g ! nat i) \<and>
       (\<forall>m < nat i. (ip, port) \<notin> endpoints (servers g ! m)))"
proof (cases "group_get_loop eq (servers g) 0 ip port")
  case None
  with group_get_loop_None [of eq "servers g" 0 ip port] show ?thesis
    by (simp add: fdfs_get_tracker_leader_index_ex_def server_contain_iff [OF assms])
next
  case (Some k)
  with group_get_loop_SomeD [OF Some] show ?thesis
    by (auto simp: fdfs_get_tracker_leader_index_ex_def server_contain_iff [OF assms])
qed

theorem fdfs_leader_index_first_witness:
  "fdfs_get_tracker_leader_index_ex plain_eq
     \<lparr>servers = [sample_server [''10.0.0.1''] 22122, sample_server [''10.0.0.2''] 22122], leader_index = -1\<rparr>
     ''10.0.0.2'' 22122 = 1"
proof -
  let ?g = "\<lparr>servers = [sample_server [''10.0.0.1''] 22122, sample_server [''10.0.0.2''] 22122], leader_index = -1\<rparr>"
  let ?i = "fdfs_get_tracker_leader_index_ex plain_eq ?g ''10.0.0.2'' 22122"
  have e: "endpoints (sample_server [ip] p) = {(ip, p)}" for ip p by (simp add: endpoints_def sample_server_def)
  have "?i \<noteq> -1 \<and> 0 \<le> ?i \<and> nat ?i < 2 \<and> nat ?i \<noteq> 0"
    using fdfs_leader_index_first [OF plain_eq_ok, of ?g "''10.0.0.2''" 22122] by (auto simp: e Let_def)
  then show ?thesis by linarith
qed

text \<open>
  C25: a server's text reads back. For one or two addresses without \<open>,\<close> and \<open>:\<close> that
  fit the address field, \<open>fdfs_parse_server_info_ex\<close> of the text that
  \<open>fdfs_server_info_to_string_ex\<close> writes gives the same addresses with the port.
\<close>

theorem fdfs_server_info_round_trip:
  assumes "splitEx_ok split" "connections s \<noteq> []" "length (connections s) \<le> 2"
    and "\<forall>c \<in> set (connections s). CHR '','' \<notin> set (ip_addr c) \<and> length (ip_addr c) < ip_size"
  shows "fdfs_parse_server_info_ex split rh ip_size (fdfs_server_info_to_string_ex s port) dflt False
    = (0, \<lparr>connections = map (\<lambda>c. \<lparr>ip_addr = ip_addr c, conn_port = port, conn_sock = -1\<rparr>) (connections s), server_index = 0\<rparr>)"
proof -
  let ?ips = "map ip_addr (connections s)"
  have str: "fdfs_server_info_to_string_ex s port = join_cols (CHR '','') ?ips @ CHR '':'' # fmt_d port"
    by (rule server_text_join [OF assms(2,3)])
  have sp: "split (join_cols (CHR '','') ?ips) (CHR '','') 2 = ?ips"
    by (rule splitEx_free [OF assms(1)]) (use assms(2-4) in auto)
  have "\<forall>h \<in> set ?ips. length h < ip_size" using assms(4) by simp
  from parse_hosts_noresolve [OF this, of rh port] show ?thesis
    unfolding fdfs_parse_server_info_ex_def str split_last_append [OF fmt_d_no_colon]
    by (simp add: sp o_def)
qed

theorem fdfs_server_info_round_trip_witness:
  "fdfs_parse_server_info_ex split_cols (\<lambda>_. None) 16
     (fdfs_server_info_to_string_ex (sample_server [''10.0.0.1'', ''8.8.8.80''] 0) 22122) 0 False
   = (0, sample_server [''10.0.0.1'', ''8.8.8.80''] 22122)"
  using fdfs_server_info_round_trip [OF split_cols_ok, of "sample_server [''10.0.0.1'', ''8.8.8.80''] 0" 16 "\<lambda>_. None" 22122 0]
  by (simp add: sample_server_def)

text \<open>
  C26: \<open>fdfs_check_and_format_ips\<close> either refuses a pair of addresses and leaves it as it
  is, or keeps the same two addresses, of different kinds, with an address of an inner
  network (not an outer one) first.
\<close>

theorem fdfs_format_ips_inner_first:
  assumes "length (multi_ips m) = 2" "fdfs_check_and_format_ips m = (r, m')"
  shows "(r = EINVAL \<and> m' = m \<and> ip_type (multi_ips m ! 0) = ip_type (multi_ips m ! 1)) \<or>
    (r = 0 \<and> set (multi_ips m') = set (multi_ips m) \<and> length (multi_ips m') = 2 \<and>
     ip_type (multi_ips m' ! 0) \<noteq> ip_type (multi_ips m' ! 1) \<and> ip_type (multi_ips m' ! 0) \<noteq> FDFS_IP_TYPE_OUTER)"
proof -
  obtain i j where ij: "multi_ips m = [i, j]" using assms(1) length_2_nth [of "multi_ips m"] by blast
  show ?thesis
    using assms(2) ij by (auto simp: fdfs_check_and_format_ips_def Let_def split: if_splits)
qed

theorem fdfs_format_ips_inner_first_witness:
  "fst (fdfs_check_and_format_ips
      \<lparr>multi_index = 0, multi_ips = [\<lparr>ip_type = 4, ip_address = ''8.8.8.80''\<rparr>, \<lparr>ip_type = 1, ip_address = ''10.0.0.1''\<rparr>]\<rparr>) = 0"
proof -
  let ?m = "\<lparr>multi_index = 0, multi_ips = [\<lparr>ip_type = 4, ip_address = ''8.8.8.80''\<rparr>, \<lparr>ip_type = 1, ip_address = ''10.0.0.1''\<rparr>]\<rparr>"
  show ?thesis
    using fdfs_format_ips_inner_first [of ?m "fst (fdfs_check_and_format_ips ?m)" "snd (fdfs_check_and_format_ips ?m)"] by simp
qed



end
