(* ===== verification/Fastcommon_Api.thy ===== *)
theory Fastcommon_Api
  imports Fdfs_Prelude
begin

text \<open>
  The byte codecs and the hash of libfastcommon that the sources call: \<open>int2buff\<close>,
  \<open>buff2int\<close>, \<open>long2buff\<close>, \<open>buff2long\<close> (integers as bytes), \<open>base64_encode_ex\<close>
  and \<open>base64_decode_auto\<close> (with the context of the program, which writes no padding)
  and \<open>PJWHash\<close>. The library is not part of the repository; the functions are a
  parameter and \<open>fc_ok\<close> says what its documentation promises. Bytes are numbers below
  256.

  \<open>fc_impl\<close> is an instance (big endian integers, base64 of the alphabet with \<open>-\<close> and
  \<open>_\<close>) that satisfies the laws.
\<close>

type_synonym bytes = "nat list"

record fc_api =
  int2buff :: "int \<Rightarrow> bytes"
  buff2int :: "bytes \<Rightarrow> int"
  long2buff :: "int \<Rightarrow> bytes"
  buff2long :: "bytes \<Rightarrow> int"
  base64_encode_ex :: "bytes \<Rightarrow> string"
  base64_decode_auto :: "string \<Rightarrow> bytes"
  PJWHash :: "string \<Rightarrow> int"

definition is_bytes :: "bytes \<Rightarrow> bool" where
  "is_bytes bs \<longleftrightarrow> (\<forall>b \<in> set bs. b < 256)"

definition in_i64 :: "int \<Rightarrow> bool" where
  "in_i64 n \<longleftrightarrow> - (2 ^ 63) \<le> n \<and> n < 2 ^ 63"

text \<open>The length of the base64 text of \<open>n\<close> bytes, without padding.\<close>

definition base64_len :: "nat \<Rightarrow> nat" where
  "base64_len n = 4 * (n div 3) + (if n mod 3 = 0 then 0 else n mod 3 + 1)"

definition base64_char :: "char \<Rightarrow> bool" where
  "base64_char c \<longleftrightarrow>
     (let n = of_char c :: nat in
      48 \<le> n \<and> n \<le> 57 \<or> 65 \<le> n \<and> n \<le> 90 \<or> 97 \<le> n \<and> n \<le> 122 \<or> c = CHR ''-'' \<or> c = CHR ''_'')"

definition fc_ok :: "fc_api \<Rightarrow> bool" where
  "fc_ok F \<longleftrightarrow>
     (\<forall>n. length (int2buff F n) = 4 \<and> is_bytes (int2buff F n)) \<and>
     (\<forall>n. in_i32 n \<longrightarrow> buff2int F (int2buff F n) = n) \<and>
     (\<forall>n. length (long2buff F n) = 8 \<and> is_bytes (long2buff F n)) \<and>
     (\<forall>n. in_i64 n \<longrightarrow> buff2long F (long2buff F n) = n) \<and>
     (\<forall>bs. is_bytes bs \<longrightarrow> base64_decode_auto F (base64_encode_ex F bs) = bs) \<and>
     (\<forall>bs. is_bytes bs \<longrightarrow> length (base64_encode_ex F bs) = base64_len (length bs)) \<and>
     (\<forall>bs. is_bytes bs \<longrightarrow> (\<forall>c \<in> set (base64_encode_ex F bs). base64_char c))"

lemma fc_int2buff:
  assumes "fc_ok F"
  shows "length (int2buff F n) = 4" "is_bytes (int2buff F n)" "length (long2buff F n) = 8" "is_bytes (long2buff F n)"
  using assms by (auto simp: fc_ok_def)

lemma fc_buff2int: "fc_ok F \<Longrightarrow> in_i32 n \<Longrightarrow> buff2int F (int2buff F n) = n"
  unfolding fc_ok_def by blast

lemma fc_buff2long: "fc_ok F \<Longrightarrow> in_i64 n \<Longrightarrow> buff2long F (long2buff F n) = n"
  unfolding fc_ok_def by blast

lemma fc_base64:
  assumes "fc_ok F" "is_bytes bs"
  shows "base64_decode_auto F (base64_encode_ex F bs) = bs"
    "length (base64_encode_ex F bs) = base64_len (length bs)"
    "c \<in> set (base64_encode_ex F bs) \<Longrightarrow> base64_char c"
  using assms unfolding fc_ok_def by blast+

lemma is_bytes_append [simp]: "is_bytes (xs @ ys) \<longleftrightarrow> is_bytes xs \<and> is_bytes ys"
  by (auto simp: is_bytes_def)

lemma base64_char_not [simp]:
  "\<not> base64_char (CHR ''/'')" "\<not> base64_char (CHR ''.'')" "\<not> base64_char (CHR '' '')" "\<not> base64_char (CHR 0x0A)"
  by (simp_all add: base64_char_def)

section \<open>An instance\<close>

definition be_bytes :: "nat \<Rightarrow> int \<Rightarrow> bytes" where
  "be_bytes k n = map (\<lambda>i. nat (n div 256 ^ (k - Suc i) mod 256)) [0..<k]"

definition be_value :: "bytes \<Rightarrow> int" where
  "be_value bs = fold (\<lambda>b acc. 256 * acc + int b) bs 0"

definition signed_value :: "nat \<Rightarrow> int \<Rightarrow> int" where
  "signed_value k n = (if n < 2 ^ (8 * k - 1) then n else n - 2 ^ (8 * k))"

definition sextet :: "nat \<Rightarrow> char" where
  "sextet n = char_of (if n < 26 then 65 + n else if n < 52 then 71 + n else if n < 62 then n - 4
     else if n = 62 then 45 else 95)"

definition unsextet :: "char \<Rightarrow> nat" where
  "unsextet c = (let n = of_char c in if n = 45 then 62 else if n = 95 then 63
     else if n \<le> 57 then n + 4 else if n \<le> 90 then n - 65 else n - 71)"

fun b64_enc :: "bytes \<Rightarrow> string" where
  "b64_enc [] = []"
| "b64_enc [a] = [sextet (a div 4), sextet (a mod 4 * 16)]"
| "b64_enc [a, b] = [sextet (a div 4), sextet (a mod 4 * 16 + b div 16), sextet (b mod 16 * 4)]"
| "b64_enc (a # b # c # bs) =
     sextet (a div 4) # sextet (a mod 4 * 16 + b div 16) # sextet (b mod 16 * 4 + c div 64) # sextet (c mod 64) # b64_enc bs"

fun b64_dec :: "string \<Rightarrow> bytes" where
  "b64_dec (p # q # r # s # cs) =
     (unsextet p * 4 + unsextet q div 16) # (unsextet q mod 16 * 16 + unsextet r div 4) #
     (unsextet r mod 4 * 64 + unsextet s) # b64_dec cs"
| "b64_dec [p, q, r] = [unsextet p * 4 + unsextet q div 16, unsextet q mod 16 * 16 + unsextet r div 4]"
| "b64_dec [p, q] = [unsextet p * 4 + unsextet q div 16]"
| "b64_dec cs = []"

definition pjw :: "string \<Rightarrow> int" where
  "pjw s = fold (\<lambda>c h. (16 * h + of_char c) mod 2 ^ 28) s 0"

definition fc_impl :: fc_api where
  "fc_impl =
     \<lparr>int2buff = be_bytes 4, buff2int = (\<lambda>bs. signed_value 4 (be_value bs)),
      long2buff = be_bytes 8, buff2long = (\<lambda>bs. signed_value 8 (be_value bs)),
      base64_encode_ex = b64_enc, base64_decode_auto = b64_dec, PJWHash = pjw\<rparr>"

lemma of_char_sextet:
  "n < 64 \<Longrightarrow> of_char (sextet n) = (if n < 26 then 65 + n else if n < 52 then 71 + n else if n < 62 then n - 4
     else if n = 62 then 45 else 95)"
  by (simp add: sextet_def)

lemma unsextet_sextet [simp]: "n < 64 \<Longrightarrow> unsextet (sextet n) = n"
  unfolding unsextet_def of_char_sextet Let_def by (auto simp: of_char_sextet split: if_splits)

lemma base64_char_sextet: "n < 64 \<Longrightarrow> base64_char (sextet n)"
proof -
  assume n: "n < 64"
  have "sextet 62 = CHR ''-''" "sextet 63 = CHR ''_''" by (simp_all add: sextet_def) code_simp+
  then show ?thesis
    using n by (cases "n < 62") (auto simp: base64_char_def of_char_sextet Let_def less_Suc_eq numeral_eq_Suc)
qed

lemma b64_round: "is_bytes bs \<Longrightarrow> b64_dec (b64_enc bs) = bs"
  by (induction bs rule: b64_enc.induct) (auto simp: is_bytes_def div_mult2_eq)

lemma base64_len_add_3: "base64_len (Suc (Suc (Suc n))) = 4 + base64_len n"
proof -
  have "Suc (Suc (Suc n)) div 3 = Suc (n div 3)" "Suc (Suc (Suc n)) mod 3 = n mod 3" by presburger+
  then show ?thesis by (simp add: base64_len_def)
qed

lemma b64_length: "length (b64_enc bs) = base64_len (length bs)"
  by (induction bs rule: b64_enc.induct) (simp_all add: base64_len_add_3, simp_all add: base64_len_def)

lemma b64_chars: "is_bytes bs \<Longrightarrow> \<forall>c \<in> set (b64_enc bs). base64_char c"
  by (induction bs rule: b64_enc.induct) (auto simp: is_bytes_def intro!: base64_char_sextet)

lemma be_value_append: "be_value (xs @ [x]) = 256 * be_value xs + int x"
  by (simp add: be_value_def)

lemma be_bytes_Suc: "be_bytes (Suc k) n = be_bytes k (n div 256) @ [nat (n mod 256)]"
proof -
  have "n div 256 ^ (Suc k - Suc i) = n div 256 div 256 ^ (k - Suc i)" if "i < k" for i
  proof -
    have "Suc k - Suc i = Suc (k - Suc i)" using that by simp
    then show ?thesis by (simp only: power_Suc) (simp add: zdiv_zmult2_eq)
  qed
  then show ?thesis by (simp add: be_bytes_def)
qed

lemma be_value_bytes: "be_value (be_bytes k n) = n mod 256 ^ k"
proof (induction k arbitrary: n)
  case 0
  then show ?case by (simp add: be_bytes_def be_value_def)
next
  case (Suc k)
  have "n mod 256 ^ Suc k = 256 * (n div 256 mod 256 ^ k) + n mod 256"
    by (simp add: zmod_zmult2_eq)
  with Suc show ?case by (simp add: be_bytes_Suc be_value_append)
qed

lemma signed_value_mod:
  assumes "- (2 ^ (8 * k - 1)) \<le> n" "n < 2 ^ (8 * k - 1)" "0 < k"
  shows "signed_value k (n mod 2 ^ (8 * k)) = n"
proof -
  have p: "(2::int) ^ (8 * k) = 2 * 2 ^ (8 * k - 1)"
    using assms(3) by (metis One_nat_def Suc_pred mult_pos_pos power_Suc zero_less_numeral)
  show ?thesis
  proof (cases "0 \<le> n")
    case True
    then have "n mod 2 ^ (8 * k) = n" using assms(2) p by (intro mod_pos_pos_trivial) simp_all
    with assms(2) show ?thesis by (simp add: signed_value_def)
  next
    case False
    have "n mod 2 ^ (8 * k) = (n + 2 ^ (8 * k)) mod 2 ^ (8 * k)" by simp
    also have "\<dots> = n + 2 ^ (8 * k)" using False assms(1) p by (intro mod_pos_pos_trivial) simp_all
    finally show ?thesis using assms(1) p by (simp add: signed_value_def)
  qed
qed

lemma fc_impl_ok: "fc_ok fc_impl"
proof -
  have len: "length (be_bytes k n) = k \<and> is_bytes (be_bytes k n)" for k n
    by (auto simp: be_bytes_def is_bytes_def)
  have i: "signed_value 4 (be_value (be_bytes 4 n)) = n" if "in_i32 n" for n
    using signed_value_mod [of 4 n] that by (simp add: be_value_bytes in_i32_def)
  have l: "signed_value 8 (be_value (be_bytes 8 n)) = n" if "in_i64 n" for n
    using signed_value_mod [of 8 n] that by (simp add: be_value_bytes in_i64_def)
  show ?thesis
    unfolding fc_ok_def fc_impl_def using len i l b64_round b64_length b64_chars by simp
qed

end
