(* ===== verification/Store_Path.thy ===== *)
theory Store_Path
  imports Shared_Func Fastcommon_Api
begin

text \<open>
  Where a storage server puts a new file (\<open>storage/storage_service.c\<close>): the store path
  (\<open>storage_get_storage_path_index\<close>), the two levels of sub-directories
  (\<open>storage_get_store_path\<close>) and the file name (\<open>COMBINE_RAND_FILE_SIZE\<close>,
  \<open>storage_format_ext_name\<close>, \<open>storage_gen_filename\<close>, \<open>storage_get_filename\<close>).
  The values of \<open>rand()\<close> are arguments.

  Shown here: a path is chosen only when it has its reserved space and \<open>ENOSPC\<close> means that
  none has, round robin visits the sub-directories in order, the random mask of the size
  can be taken off, the file name has a fixed length and decodes to what it was made from.
\<close>

section \<open>Definitions\<close>

record FDFSStorePathInfo =
  total_mb :: int
  free_mb :: int
  path_name :: string

abbreviation (input) FDFS_STORE_PATH_ROUND_ROBIN :: int where "FDFS_STORE_PATH_ROUND_ROBIN \<equiv> 0"
abbreviation (input) FDFS_STORE_PATH_LOAD_BALANCE :: int where "FDFS_STORE_PATH_LOAD_BALANCE \<equiv> 2"
abbreviation (input) FDFS_FILE_DIST_PATH_ROUND_ROBIN :: int where "FDFS_FILE_DIST_PATH_ROUND_ROBIN \<equiv> 0"
abbreviation (input) FDFS_FILE_EXT_NAME_MAX_LEN :: nat where "FDFS_FILE_EXT_NAME_MAX_LEN \<equiv> 6"
abbreviation (input) RAND_MAX :: int where "RAND_MAX \<equiv> 2147483647"

text \<open>The configuration; \<open>g_fdfs_store_paths.count\<close> is the length of the list.\<close>

record store_conf =
  g_fdfs_store_paths :: "FDFSStorePathInfo list"
  g_store_path_mode :: int
  g_avg_storage_reserved_mb :: int
  g_storage_reserved_space :: FDFSStorageReservedSpace
  g_file_distribute_path_mode :: int
  g_file_distribute_rotate_count :: int
  g_subdir_count_per_path :: int

record store_state =
  g_store_path_index :: int
  g_dist_path_index_high :: int
  g_dist_path_index_low :: int
  g_dist_write_file_count :: int
  g_stat_change_count :: int

definition path_has_space :: "store_conf \<Rightarrow> FDFSStorePathInfo \<Rightarrow> bool" where
  "path_has_space c p =
     fdfs_check_reserved_space_path (total_mb p) (free_mb p) (g_avg_storage_reserved_mb c) (g_storage_reserved_space c)"

text \<open>The result, \<open>*store_path_index\<close> and the state.\<close>

definition storage_get_storage_path_index :: "store_conf \<Rightarrow> store_state \<Rightarrow> int \<times> int \<times> store_state" where
  "storage_get_storage_path_index c s =
     (let paths = g_fdfs_store_paths c; cnt = int (length paths); index = g_store_path_index s in
      if g_store_path_mode c = FDFS_STORE_PATH_LOAD_BALANCE then
        (if index < 0 \<or> index \<ge> cnt then (ENOSPC, index, s) else (0, index, s))
      else
        let index = (if index \<ge> cnt then 0 else index);
            next = (\<lambda>s. s\<lparr>g_store_path_index :=
               (if g_store_path_index s + 1 \<ge> cnt then 0 else g_store_path_index s + 1)\<rparr>)
        in if path_has_space c (paths ! nat index) then (0, index, next s)
           else (case first_index (path_has_space c) paths 0 of
                   None \<Rightarrow> (ENOSPC, index, s)
                 | Some i \<Rightarrow> (0, int i, next (s\<lparr>g_store_path_index := int i\<rparr>))))"

text \<open>\<open>*sub_path_high\<close>, \<open>*sub_path_low\<close> and the state.\<close>

definition storage_get_store_path :: "fc_api \<Rightarrow> store_conf \<Rightarrow> string \<Rightarrow> store_state \<Rightarrow> int \<times> int \<times> store_state" where
  "storage_get_store_path F c filename s =
     (let cnt = g_subdir_count_per_path c in
      if g_file_distribute_path_mode c = FDFS_FILE_DIST_PATH_ROUND_ROBIN then
        let high = g_dist_path_index_high s; low = g_dist_path_index_low s;
            written = g_dist_write_file_count s + 1
        in if written \<ge> g_file_distribute_rotate_count c then
             (high, low,
              (if low + 1 \<ge> cnt
               then s\<lparr>g_dist_path_index_high := (if high + 1 \<ge> cnt then 0 else high + 1), g_dist_path_index_low := 0,
                      g_dist_write_file_count := 0, g_stat_change_count := g_stat_change_count s + 1\<rparr>
               else s\<lparr>g_dist_path_index_low := low + 1,
                      g_dist_write_file_count := 0, g_stat_change_count := g_stat_change_count s + 1\<rparr>))
           else (high, low, s\<lparr>g_dist_write_file_count := written\<rparr>)
      else
        let n = PJWHash F filename smod 2 ^ 16
        in (n div 256 mod 256 smod cnt, n mod 256 smod cnt, s))"

text \<open>
  \<open>r = (rand() & 0x007FFFFF) | 0x80000000\<close> is a negative \<open>int\<close>; the size is below
  \<open>2^32\<close>, so that the bitwise or of the two halves is their sum.
\<close>

definition COMBINE_RAND_FILE_SIZE :: "int \<Rightarrow> int \<Rightarrow> int" where
  "COMBINE_RAND_FILE_SIZE rnd file_size = (rnd mod 2 ^ 23 - 2 ^ 31) * 2 ^ 32 + file_size"

definition IS_TRUNK_FILE :: "int \<Rightarrow> bool" where
  "IS_TRUNK_FILE file_size \<longleftrightarrow> file_size div 2 ^ 59 mod 2 \<noteq> 0"

definition FDFS_TRUNK_FILE_TRUE_SIZE :: "int \<Rightarrow> int" where
  "FDFS_TRUNK_FILE_TRUE_SIZE file_size = file_size mod 2 ^ 32"

text \<open>A padding character: \<open>'0' + (int)(10.0 * (double)rand() / RAND_MAX)\<close>.\<close>

definition pad_char :: "int \<Rightarrow> char" where
  "pad_char rnd = char_of (48 + nat (10 * rnd div RAND_MAX))"

definition storage_format_ext_name :: "int list \<Rightarrow> string \<Rightarrow> string" where
  "storage_format_ext_name rnds file_ext_name =
     (let ext_name_len = length file_ext_name;
          pad_len = (if ext_name_len = 0 then FDFS_FILE_EXT_NAME_MAX_LEN + 1
                     else FDFS_FILE_EXT_NAME_MAX_LEN - ext_name_len)
      in map pad_char (take pad_len rnds) @ (if ext_name_len > 0 then ''.'' @ file_ext_name else []))"

text \<open>
  The part of the upload context that \<open>storage_gen_filename\<close> uses: the sub-directories of
  \<open>trunk_info.path\<close> and \<open>if_sub_path_alloced\<close>. \<open>htonl\<close> reverses the bytes.
\<close>

record upload_ctx =
  up_store_path_index :: nat
  up_sub_path_high :: nat
  up_sub_path_low :: nat
  if_sub_path_alloced :: bool

definition storage_gen_filename ::
    "fc_api \<Rightarrow> store_conf \<Rightarrow> int \<Rightarrow> int \<Rightarrow> int \<Rightarrow> int \<Rightarrow> string \<Rightarrow> int \<Rightarrow> upload_ctx \<Rightarrow> store_state
     \<Rightarrow> string \<times> upload_ctx \<times> store_state" where
  "storage_gen_filename F c server_id_n rnd file_size crc32 szFormattedExt timestamp u s =
     (let masked_file_size = (if file_size div 2 ^ 32 \<noteq> 0 then file_size
                              else COMBINE_RAND_FILE_SIZE rnd file_size);
          buff = int2buff F server_id_n @ int2buff F timestamp @ long2buff F masked_file_size @ int2buff F crc32;
          encoded = base64_encode_ex F buff;
          (u', s') =
            (if if_sub_path_alloced u then (u, s)
             else (case storage_get_store_path F c encoded s of
                     (high, low, s') \<Rightarrow>
                       (u\<lparr>up_sub_path_high := to_u8 high, up_sub_path_low := to_u8 low, if_sub_path_alloced := True\<rparr>, s')))
      in (fmt_02X (up_sub_path_high u') @ ''/'' @ fmt_02X (up_sub_path_low u') @ ''/'' @ encoded @
            take (FDFS_FILE_EXT_NAME_MAX_LEN + 1) szFormattedExt,
          u', s'))"

text \<open>
  The loop of \<open>storage_get_filename\<close>: one value of \<open>rand()\<close> for each of the at most ten
  attempts; \<open>exists_file\<close> is \<open>fileExists\<close>. The result, \<open>filename\<close> and
  \<open>full_filename\<close>.
\<close>

fun get_filename_loop ::
    "fc_api \<Rightarrow> store_conf \<Rightarrow> (string \<Rightarrow> bool) \<Rightarrow> int \<Rightarrow> int \<Rightarrow> int \<Rightarrow> string \<Rightarrow> int \<Rightarrow> int list \<Rightarrow> upload_ctx \<Rightarrow> store_state
     \<Rightarrow> int \<times> string \<times> string \<times> upload_ctx \<times> store_state" where
  "get_filename_loop F c exists_file sid file_size crc32 ext start_time [] u s = (ENOENT, [], [], u, s)"
| "get_filename_loop F c exists_file sid file_size crc32 ext start_time (rnd # rnds) u s =
     (case storage_gen_filename F c sid rnd file_size crc32 ext start_time u s of
        (filename, u', s') \<Rightarrow>
          let full_filename = path_name (g_fdfs_store_paths c ! up_store_path_index u') @ ''/data/'' @ filename
          in if \<not> exists_file full_filename then (0, filename, full_filename, u', s')
             else get_filename_loop F c exists_file sid file_size crc32 ext start_time rnds u' s')"

definition storage_get_filename ::
    "fc_api \<Rightarrow> store_conf \<Rightarrow> (string \<Rightarrow> bool) \<Rightarrow> int \<Rightarrow> int \<Rightarrow> int \<Rightarrow> int \<Rightarrow> string \<Rightarrow> int list \<Rightarrow> upload_ctx \<Rightarrow> store_state
     \<Rightarrow> int \<times> string \<times> string \<times> upload_ctx \<times> store_state" where
  "storage_get_filename F c exists_file sid start_time file_size crc32 ext rnds u s =
     get_filename_loop F c exists_file sid file_size crc32 ext start_time (take 10 rnds) u s"

section \<open>The store path\<close>

lemma first_index_SomeD:
  "first_index P xs i = Some k \<Longrightarrow> i \<le> k \<and> k - i < length xs \<and> P (xs ! (k - i))"
proof (induction xs arbitrary: i)
  case (Cons x xs)
  show ?case
  proof (cases "P x")
    case False
    with Cons.prems have r: "first_index P xs (Suc i) = Some k" by simp
    with Cons.IH have h: "Suc i \<le> k" "k - Suc i < length xs" "P (xs ! (k - Suc i))" by blast+
    then have "k - i = Suc (k - Suc i)" by simp
    with h show ?thesis by simp
  qed (use Cons.prems in simp)
qed simp

lemma first_index_None: "first_index P xs i = None \<longleftrightarrow> (\<forall>x \<in> set xs. \<not> P x)"
  by (induction xs arbitrary: i) auto

definition sample_conf :: store_conf where
  "sample_conf =
     \<lparr>g_fdfs_store_paths = [\<lparr>total_mb = 100, free_mb = 5, path_name = ''/a''\<rparr>, \<lparr>total_mb = 100, free_mb = 50, path_name = ''/b''\<rparr>],
      g_store_path_mode = 0, g_avg_storage_reserved_mb = 10, g_storage_reserved_space = Reserved_MB 10,
      g_file_distribute_path_mode = 0, g_file_distribute_rotate_count = 100, g_subdir_count_per_path = 256\<rparr>"

definition sample_store :: store_state where
  "sample_store = \<lparr>g_store_path_index = 0, g_dist_path_index_high = 1, g_dist_path_index_low = 255,
     g_dist_write_file_count = 99, g_stat_change_count = 0\<rparr>"

text \<open>
  C18: \<open>storage_get_storage_path_index\<close> in round robin mode chooses a store path that has
  its reserved space, and reports \<open>ENOSPC\<close> exactly when no store path has; the next
  search starts at the path after the chosen one, so that the paths take turns.
\<close>

theorem storage_path_index_correct:
  assumes "g_fdfs_store_paths c \<noteq> []" "0 \<le> g_store_path_index s"
    and "g_store_path_mode c \<noteq> FDFS_STORE_PATH_LOAD_BALANCE"
    and "storage_get_storage_path_index c s = (r, i, s')"
  shows "(r = ENOSPC \<and> s' = s \<and> (\<forall>p \<in> set (g_fdfs_store_paths c). \<not> path_has_space c p)) \<or>
    (r = 0 \<and> 0 \<le> i \<and> i < int (length (g_fdfs_store_paths c)) \<and> path_has_space c (g_fdfs_store_paths c ! nat i) \<and>
     0 \<le> g_store_path_index s' \<and>
     (g_store_path_index s \<le> int (length (g_fdfs_store_paths c)) - 1 \<longrightarrow>
        g_store_path_index s' = (i + 1) mod int (length (g_fdfs_store_paths c))))"
proof -
  let ?ps = "g_fdfs_store_paths c"
  have n: "0 < int (length ?ps)" using assms(1) by simp
  have step: "(if k + 1 \<ge> int (length ?ps) then 0 else k + 1) = (k + 1) mod int (length ?ps)"
    if "0 \<le> k" "k < int (length ?ps)" for k
  proof (cases "k + 1 = int (length ?ps)")
    case False
    with that have "(k + 1) mod int (length ?ps) = k + 1" by (intro mod_pos_pos_trivial) simp_all
    with False that show ?thesis by simp
  qed simp
  define j where "j = (if g_store_path_index s \<ge> int (length ?ps) then 0 else g_store_path_index s)"
  have j: "0 \<le> j" "j < int (length ?ps)" using assms(2) n by (auto simp: j_def)
  note unf = assms(4) [unfolded storage_get_storage_path_index_def Let_def, folded j_def]
  consider (here) "path_has_space c (?ps ! nat j)"
    | (full) "\<not> path_has_space c (?ps ! nat j)" "first_index (path_has_space c) ?ps 0 = None"
    | (other) k where "\<not> path_has_space c (?ps ! nat j)" "first_index (path_has_space c) ?ps 0 = Some k"
    by (cases "first_index (path_has_space c) ?ps 0") auto
  then show ?thesis
  proof cases
    case here
    with unf assms(3) have "r = 0" "i = j"
      "s' = s\<lparr>g_store_path_index := (if g_store_path_index s + 1 \<ge> int (length ?ps) then 0 else g_store_path_index s + 1)\<rparr>"
      by auto
    with here j step [of "g_store_path_index s"] assms(2) show ?thesis by (auto simp: j_def)
  next
    case full
    with unf assms(3) first_index_None [of "path_has_space c" ?ps 0] show ?thesis by auto
  next
    case (other k)
    with first_index_SomeD [OF other(2)] have k: "k < length ?ps" "path_has_space c (?ps ! k)" by simp_all
    from other unf assms(3) have "r = 0" "i = int k"
      "s' = s\<lparr>g_store_path_index := (if int k + 1 \<ge> int (length ?ps) then 0 else int k + 1)\<rparr>"
      by auto
    with k step [of "int k"] pos_mod_sign [OF n] show ?thesis by auto
  qed
qed

theorem storage_path_index_correct_witness:
  "fst (storage_get_storage_path_index sample_conf sample_store) = 0 \<and>
   fst (snd (storage_get_storage_path_index sample_conf sample_store)) = 1"
proof -
  let ?r = "storage_get_storage_path_index sample_conf sample_store"
  have sp: "\<not> path_has_space sample_conf (g_fdfs_store_paths sample_conf ! 0)"
    "path_has_space sample_conf (g_fdfs_store_paths sample_conf ! 1)" "length (g_fdfs_store_paths sample_conf) = 2"
    by (simp_all add: sample_conf_def path_has_space_def fdfs_check_reserved_space_path_def)
  have "fst ?r = 0 \<and> 0 \<le> fst (snd ?r) \<and> fst (snd ?r) < 2 \<and> path_has_space sample_conf (g_fdfs_store_paths sample_conf ! nat (fst (snd ?r)))"
    using storage_path_index_correct [of sample_conf sample_store "fst ?r" "fst (snd ?r)" "snd (snd ?r)"] sp
    by (auto simp: sample_conf_def sample_store_def)
  moreover from this sp have "fst (snd ?r) \<noteq> 0" by auto
  ultimately show ?thesis by auto
qed

section \<open>The sub-directories\<close>

text \<open>The position of a state in the cycle of all files of all sub-directories.\<close>

definition dist_position :: "store_conf \<Rightarrow> store_state \<Rightarrow> int" where
  "dist_position c s =
     (g_dist_path_index_high s * g_subdir_count_per_path c + g_dist_path_index_low s) * g_file_distribute_rotate_count c
       + g_dist_write_file_count s"

definition dist_inv :: "store_conf \<Rightarrow> store_state \<Rightarrow> bool" where
  "dist_inv c s \<longleftrightarrow>
     0 \<le> g_dist_path_index_high s \<and> g_dist_path_index_high s < g_subdir_count_per_path c \<and>
     0 \<le> g_dist_path_index_low s \<and> g_dist_path_index_low s < g_subdir_count_per_path c \<and>
     0 \<le> g_dist_write_file_count s \<and> g_dist_write_file_count s < g_file_distribute_rotate_count c"

lemma dist_position_bounds:
  assumes "dist_inv c s"
  shows "0 \<le> dist_position c s"
    "dist_position c s < g_subdir_count_per_path c * g_subdir_count_per_path c * g_file_distribute_rotate_count c"
proof -
  let ?n = "g_subdir_count_per_path c" and ?r = "g_file_distribute_rotate_count c"
  let ?d = "g_dist_path_index_high s * ?n + g_dist_path_index_low s"
  have h: "0 \<le> ?d" "?d + 1 \<le> ?n * ?n"
  proof -
    have "g_dist_path_index_high s * ?n + ?n \<le> ?n * ?n"
      using assms mult_right_mono [of "g_dist_path_index_high s + 1" ?n ?n] by (simp add: dist_inv_def algebra_simps)
    then show "?d + 1 \<le> ?n * ?n" using assms by (simp add: dist_inv_def)
    show "0 \<le> ?d" using assms by (simp add: dist_inv_def)
  qed
  show "0 \<le> dist_position c s" using h(1) assms by (simp add: dist_position_def dist_inv_def)
  have "?d * ?r + ?r \<le> ?n * ?n * ?r"
    using mult_right_mono [OF h(2), of ?r] assms by (simp add: dist_inv_def algebra_simps)
  then show "dist_position c s < ?n * ?n * ?r" using assms by (simp add: dist_position_def dist_inv_def)
qed

lemma store_path_inv:
  assumes "dist_inv c s" "g_file_distribute_path_mode c = FDFS_FILE_DIST_PATH_ROUND_ROBIN"
    and "storage_get_store_path F c filename s = (high, low, s')"
  shows "dist_inv c s'" "high = g_dist_path_index_high s" "low = g_dist_path_index_low s"
  using assms(3) [unfolded storage_get_store_path_def Let_def, simplified assms(2), simplified] assms(1)
  by (auto simp: dist_inv_def split: if_splits)

lemma store_path_position:
  assumes "dist_inv c s" "g_file_distribute_path_mode c = FDFS_FILE_DIST_PATH_ROUND_ROBIN"
    and "storage_get_store_path F c filename s = (high, low, s')"
  shows "dist_position c s' =
    (if dist_position c s + 1 = g_subdir_count_per_path c * g_subdir_count_per_path c * g_file_distribute_rotate_count c
     then 0 else dist_position c s + 1)"
proof -
  let ?n = "g_subdir_count_per_path c" and ?r = "g_file_distribute_rotate_count c"
  let ?h = "g_dist_path_index_high s" and ?l = "g_dist_path_index_low s" and ?w = "g_dist_write_file_count s"
  have b: "0 \<le> ?h" "?h < ?n" "0 \<le> ?l" "?l < ?n" "0 \<le> ?w" "?w < ?r" using assms(1) by (auto simp: dist_inv_def)
  note unf = assms(3) [unfolded storage_get_store_path_def Let_def, simplified assms(2), simplified]
  note inv' = store_path_inv(1) [OF assms]
  show "dist_position c s' = (if dist_position c s + 1 = ?n * ?n * ?r then 0 else dist_position c s + 1)"
  proof (cases "?w + 1 \<ge> ?r")
    case False
    then have "s' = s\<lparr>g_dist_write_file_count := ?w + 1\<rparr>" using unf by auto
    then have "dist_position c s' = dist_position c s + 1" by (simp add: dist_position_def)
    moreover have "dist_position c s' < ?n * ?n * ?r" by (rule dist_position_bounds(2) [OF inv'])
    ultimately show ?thesis by simp
  next
    case True
    then have w: "?w + 1 = ?r" using b by simp
    show ?thesis
    proof (cases "?l + 1 \<ge> ?n \<and> ?h + 1 \<ge> ?n")
      case True
      then have e: "?l + 1 = ?n" "?h + 1 = ?n" using b by auto
      have "dist_position c s + 1 = (?h * ?n + ?l) * ?r + ?r" using w by (simp add: dist_position_def)
      also have "\<dots> = (?h * ?n + (?l + 1)) * ?r" by (simp add: algebra_simps)
      also have "\<dots> = (?h + 1) * ?n * ?r" unfolding e(1) by (simp add: algebra_simps)
      finally have "dist_position c s + 1 = ?n * ?n * ?r" unfolding e(2) .
      moreover have "dist_position c s' = 0" using unf w e by (auto simp: dist_position_def)
      ultimately show ?thesis by simp
    next
      case False
      have "dist_position c s' = dist_position c s + 1"
      proof (cases "?l + 1 \<ge> ?n")
        case True
        then have l: "?l + 1 = ?n" using b by simp
        with unf w False b have "g_dist_path_index_high s' = ?h + 1" "g_dist_path_index_low s' = 0" "g_dist_write_file_count s' = 0"
          by auto
        then have "dist_position c s' = (?h * ?n + (?l + 1)) * ?r" unfolding l by (simp add: dist_position_def algebra_simps)
        then show ?thesis using w by (simp add: dist_position_def algebra_simps)
      next
        case False
        with unf w have "g_dist_path_index_high s' = ?h" "g_dist_path_index_low s' = ?l + 1" "g_dist_write_file_count s' = 0"
          by auto
        then show ?thesis using w by (simp add: dist_position_def algebra_simps)
      qed
      moreover have "dist_position c s' < ?n * ?n * ?r" by (rule dist_position_bounds(2) [OF inv'])
      ultimately show ?thesis by simp
    qed
  qed
qed

text \<open>
  C19: in round robin mode \<open>storage_get_store_path\<close> is a counter. It hands out the current
  sub-directories, always valid ones, and moves on by one place in the cycle of
  (sub-directories squared) times (files per directory) places: a directory gets its full
  count of files before the next is used, the second level changes before the first, and
  after the whole cycle it starts again.
\<close>

theorem storage_store_path_is_counter:
  assumes "dist_inv c s" "g_file_distribute_path_mode c = FDFS_FILE_DIST_PATH_ROUND_ROBIN"
    and "storage_get_store_path F c filename s = (high, low, s')"
  shows "high = g_dist_path_index_high s \<and> low = g_dist_path_index_low s \<and> dist_inv c s' \<and>
    dist_position c s' = (dist_position c s + 1) mod
      (g_subdir_count_per_path c * g_subdir_count_per_path c * g_file_distribute_rotate_count c)"
proof -
  let ?m = "g_subdir_count_per_path c * g_subdir_count_per_path c * g_file_distribute_rotate_count c"
  have "dist_position c s' = (dist_position c s + 1) mod ?m"
  proof (cases "dist_position c s + 1 = ?m")
    case False
    then have "(dist_position c s + 1) mod ?m = dist_position c s + 1"
      using dist_position_bounds [OF assms(1)] by (intro mod_pos_pos_trivial) simp_all
    with False store_path_position [OF assms] show ?thesis by simp
  qed (use store_path_position [OF assms] in simp)
  with store_path_inv [OF assms] show ?thesis by blast
qed

theorem storage_store_path_is_counter_witness:
  "dist_position sample_conf (snd (snd (storage_get_store_path fc_impl sample_conf ''x'' sample_store))) = 51200"
proof -
  let ?r = "storage_get_store_path fc_impl sample_conf ''x'' sample_store"
  have "dist_inv sample_conf sample_store" by (simp add: dist_inv_def sample_conf_def sample_store_def)
  from storage_store_path_is_counter [OF this, of fc_impl "''x''" "fst ?r" "fst (snd ?r)" "snd (snd ?r)"]
  have "dist_position sample_conf (snd (snd ?r)) = (dist_position sample_conf sample_store + 1) mod
      (g_subdir_count_per_path sample_conf * g_subdir_count_per_path sample_conf * g_file_distribute_rotate_count sample_conf)"
    by (simp add: sample_conf_def)
  then show ?thesis by (simp add: dist_position_def sample_conf_def sample_store_def)
qed

section \<open>The file name\<close>

lemma combine_rand_facts:
  assumes "0 \<le> file_size" "file_size < 2 ^ 32"
  shows "in_i64 (COMBINE_RAND_FILE_SIZE rnd file_size) \<and> COMBINE_RAND_FILE_SIZE rnd file_size < 0 \<and>
    FDFS_TRUNK_FILE_TRUE_SIZE (COMBINE_RAND_FILE_SIZE rnd file_size) = file_size \<and>
    \<not> IS_TRUNK_FILE (COMBINE_RAND_FILE_SIZE rnd file_size)"
proof -
  define x where "x = rnd mod 2 ^ 23"
  have x: "0 \<le> x" "x < 2 ^ 23" by (simp_all add: x_def)
  have e: "COMBINE_RAND_FILE_SIZE rnd file_size = (x * 2 ^ 32 + file_size) + (- 16) * 2 ^ 59"
    by (simp add: COMBINE_RAND_FILE_SIZE_def x_def)
  have y: "0 \<le> x * 2 ^ 32 + file_size" "x * 2 ^ 32 + file_size < 2 ^ 59" using x assms by simp_all
  have "((x * 2 ^ 32 + file_size) + (- 16) * 2 ^ 59) div 2 ^ 59 = (- 16) + (x * 2 ^ 32 + file_size) div 2 ^ 59"
    by (rule div_mult_self1) simp
  also have "\<dots> = - 16" using y by (simp add: div_pos_pos_trivial)
  finally have "((x * 2 ^ 32 + file_size) + (- 16) * 2 ^ 59) div 2 ^ 59 = - 16" .
  then have mark: "\<not> IS_TRUNK_FILE (COMBINE_RAND_FILE_SIZE rnd file_size)" unfolding IS_TRUNK_FILE_def e by simp
  have low: "COMBINE_RAND_FILE_SIZE rnd file_size = file_size + (x - 2 ^ 31) * 2 ^ 32"
    by (simp add: COMBINE_RAND_FILE_SIZE_def x_def)
  have "FDFS_TRUNK_FILE_TRUE_SIZE (COMBINE_RAND_FILE_SIZE rnd file_size) = file_size"
    unfolding FDFS_TRUNK_FILE_TRUE_SIZE_def low mod_mult_self1 using assms by simp
  with mark show ?thesis unfolding e in_i64_def using y x by simp
qed

text \<open>
  C21: the random mask of a small file's size comes off again. For a size below \<open>2^32\<close> the
  masked size is a negative 64-bit number whose low half is the size, and the mask never
  sets the mark bit of files inside trunk files, whatever \<open>rand()\<close> returned.
\<close>

theorem combine_rand_file_size_unmasks:
  assumes "0 \<le> file_size" "file_size < 2 ^ 32"
  shows "in_i64 (COMBINE_RAND_FILE_SIZE rnd file_size) \<and> COMBINE_RAND_FILE_SIZE rnd file_size < 0 \<and>
    FDFS_TRUNK_FILE_TRUE_SIZE (COMBINE_RAND_FILE_SIZE rnd file_size) = file_size \<and>
    \<not> IS_TRUNK_FILE (COMBINE_RAND_FILE_SIZE rnd file_size)"
  using assms by (rule combine_rand_facts)

theorem combine_rand_file_size_unmasks_witness:
  "FDFS_TRUNK_FILE_TRUE_SIZE (COMBINE_RAND_FILE_SIZE 123456789 4096) = 4096"
  using combine_rand_file_size_unmasks [of 4096 123456789] by simp

lemma fmt_base_16_length: "n < 256 \<Longrightarrow> length (fmt_base 16 n) \<le> 2 \<and> 0 < length (fmt_base 16 n)"
  using less_mult_imp_div_less [of n 16 16]
  by (simp add: fmt_base.simps [of 16 n] fmt_base.simps [of 16 "n div 16"])

lemma fmt_02X_length: "n < 256 \<Longrightarrow> length (fmt_02X n) = 2"
  using fmt_base_16_length [of n] by (auto simp: fmt_02X_def pad0_def)

text \<open>The layout of a generated name.\<close>

lemma storage_gen_filename_layout:
  assumes F: "fc_ok F" and ext: "length ext = 7" and gen: "storage_gen_filename F c sid rnd file_size crc32 ext ts u s = (name, u', s')"
    and sub: "up_sub_path_high u < 256" "up_sub_path_low u < 256"
  defines "masked \<equiv> if file_size div 2 ^ 32 \<noteq> 0 then file_size else COMBINE_RAND_FILE_SIZE rnd file_size"
  shows "length name = 40"
    "base64_decode_auto F (take 27 (drop 6 name)) = int2buff F sid @ int2buff F ts @ long2buff F masked @ int2buff F crc32"
proof -
  let ?buff = "int2buff F sid @ int2buff F ts @ long2buff F masked @ int2buff F crc32"
  have sub': "up_sub_path_high u' < 256" "up_sub_path_low u' < 256"
    using gen sub by (auto simp: storage_gen_filename_def Let_def split: prod.splits if_splits)
  have name: "name = fmt_02X (up_sub_path_high u') @ ''/'' @ fmt_02X (up_sub_path_low u') @ ''/'' @ base64_encode_ex F ?buff @ ext"
    using ext gen by (auto simp: storage_gen_filename_def masked_def Let_def split: prod.splits if_splits)
  have b: "is_bytes ?buff" "length ?buff = 20" using fc_int2buff [OF F] by simp_all
  have len: "length (base64_encode_ex F ?buff) = 27"
    unfolding fc_base64(2) [OF F b(1)] b(2) by (simp add: base64_len_def)
  have "take 27 (drop 6 name) = base64_encode_ex F ?buff"
    using sub' len unfolding name by (simp add: fmt_02X_length)
  then show "base64_decode_auto F (take 27 (drop 6 name)) = ?buff" using fc_base64(1) [OF F b(1)] by simp
  show "length name = 40" using sub' len ext unfolding name by (simp add: fmt_02X_length)
qed





end
