(* ===== verification/Trunk_Shared.thy ===== *)
theory Trunk_Shared
  imports Trunk_Types Store_Path
begin

text \<open>
  Names, headers and contents of files inside trunk files
  (\<open>storage/trunk_mgr/trunk_shared.c\<close>, \<open>trunk_file_delete\<close> of \<open>trunk_mem.c\<close>, the header
  functions of \<open>storage/storage_dio.c\<close>, the trunk branch of
  \<open>storage_service_upload_file_done\<close>). A small file is stored in a block of a trunk file:
  a header, then the content. Its name carries everything needed to find it: sub-directories,
  size, checksum and time stamp, and the base64 text of the block.

  A disk maps file names to contents. \<open>open\<close>, \<open>read\<close> and \<open>write\<close> can fail: their outcomes
  come from an \<open>ext_tape\<close>, except that a file that does not exist cannot be opened and that
  reading past the end is short.
\<close>

section \<open>Constants\<close>

abbreviation (input) FDFS_LOGIC_FILE_PATH_LEN :: nat where "FDFS_LOGIC_FILE_PATH_LEN \<equiv> 10"
abbreviation (input) FDFS_TRUE_FILE_PATH_LEN :: nat where "FDFS_TRUE_FILE_PATH_LEN \<equiv> 6"
abbreviation (input) FDFS_FILENAME_BASE64_LENGTH :: nat where "FDFS_FILENAME_BASE64_LENGTH \<equiv> 27"
abbreviation (input) FDFS_TRUNK_FILE_INFO_LEN :: nat where "FDFS_TRUNK_FILE_INFO_LEN \<equiv> 16"
abbreviation (input) FDFS_TRUNK_FILENAME_LENGTH :: nat where "FDFS_TRUNK_FILENAME_LENGTH \<equiv> 56"
abbreviation (input) FDFS_TRUNK_LOGIC_FILENAME_LENGTH :: nat where "FDFS_TRUNK_LOGIC_FILENAME_LENGTH \<equiv> 60"
abbreviation (input) FDFS_TRUNK_FILE_HEADER_SIZE :: nat where "FDFS_TRUNK_FILE_HEADER_SIZE \<equiv> 24"
abbreviation (input) FDFS_TRUNK_FILE_TYPE_NONE :: nat where "FDFS_TRUNK_FILE_TYPE_NONE \<equiv> 0"
abbreviation (input) FDFS_TRUNK_FILE_TYPE_REGULAR :: nat where "FDFS_TRUNK_FILE_TYPE_REGULAR \<equiv> 70"
abbreviation (input) FDFS_TRUNK_FILE_TYPE_LINK :: nat where "FDFS_TRUNK_FILE_TYPE_LINK \<equiv> 76"
abbreviation (input) FDFS_STAT_FUNC_STAT :: int where "FDFS_STAT_FUNC_STAT \<equiv> 0"
abbreviation (input) FDFS_STAT_FUNC_LSTAT :: int where "FDFS_STAT_FUNC_LSTAT \<equiv> 1"
abbreviation (input) g_zero_buffer_length :: nat where "g_zero_buffer_length \<equiv> 262144"

section \<open>Hexadecimal numbers\<close>

text \<open>
  \<open>strtol(s, &end, 16)\<close>: white space, a sign, an optional \<open>0x\<close> before a digit, digits; the
  value (limited to \<open>long\<close>) and the rest. Without digits the value is \<open>0\<close> and the rest is
  the whole text.
\<close>

definition hex_digit :: "char \<Rightarrow> nat option" where
  "hex_digit c = (let n = of_char c :: nat in
     if 48 \<le> n \<and> n \<le> 57 then Some (n - 48)
     else if 65 \<le> n \<and> n \<le> 70 then Some (n - 55)
     else if 97 \<le> n \<and> n \<le> 102 then Some (n - 87) else None)"

fun hex_digits :: "int \<Rightarrow> string \<Rightarrow> int \<times> string" where
  "hex_digits acc [] = (acc, [])"
| "hex_digits acc (c # cs) =
     (case hex_digit c of Some d \<Rightarrow> hex_digits (16 * acc + int d) cs | None \<Rightarrow> (acc, c # cs))"

definition starts_hex :: "string \<Rightarrow> bool" where
  "starts_hex s = (case s of [] \<Rightarrow> False | c # _ \<Rightarrow> hex_digit c \<noteq> None)"

definition strtol16 :: "string \<Rightarrow> int \<times> string" where
  "strtol16 s =
     (let t = skip_space s;
          (sg, u) = (case t of
             [] \<Rightarrow> (1, [])
           | c # cs \<Rightarrow> if c = CHR ''-'' then (- 1, cs) else if c = CHR ''+'' then (1, cs) else (1, t));
          v = (if take 2 u \<in> {''0x'', ''0X''} \<and> starts_hex (drop 2 u) then drop 2 u else u)
      in if starts_hex v then
           (case hex_digits 0 v of (n, rest) \<Rightarrow> (max (- (2 ^ 63)) (min (2 ^ 63 - 1) (sg * n)), rest))
         else (0, s))"

section \<open>Splitting a logic file name\<close>

text \<open>
  The result, \<open>*filename_len\<close>, \<open>true_filename\<close> and \<open>store_path_index\<close>; \<open>path_count\<close> is
  \<open>Some\<close> the number of store paths when the index is checked. The \<open>long\<close> of \<open>strtol\<close> on two
  characters fits \<open>int\<close>.
\<close>

definition SPLIT_FILENAME_BODY :: "string \<Rightarrow> nat \<Rightarrow> nat option \<Rightarrow> int \<times> nat \<times> string \<times> int" where
  "SPLIT_FILENAME_BODY logic_filename filename_len path_count =
     (if filename_len \<le> FDFS_LOGIC_FILE_PATH_LEN then (EINVAL, filename_len, [], 0)
      else if logic_filename ! 0 \<noteq> CHR ''M'' then (0, filename_len, take filename_len logic_filename, 0)
      else if logic_filename ! 3 \<noteq> CHR ''/'' then (EINVAL, filename_len, [], 0)
      else
        (case strtol16 (take 2 (drop 1 logic_filename)) of
           (index, rest) \<Rightarrow>
             if rest \<noteq> [] then (EINVAL, filename_len, [], index)
             else if (case path_count of None \<Rightarrow> False
                      | Some n \<Rightarrow> index < 0 \<or> index \<ge> int n)
             then (EINVAL, filename_len, [], index)
             else (0, filename_len - 4, take (filename_len - 4) (drop 4 logic_filename), index)))"

text \<open>The result, \<open>*filename_len\<close>, \<open>true_filename\<close> and the store path.\<close>

definition storage_split_filename ::
    "FDFSStorePathInfo list \<Rightarrow> string \<Rightarrow> nat \<Rightarrow> int \<times> nat \<times> string \<times> string" where
  "storage_split_filename paths logic_filename filename_len =
     (case SPLIT_FILENAME_BODY logic_filename filename_len (Some (length paths)) of
        (r, len, true_filename, i) \<Rightarrow>
          if r \<noteq> 0 then (r, len, true_filename, []) else (0, len, true_filename, path_name (paths ! nat i)))"

definition storage_split_filename_ex ::
    "FDFSStorePathInfo list \<Rightarrow> string \<Rightarrow> nat \<Rightarrow> int \<times> nat \<times> string \<times> int" where
  "storage_split_filename_ex paths logic_filename filename_len =
     SPLIT_FILENAME_BODY logic_filename filename_len (Some (length paths))"

definition storage_split_filename_no_check :: "string \<Rightarrow> nat \<Rightarrow> int \<times> nat \<times> string \<times> int" where
  "storage_split_filename_no_check logic_filename filename_len = SPLIT_FILENAME_BODY logic_filename filename_len None"

section \<open>Headers and block information as bytes\<close>

text \<open>\<open>hd_ext_name\<close> is \<open>formatted_ext_name\<close>, the array of eight characters, as bytes.\<close>

record FDFSTrunkHeader =
  hd_file_type :: nat
  hd_ext_name :: bytes
  hd_alloc_size :: int
  hd_file_size :: int
  hd_crc32 :: int
  hd_mtime :: int

definition trunk_pack_header :: "fc_api \<Rightarrow> FDFSTrunkHeader \<Rightarrow> bytes" where
  "trunk_pack_header F h =
     hd_file_type h # int2buff F (hd_alloc_size h) @ int2buff F (hd_file_size h) @ int2buff F (hd_crc32 h) @ int2buff F (hd_mtime h) @
     take (FDFS_FILE_EXT_NAME_MAX_LEN + 1) (hd_ext_name h)"

definition trunk_unpack_header :: "fc_api \<Rightarrow> bytes \<Rightarrow> FDFSTrunkHeader" where
  "trunk_unpack_header F buff =
     \<lparr>hd_file_type = buff ! 0, hd_ext_name = take (FDFS_FILE_EXT_NAME_MAX_LEN + 1) (drop 17 buff) @ [0],
      hd_alloc_size = buff2int F (take 4 (drop 1 buff)), hd_file_size = buff2int F (take 4 (drop 5 buff)),
      hd_crc32 = buff2int F (take 4 (drop 9 buff)), hd_mtime = buff2int F (take 4 (drop 13 buff))\<rparr>"

definition trunk_file_info_encode :: "fc_api \<Rightarrow> FDFSTrunkFileInfo \<Rightarrow> string" where
  "trunk_file_info_encode F f =
     base64_encode_ex F (int2buff F (trunk_id f) @ int2buff F (trunk_offset f) @ int2buff F (trunk_size f))"

definition trunk_file_info_decode :: "fc_api \<Rightarrow> string \<Rightarrow> FDFSTrunkFileInfo" where
  "trunk_file_info_decode F str =
     (let buff = base64_decode_auto F (take FDFS_TRUNK_FILE_INFO_LEN str) in
      \<lparr>trunk_id = buff2int F (take 4 buff), trunk_offset = buff2int F (take 4 (drop 4 buff)),
       trunk_size = buff2int F (take 4 (drop 8 buff))\<rparr>)"

definition trunk_get_full_filename_ex :: "FDFSStorePathInfo list \<Rightarrow> FDFSTrunkFullInfo \<Rightarrow> string" where
  "trunk_get_full_filename_ex paths pTrunkInfo =
     path_name (paths ! blk_path pTrunkInfo) @ ''/data/'' @
     fmt_02X (sub_path_high (trunk_path pTrunkInfo)) @ ''/'' @ fmt_02X (sub_path_low (trunk_path pTrunkInfo)) @ ''/'' @
     fmt_06u (trunk_id (trunk_file pTrunkInfo))"

text \<open>A buffer that was cleared before the decoded bytes were put into it.\<close>

definition zero_filled :: "nat \<Rightarrow> bytes \<Rightarrow> bytes" where
  "zero_filled n bs = take n (bs @ replicate n 0)"

text \<open>\<open>fdfs_is_trunk_file\<close>, and \<open>fdfs_decode_trunk_info\<close> with the block on success.\<close>

definition fdfs_is_trunk_file :: "fc_api \<Rightarrow> string \<Rightarrow> nat \<Rightarrow> bool" where
  "fdfs_is_trunk_file F remote_filename filename_len =
     (if filename_len \<noteq> FDFS_TRUNK_LOGIC_FILENAME_LENGTH then False
      else
        let buff = zero_filled 64 (base64_decode_auto F
              (take FDFS_FILENAME_BASE64_LENGTH (drop FDFS_LOGIC_FILE_PATH_LEN remote_filename)))
        in IS_TRUNK_FILE (buff2long F (take 8 (drop 8 buff))))"

definition name_block :: "fc_api \<Rightarrow> int \<Rightarrow> string \<Rightarrow> FDFSTrunkFullInfo \<Rightarrow> FDFSTrunkFullInfo" where
  "name_block F index true_filename pTrunkInfo =
     pTrunkInfo\<lparr>trunk_path :=
         \<lparr>store_path_index = to_u8 index, sub_path_high = to_u8 (fst (strtol16 true_filename)),
          sub_path_low = to_u8 (fst (strtol16 (drop 3 true_filename)))\<rparr>,
       trunk_file := trunk_file_info_decode F (drop (FDFS_TRUE_FILE_PATH_LEN + FDFS_FILENAME_BASE64_LENGTH) true_filename)\<rparr>"

definition fdfs_decode_trunk_info ::
    "fc_api \<Rightarrow> int \<Rightarrow> string \<Rightarrow> nat \<Rightarrow> FDFSTrunkFullInfo \<Rightarrow> int \<times> FDFSTrunkFullInfo" where
  "fdfs_decode_trunk_info F index true_filename filename_len pTrunkInfo =
     (if filename_len \<noteq> FDFS_TRUNK_FILENAME_LENGTH then (EINVAL, pTrunkInfo)
      else (0, name_block F index true_filename pTrunkInfo))"

section \<open>Reading files\<close>

type_synonym disk = "string \<Rightarrow> bytes option"

datatype file_mode = S_IFREG | S_IFLNK

record stat_t =
  st_mode :: file_mode
  st_size :: int
  st_mtime :: int

text \<open>The result, the content of the file and the outcomes left.\<close>

definition disk_open :: "disk \<Rightarrow> string \<Rightarrow> ext_tape \<Rightarrow> int \<times> bytes \<times> ext_tape" where
  "disk_open d name tp =
     (case d name of
        None \<Rightarrow> (ENOENT, [], tp)
      | Some c \<Rightarrow> (case ext_call EIO tp of (r, tp') \<Rightarrow> (r, c, tp')))"

text \<open>\<open>fc_safe_read\<close> of \<open>n\<close> bytes at a position: what was read, and \<open>errno\<close>.\<close>

definition safe_pread :: "bytes \<Rightarrow> nat \<Rightarrow> nat \<Rightarrow> ext_tape \<Rightarrow> bytes \<times> int \<times> ext_tape" where
  "safe_pread c off n tp =
     (case ext_pop tp of
        (ExtOk, tp') \<Rightarrow> (take n (drop off c), 0, tp')
      | (ExtFail e, tp') \<Rightarrow> ([], e, tp')
      | (ExtShort k e, tp') \<Rightarrow> (take (min k (n - 1)) (drop off c), e, tp'))"

text \<open>
  \<open>lstat\<close> of a file by its name. \<open>fstat\<close> is the system call \<open>stat\<close> or \<open>lstat\<close> for a
  file outside trunk files (\<open>Inl\<close> the \<open>errno\<close>). The result, \<open>*pStat\<close> once it was set,
  \<open>*pTrunkInfo\<close>, \<open>*pTrunkHeader\<close>, and on success the open trunk file with its position.
\<close>

type_synonym fstat_fun = "int \<Rightarrow> string \<Rightarrow> int + stat_t"

type_synonym lstat_result =
  "int \<times> stat_t option \<times> FDFSTrunkFullInfo \<times> FDFSTrunkHeader \<times> (bytes \<times> nat) option \<times> ext_tape"

definition to_i32 :: "int \<Rightarrow> int" where
  "to_i32 n = (n + 2 ^ 31) mod 2 ^ 32 - 2 ^ 31"

definition name_header :: "fc_api \<Rightarrow> string \<Rightarrow> nat \<Rightarrow> bytes \<Rightarrow> int \<Rightarrow> FDFSTrunkHeader \<Rightarrow> FDFSTrunkHeader" where
  "name_header F true_filename filename_len buff alloc h =
     h\<lparr>hd_file_size := to_i32 (FDFS_TRUNK_FILE_TRUE_SIZE (buff2long F (take 8 (drop 8 buff)))),
       hd_mtime := buff2int F (take 4 (drop 4 buff)), hd_crc32 := buff2int F (take 4 (drop 16 buff)),
       hd_ext_name := map of_char (take 7 (drop (filename_len - (FDFS_FILE_EXT_NAME_MAX_LEN + 1)) true_filename)) @ [0],
       hd_alloc_size := alloc\<rparr>"

definition trunk_file_do_lstat_func_ex ::
    "fc_api \<Rightarrow> FDFSStorePathInfo list \<Rightarrow> fstat_fun \<Rightarrow> disk \<Rightarrow> int \<Rightarrow> string \<Rightarrow> nat \<Rightarrow> int
     \<Rightarrow> FDFSTrunkFullInfo \<Rightarrow> FDFSTrunkHeader \<Rightarrow> ext_tape \<Rightarrow> lstat_result" where
  "trunk_file_do_lstat_func_ex F paths fstat d index true_filename filename_len stat_func pTrunkInfo pTrunkHeader tp =
     (let info0 = pTrunkInfo\<lparr>trunk_file := (trunk_file pTrunkInfo)\<lparr>trunk_id := 0\<rparr>\<rparr>;
          plain =
            (case fstat stat_func (path_name (paths ! nat index) @ ''/data/'' @ true_filename) of
               Inl e \<Rightarrow> (errno_or e ENOENT, None, info0, pTrunkHeader, None, tp)
             | Inr st \<Rightarrow> (0, Some st, info0, pTrunkHeader, None, tp))
      in if filename_len \<noteq> FDFS_TRUNK_FILENAME_LENGTH then plain
         else
           let buff = zero_filled 128 (base64_decode_auto F
                 (take FDFS_FILENAME_BASE64_LENGTH (drop FDFS_TRUE_FILE_PATH_LEN true_filename)))
           in if \<not> IS_TRUNK_FILE (buff2long F (take 8 (drop 8 buff))) then plain
              else
                let info = name_block F index true_filename info0;
                    h = name_header F true_filename filename_len buff (blk_size info) pTrunkHeader
                in (case disk_open d (trunk_get_full_filename_ex paths info) tp of
                      (r, c, tp1) \<Rightarrow>
                        if r \<noteq> 0 then (r, None, info, h, None, tp1)
                        else if blk_off info < 0 then (EINVAL, None, info, h, None, tp1)
                        else
                          (case safe_pread c (nat (blk_off info)) FDFS_TRUNK_FILE_HEADER_SIZE tp1 of
                             (bs, e, tp2) \<Rightarrow>
                               if length bs \<noteq> FDFS_TRUNK_FILE_HEADER_SIZE then (errno_or e EINVAL, None, info, h, None, tp2)
                               else
                                 let h = h\<lparr>hd_file_type := bs ! 0\<rparr> in
                                 if bs ! 0 \<noteq> FDFS_TRUNK_FILE_TYPE_REGULAR \<and> bs ! 0 \<noteq> FDFS_TRUNK_FILE_TYPE_LINK
                                 then (ENOENT, None, info, h, None, tp2)
                                 else if trunk_pack_header F h \<noteq> bs then (ENOENT, None, info, h, None, tp2)
                                 else
                                   (0, Some \<lparr>st_mode = (if bs ! 0 = FDFS_TRUNK_FILE_TYPE_REGULAR then S_IFREG else S_IFLNK),
                                        st_size = hd_file_size h, st_mtime = hd_mtime h\<rparr>,
                                    info, h, Some (c, nat (blk_off info) + FDFS_TRUNK_FILE_HEADER_SIZE), tp2))))"

text \<open>The content of a file in a block; \<open>fd\<close> is the open trunk file, if there is one.\<close>

definition trunk_file_get_content_ex ::
    "FDFSStorePathInfo list \<Rightarrow> disk \<Rightarrow> FDFSTrunkFullInfo \<Rightarrow> int \<Rightarrow> (bytes \<times> nat) option \<Rightarrow> int \<Rightarrow> ext_tape
     \<Rightarrow> int \<times> bytes \<times> ext_tape" where
  "trunk_file_get_content_ex paths d pTrunkInfo fsize fd buff_size tp =
     (if fsize > buff_size then (ENOSPC, [], tp)
      else
        let (r, c, pos, tp1) =
          (case fd of
             Some (c, pos) \<Rightarrow> (0, c, int pos, tp)
           | None \<Rightarrow>
               (case disk_open d (trunk_get_full_filename_ex paths pTrunkInfo) tp of
                  (r, c, tp1) \<Rightarrow> (r, c, blk_off pTrunkInfo + int FDFS_TRUNK_FILE_HEADER_SIZE, tp1)))
        in if r \<noteq> 0 then (r, [], tp1)
           else if pos < 0 then (EINVAL, [], tp1)
           else
             (case safe_pread c (nat pos) (nat fsize) tp1 of
                (bs, e, tp2) \<Rightarrow> if int (length bs) = fsize then (0, bs, tp2) else (errno_or e EINVAL, bs, tp2)))"

text \<open>
  \<open>stat\<close> follows a link that is stored in a block once. \<open>with_fd\<close> says whether the caller
  passes a place for the descriptor; the content is then read through it.
\<close>

definition trunk_file_stat_func_ex ::
    "fc_api \<Rightarrow> FDFSStorePathInfo list \<Rightarrow> fstat_fun \<Rightarrow> disk \<Rightarrow> int \<Rightarrow> string \<Rightarrow> nat \<Rightarrow> int \<Rightarrow> bool
     \<Rightarrow> FDFSTrunkFullInfo \<Rightarrow> FDFSTrunkHeader \<Rightarrow> ext_tape \<Rightarrow> lstat_result" where
  "trunk_file_stat_func_ex F paths fstat d index true_filename filename_len stat_func with_fd pTrunkInfo pTrunkHeader tp =
     (case trunk_file_do_lstat_func_ex F paths fstat d index true_filename filename_len stat_func pTrunkInfo pTrunkHeader tp of
        (r, st, info, h, fd, tp1) \<Rightarrow>
          if r \<noteq> 0 then (r, st, info, h, None, tp1)
          else if \<not> (stat_func = FDFS_STAT_FUNC_STAT \<and> trunk_id (trunk_file info) > 0 \<and>
                     (case st of Some x \<Rightarrow> st_mode x = S_IFLNK | None \<Rightarrow> False))
          then (0, st, info, h, (if with_fd then fd else None), tp1)
          else
            (case trunk_file_get_content_ex paths d info (st_size (the st)) (if with_fd then fd else None) 127 tp1 of
               (r, bs, tp2) \<Rightarrow>
                 if r \<noteq> 0 then (r, st, info, h, None, tp2)
                 else
                   (case storage_split_filename_no_check (map char_of bs) (length bs) of
                      (r, len, src_true_filename, src_index) \<Rightarrow>
                        if r \<noteq> 0 then (r, st, info, h, None, tp2)
                        else if src_index < 0 \<or> src_index \<ge> int (length paths) then (EINVAL, st, info, h, None, tp2)
                        else
                          (case trunk_file_do_lstat_func_ex F paths fstat d src_index src_true_filename len stat_func info h tp2 of
                             (r, st, info, h, fd, tp3) \<Rightarrow>
                               (r, st, info, h, (if with_fd \<and> r = 0 then fd else None), tp3)))))"

section \<open>Writing into a block\<close>

text \<open>The file after \<open>bs\<close> was written at a position; a hole before it reads as zeros.\<close>

definition write_at :: "bytes \<Rightarrow> nat \<Rightarrow> bytes \<Rightarrow> bytes" where
  "write_at c off bs = take off (c @ replicate (off - length c) 0) @ bs @ drop (off + length bs) c"

definition safe_pwrite :: "bytes \<Rightarrow> nat \<Rightarrow> bytes \<Rightarrow> ext_tape \<Rightarrow> bool \<times> int \<times> bytes \<times> ext_tape" where
  "safe_pwrite c off bs tp =
     (case ext_pop tp of
        (ExtOk, tp') \<Rightarrow> (True, 0, write_at c off bs, tp')
      | (ExtFail e, tp') \<Rightarrow> (False, e, c, tp')
      | (ExtShort n e, tp') \<Rightarrow> (False, e, write_at c off (take (min n (length bs - 1)) bs), tp'))"

text \<open>
  The part of \<open>StorageFileContext\<close> the header functions use: whether \<open>file_type\<close> has
  \<open>_FILE_TYPE_LINK\<close>, the block, the range of the content in the trunk file, the checksum,
  the start time and the formatted extension.
\<close>

record StorageFileContext =
  ctx_is_link :: bool
  ctx_trunk_info :: FDFSTrunkFullInfo
  ctx_start :: int
  ctx_end :: int
  ctx_crc32 :: int
  ctx_start_time :: int
  ctx_ext_name :: string

definition chunk_header :: "StorageFileContext \<Rightarrow> FDFSTrunkHeader" where
  "chunk_header ctx =
     \<lparr>hd_file_type = (if ctx_is_link ctx then FDFS_TRUNK_FILE_TYPE_LINK else FDFS_TRUNK_FILE_TYPE_REGULAR),
      hd_ext_name = zero_filled 8 (take 7 (map of_char (ctx_ext_name ctx))),
      hd_alloc_size = blk_size (ctx_trunk_info ctx), hd_file_size = to_i32 (ctx_end ctx - ctx_start ctx),
      hd_crc32 = ctx_crc32 ctx, hd_mtime = ctx_start_time ctx\<rparr>"

text \<open>The result and the content of the open trunk file.\<close>

definition dio_write_chunk_header ::
    "fc_api \<Rightarrow> StorageFileContext \<Rightarrow> bytes \<Rightarrow> ext_tape \<Rightarrow> int \<times> bytes \<times> ext_tape" where
  "dio_write_chunk_header F ctx c tp =
     (let pos = ctx_start ctx - int FDFS_TRUNK_FILE_HEADER_SIZE in
      if pos < 0 then (EINVAL, c, tp)
      else
        (case safe_pwrite c (nat pos) (trunk_pack_header F (chunk_header ctx)) tp of
           (ok, e, c', tp') \<Rightarrow> if \<not> ok then (errno_or e EIO, c', tp') else (0, c', tp')))"

text \<open>
  Whether the block at a position may be written: its header is all zero, or becomes so
  when type and sizes are cleared.
\<close>

definition dio_check_trunk_file_ex :: "fc_api \<Rightarrow> bytes \<Rightarrow> nat \<Rightarrow> ext_tape \<Rightarrow> int \<times> ext_tape" where
  "dio_check_trunk_file_ex F c pos tp =
     (case safe_pread c pos FDFS_TRUNK_FILE_HEADER_SIZE tp of
        (old_header, e, tp') \<Rightarrow>
          if length old_header \<noteq> FDFS_TRUNK_FILE_HEADER_SIZE then (errno_or e EIO, tp')
          else if old_header \<noteq> replicate FDFS_TRUNK_FILE_HEADER_SIZE 0 \<and>
            trunk_pack_header F ((trunk_unpack_header F old_header)\<lparr>hd_alloc_size := 0, hd_file_size := 0, hd_file_type := 0\<rparr>)
              \<noteq> replicate FDFS_TRUNK_FILE_HEADER_SIZE 0
          then (EEXIST, tp')
          else (0, tp'))"

text \<open>The loop of \<open>trunk_file_delete\<close>, which writes zeros from the buffer of fixed size.\<close>

function zero_fill_loop :: "nat \<Rightarrow> nat \<Rightarrow> bytes \<Rightarrow> ext_tape \<Rightarrow> int \<times> bytes \<times> ext_tape" where
  "zero_fill_loop off remain_bytes c tp =
     (if remain_bytes = 0 then (0, c, tp)
      else
        let write_bytes = (if remain_bytes > g_zero_buffer_length then g_zero_buffer_length else remain_bytes) in
        case safe_pwrite c off (replicate write_bytes 0) tp of
          (ok, e, c', tp') \<Rightarrow>
            if \<not> ok then (errno_or e EIO, c', tp')
            else zero_fill_loop (off + write_bytes) (remain_bytes - write_bytes) c' tp')"
  by pat_completeness auto
termination
  by (relation "measure (\<lambda>(off, remain, c, tp). remain)") (auto split: if_splits)

declare zero_fill_loop.simps [simp del]

definition trunk_file_delete ::
    "disk \<Rightarrow> string \<Rightarrow> FDFSTrunkFullInfo \<Rightarrow> ext_tape \<Rightarrow> int \<times> disk \<times> ext_tape" where
  "trunk_file_delete d trunk_filename pTrunkInfo tp =
     (case disk_open d trunk_filename tp of
        (r, c, tp1) \<Rightarrow>
          if r \<noteq> 0 then (r, d, tp1)
          else if blk_off pTrunkInfo < 0 then (EINVAL, d, tp1)
          else
            (case zero_fill_loop (nat (blk_off pTrunkInfo)) (nat (blk_size pTrunkInfo)) c tp1 of
               (r, c', tp2) \<Rightarrow> (r, d(trunk_filename := Some c'), tp2)))"

section \<open>The name of a file in a block\<close>

text \<open>\<open>x | FDFS_TRUNK_FILE_MARK_SIZE\<close>, the bit \<open>2^59\<close>.\<close>

definition mark_trunk :: "int \<Rightarrow> int" where
  "mark_trunk x = (if IS_TRUNK_FILE x then x else x + 2 ^ 59)"

text \<open>
  \<open>storage_service_upload_file_done\<close> for a file in a block: the result and \<open>new_fname2log\<close>.
\<close>

definition upload_file_done_trunk ::
    "fc_api \<Rightarrow> store_conf \<Rightarrow> (string \<Rightarrow> bool) \<Rightarrow> int \<Rightarrow> int \<Rightarrow> int list \<Rightarrow> StorageFileContext \<Rightarrow> upload_ctx \<Rightarrow> store_state
     \<Rightarrow> int \<times> string \<times> upload_ctx \<times> store_state" where
  "upload_file_done_trunk F c exists_file sid rnd rnds ctx u s =
     (case storage_get_filename F c exists_file sid (ctx_start_time ctx)
             (mark_trunk (COMBINE_RAND_FILE_SIZE rnd (ctx_end ctx - ctx_start ctx)))
             (ctx_crc32 ctx) (ctx_ext_name ctx) rnds u s of
        (r, new_filename, _, u', s') \<Rightarrow>
          if r \<noteq> 0 then (r, [], u', s')
          else
            let fname = ''M'' @ fmt_02X (up_store_path_index u') @ ''/'' @ new_filename
            in (0, take (FDFS_LOGIC_FILE_PATH_LEN + FDFS_FILENAME_BASE64_LENGTH) fname @
                   trunk_file_info_encode F (trunk_file (ctx_trunk_info ctx)) @
                   drop (FDFS_TRUE_FILE_PATH_LEN + FDFS_FILENAME_BASE64_LENGTH) new_filename, u', s'))"

section \<open>Codecs\<close>

lemma fmt_02X_two:
  assumes "n < 256"
  shows "fmt_02X n = [digit_char (n div 16), digit_char (n mod 16)]"
proof (cases "n < 16")
  case True
  moreover have "digit_char 0 = CHR ''0''" by (simp add: digit_char_def) code_simp
  ultimately show ?thesis by (simp add: fmt_02X_def pad0_def fmt_base.simps [of 16 n])
next
  case False
  have "n div 16 < 16" using assms by simp
  with False show ?thesis
    by (simp add: fmt_02X_def pad0_def fmt_base.simps [of 16 n] fmt_base.simps [of 16 "n div 16"])
qed

lemma of_char_digit_char_16: "d < 16 \<Longrightarrow> of_char (digit_char d) = (if d < 10 then 48 + d else 55 + d :: nat)"
  by (simp add: digit_char_def)

lemma hex_digit_digit_char [simp]: "d < 16 \<Longrightarrow> hex_digit (digit_char d) = Some d"
  unfolding hex_digit_def Let_def by (simp add: of_char_digit_char_16)

lemma digit_char_16_facts:
  assumes "d < 16"
  shows "digit_char d \<noteq> CHR ''-''" "digit_char d \<noteq> CHR ''+''" "digit_char d \<noteq> CHR ''x''" "digit_char d \<noteq> CHR ''X''"
    "digit_char d \<noteq> CHR ''/''" "digit_char d \<notin> {CHR '' '', CHR 0x09, CHR 0x0A, CHR 0x0B, CHR 0x0C, CHR 0x0D}"
  using of_char_digit_char_16 [OF assms] assms by (auto split: if_splits)

lemma hex_digits_stop: "\<not> starts_hex t \<Longrightarrow> hex_digits a t = (a, t)"
  by (cases t) (auto simp: starts_hex_def)

lemma strtol16_fmt_02X:
  assumes "n < 256" "\<not> starts_hex t"
  shows "strtol16 (fmt_02X n @ t) = (int n, t)"
proof -
  have h: "n div 16 < 16" "n mod 16 < 16" using assms(1) by simp_all
  note f = digit_char_16_facts [OF h(1)] digit_char_16_facts [OF h(2)]
  have v: "16 * int (n div 16) + int (n mod 16) = int n" by presburger
  show ?thesis
    using f h v assms by (simp add: strtol16_def fmt_02X_two starts_hex_def hex_digits_stop Let_def)
qed

lemma not_starts_hex [simp]: "\<not> starts_hex []" "\<not> starts_hex (CHR ''/'' # t)"
  by (simp_all add: starts_hex_def hex_digit_def)

lemma trunk_pack_header_length:
  assumes "fc_ok F" "length (hd_ext_name h) = 8"
  shows "length (trunk_pack_header F h) = FDFS_TRUNK_FILE_HEADER_SIZE"
  using assms by (simp add: trunk_pack_header_def fc_int2buff)

lemma in_i32_to_i32: "in_i32 n \<Longrightarrow> to_i32 n = n"
  by (simp add: to_i32_def in_i32_def)

text \<open>Headers and block information read back as they were written.\<close>

lemma trunk_unpack_pack_header:
  assumes F: "fc_ok F" and e: "length (hd_ext_name h) = 8" "hd_ext_name h ! 7 = 0"
    and i: "in_i32 (hd_alloc_size h)" "in_i32 (hd_file_size h)" "in_i32 (hd_crc32 h)" "in_i32 (hd_mtime h)"
  shows "trunk_unpack_header F (trunk_pack_header F h) = h"
proof -
  have ext: "take 7 (hd_ext_name h) @ [0] = hd_ext_name h"
    using e take_Suc_conv_app_nth [of 7 "hd_ext_name h"] by simp
  show ?thesis
    using fc_int2buff(1) [OF F] fc_buff2int [OF F] i ext by (simp add: trunk_unpack_header_def trunk_pack_header_def)
qed

lemma trunk_file_info_decode_encode:
  assumes F: "fc_ok F" and i: "in_i32 (trunk_id f)" "in_i32 (trunk_offset f)" "in_i32 (trunk_size f)"
  shows "trunk_file_info_decode F (trunk_file_info_encode F f @ t) = f" "length (trunk_file_info_encode F f) = FDFS_TRUNK_FILE_INFO_LEN"
proof -
  let ?b = "int2buff F (trunk_id f) @ int2buff F (trunk_offset f) @ int2buff F (trunk_size f)"
  have b: "is_bytes ?b" "length ?b = 12" using fc_int2buff [OF F] by simp_all
  show len: "length (trunk_file_info_encode F f) = FDFS_TRUNK_FILE_INFO_LEN"
    unfolding trunk_file_info_encode_def fc_base64(2) [OF F b(1)] b(2) by (simp add: base64_len_def)
  show "trunk_file_info_decode F (trunk_file_info_encode F f @ t) = f"
    unfolding trunk_file_info_decode_def Let_def
    using len fc_base64(1) [OF F b(1)] fc_int2buff(1) [OF F] fc_buff2int [OF F] i
    by (simp add: trunk_file_info_encode_def)
qed

text \<open>A logic name with a store path index splits into the index and the rest.\<close>

lemma split_filename_logic:
  assumes "i < 256" "length t > 6"
  shows "SPLIT_FILENAME_BODY (''M'' @ fmt_02X i @ ''/'' @ t) (4 + length t) None = (0, length t, t, int i)"
    "i < n \<Longrightarrow> SPLIT_FILENAME_BODY (''M'' @ fmt_02X i @ ''/'' @ t) (4 + length t) (Some n) = (0, length t, t, int i)"
proof -
  have s: "strtol16 (fmt_02X i) = (int i, [])" using strtol16_fmt_02X [OF assms(1), of "[]"] by simp
  have l: "length (fmt_02X i) = 2" by (simp add: fmt_02X_two [OF assms(1)])
  then have nth: "(''M'' @ fmt_02X i @ ''/'' @ t) ! 3 = CHR ''/''" by (simp add: nth_append)
  show "SPLIT_FILENAME_BODY (''M'' @ fmt_02X i @ ''/'' @ t) (4 + length t) None = (0, length t, t, int i)"
    "i < n \<Longrightarrow> SPLIT_FILENAME_BODY (''M'' @ fmt_02X i @ ''/'' @ t) (4 + length t) (Some n) = (0, length t, t, int i)"
    using s l nth assms by (simp_all add: SPLIT_FILENAME_BODY_def)
qed

section \<open>Contents of a trunk file\<close>

lemma write_at_length: "length (write_at c off bs) = max (length c) (off + length bs)"
  by (simp add: write_at_def)

lemma write_at_nth:
  assumes "i < length (write_at c off bs)"
  shows "write_at c off bs ! i =
    (if off \<le> i \<and> i < off + length bs then bs ! (i - off) else if i < length c then c ! i else 0)"
  using assms by (auto simp: write_at_def nth_append min_def)

lemma write_at_read: "take (length bs) (drop off (write_at c off bs)) = bs"
  by (rule nth_equalityI) (auto simp: write_at_length write_at_nth)

text \<open>What a write leaves alone: every range apart from it.\<close>

lemma write_at_apart:
  assumes "a + n \<le> length c" "a + n \<le> off \<or> off + length bs \<le> a"
  shows "take n (drop a (write_at c off bs)) = take n (drop a c)"
  by (rule nth_equalityI) (use assms in \<open>auto simp: write_at_length write_at_nth\<close>)

lemma safe_pwrite_ok: "safe_pwrite c off bs tp = (True, e, c', tp') \<Longrightarrow> c' = write_at c off bs"
  by (auto simp: safe_pwrite_def split: prod.splits ext_res.splits)

lemma safe_pwrite_apart:
  assumes "safe_pwrite c off bs tp = (ok, e, c', tp')" "a + n \<le> length c" "a + n \<le> off \<or> off + length bs \<le> a"
  shows "take n (drop a c') = take n (drop a c) \<and> length c \<le> length c'"
proof -
  have "take n (drop a (write_at c off (take k bs))) = take n (drop a c)" for k
    by (rule write_at_apart) (use assms(2,3) in auto)
  then show ?thesis
    using assms(1) write_at_apart [OF assms(2,3)]
    by (auto simp: safe_pwrite_def write_at_length split: prod.splits ext_res.splits)
qed

text \<open>Deleting fills the block with zeros, whatever its size, and touches nothing else.\<close>

lemma zero_fill_loop_0: "zero_fill_loop off 0 c tp = (0, c, tp)"
  by (simp add: zero_fill_loop.simps [of off 0])

lemma zero_fill_loop_step:
  assumes "m \<noteq> 0"
  obtains w where "0 < w" "w \<le> m"
    "zero_fill_loop off m c tp =
      (case safe_pwrite c off (replicate w 0) tp of
         (ok, e, c', tp') \<Rightarrow> if \<not> ok then (errno_or e EIO, c', tp') else zero_fill_loop (off + w) (m - w) c' tp')"
proof
  let ?w = "if m > g_zero_buffer_length then g_zero_buffer_length else m"
  show "0 < ?w" "?w \<le> m" using assms by auto
  show "zero_fill_loop off m c tp =
      (case safe_pwrite c off (replicate ?w 0) tp of
         (ok, e, c', tp') \<Rightarrow> if \<not> ok then (errno_or e EIO, c', tp') else zero_fill_loop (off + ?w) (m - ?w) c' tp')"
    unfolding zero_fill_loop.simps [of off m] Let_def if_not_P [OF assms] by (rule refl)
qed

lemma zero_fill_loop_apart:
  assumes "zero_fill_loop off m c tp = (r, c', tp')" "a + n \<le> length c" "a + n \<le> off \<or> off + m \<le> a"
  shows "take n (drop a c') = take n (drop a c) \<and> length c \<le> length c'"
  using assms
proof (induction m arbitrary: off c tp rule: less_induct)
  case (less m)
  show ?case
  proof (cases "m = 0")
    case True
    with less.prems show ?thesis by (simp add: zero_fill_loop_0)
  next
    case False
    then obtain w where w: "0 < w" "w \<le> m" and unf: "zero_fill_loop off m c tp =
      (case safe_pwrite c off (replicate w 0) tp of
         (ok, e, c', tp') \<Rightarrow> if \<not> ok then (errno_or e EIO, c', tp') else zero_fill_loop (off + w) (m - w) c' tp')"
      by (rule zero_fill_loop_step)
    obtain ok e c1 tp1 where wr: "safe_pwrite c off (replicate w 0) tp = (ok, e, c1, tp1)" by (metis prod_cases4)
    have p: "take n (drop a c1) = take n (drop a c) \<and> length c \<le> length c1"
      using less.prems w by (intro safe_pwrite_apart [OF wr]) auto
    show ?thesis
    proof (cases ok)
      case True
      then have "zero_fill_loop (off + w) (m - w) c1 tp1 = (r, c', tp')" using unf wr less.prems(1) by simp
      from less.IH [OF _ this] w p less.prems show ?thesis by auto
    next
      case False
      with unf wr less.prems(1) p show ?thesis by auto
    qed
  qed
qed

lemma zero_fill_loop_zeros:
  assumes "zero_fill_loop off m c tp = (0, c', tp')"
  shows "length c' = max (length c) (if m = 0 then 0 else off + m) \<and> take m (drop off c') = replicate m 0"
  using assms
proof (induction m arbitrary: off c tp rule: less_induct)
  case (less m)
  show ?case
  proof (cases "m = 0")
    case True
    with less.prems show ?thesis by (simp add: zero_fill_loop_0)
  next
    case m: False
    then obtain w where w: "0 < w" "w \<le> m" and unf: "zero_fill_loop off m c tp =
      (case safe_pwrite c off (replicate w 0) tp of
         (ok, e, c', tp') \<Rightarrow> if \<not> ok then (errno_or e EIO, c', tp') else zero_fill_loop (off + w) (m - w) c' tp')"
      by (rule zero_fill_loop_step)
    obtain ok e c1 tp1 where wr: "safe_pwrite c off (replicate w 0) tp = (ok, e, c1, tp1)" by (metis prod_cases4)
    have ok: "ok" using unf wr less.prems by (auto split: if_splits)
    then have lp: "zero_fill_loop (off + w) (m - w) c1 tp1 = (0, c', tp')" using unf wr less.prems by simp
    have c1: "c1 = write_at c off (replicate w 0)" using wr ok safe_pwrite_ok by metis
    have l1: "length c1 = max (length c) (off + w)" by (simp add: c1 write_at_length)
    have IH: "length c' = max (length c1) (if m - w = 0 then 0 else off + w + (m - w)) \<and>
        take (m - w) (drop (off + w) c') = replicate (m - w) 0"
      using less.IH [OF _ lp] w by simp
    have "take w (drop off c') = take w (drop off c1)" using zero_fill_loop_apart [OF lp, of off w] l1 by simp
    also have "\<dots> = replicate w 0" using write_at_read [of "replicate w 0" off c] by (simp add: c1)
    finally have "take w (drop off c') = replicate w 0" .
    then have "take (w + (m - w)) (drop off c') = replicate (w + (m - w)) 0"
      unfolding take_add replicate_add using IH by (simp only: drop_drop add.commute)
    then have "take m (drop off c') = replicate m 0" using w by simp
    moreover have "length c' = max (length c) (off + m)" using IH l1 w by auto
    ultimately show ?thesis using m by simp
  qed
qed

section \<open>The name of a file in a block\<close>

lemma mark_trunk_facts:
  fixes rnd :: int
  assumes "0 \<le> n" "n < 2 ^ 32"
  defines "m \<equiv> mark_trunk (COMBINE_RAND_FILE_SIZE rnd n)"
  shows "IS_TRUNK_FILE m" "FDFS_TRUNK_FILE_TRUE_SIZE m = n" "in_i64 m" "m div 2 ^ 32 \<noteq> 0"
proof -
  define x where "x = rnd mod 2 ^ 23"
  have x: "0 \<le> x" "x < 2 ^ 23" by (simp_all add: x_def)
  have m: "m = (x * 2 ^ 32 + n) + (- 15) * 2 ^ 59"
    using combine_rand_facts [OF assms(1,2), of rnd] by (simp add: m_def mark_trunk_def COMBINE_RAND_FILE_SIZE_def x_def)
  have y: "0 \<le> x * 2 ^ 32 + n" "x * 2 ^ 32 + n < 2 ^ 59" using x assms(1,2) by simp_all
  have "((x * 2 ^ 32 + n) + (- 15) * 2 ^ 59) div 2 ^ 59 = (- 15) + (x * 2 ^ 32 + n) div 2 ^ 59"
    by (rule div_mult_self1) simp
  also have "\<dots> = - 15" using y by (simp add: div_pos_pos_trivial)
  finally show "IS_TRUNK_FILE m" unfolding IS_TRUNK_FILE_def m by simp
  have low: "m = n + (x - 15 * 2 ^ 27) * 2 ^ 32" by (simp add: m)
  show "FDFS_TRUNK_FILE_TRUE_SIZE m = n"
    unfolding FDFS_TRUNK_FILE_TRUE_SIZE_def low mod_mult_self1 using assms(1,2) by simp
  show "in_i64 m" unfolding m in_i64_def using y x by simp
  have "(n + (x - 15 * 2 ^ 27) * 2 ^ 32) div 2 ^ 32 = (x - 15 * 2 ^ 27) + n div 2 ^ 32"
    by (rule div_mult_self1) simp
  also have "\<dots> < 0" using x assms(1,2) by (simp add: div_pos_pos_trivial)
  finally show "m div 2 ^ 32 \<noteq> 0" unfolding low by simp
qed

text \<open>The fields of a file name, and the name of a file in a block.\<close>

definition name_fields :: "fc_api \<Rightarrow> int \<Rightarrow> int \<Rightarrow> int \<Rightarrow> int \<Rightarrow> bytes" where
  "name_fields F sid ts fsize crc = int2buff F sid @ int2buff F ts @ long2buff F fsize @ int2buff F crc"

definition trunk_name :: "nat \<Rightarrow> nat \<Rightarrow> string \<Rightarrow> string \<Rightarrow> string \<Rightarrow> string" where
  "trunk_name high low enc blk ext = fmt_02X high @ ''/'' @ fmt_02X low @ ''/'' @ enc @ blk @ ext"

lemma name_fields_parts:
  fixes sid :: int
  assumes "fc_ok F" "in_i32 ts" "in_i64 fsize" "in_i32 crc"
  defines "enc \<equiv> base64_encode_ex F (name_fields F sid ts fsize crc)"
  shows "length enc = 27" "base64_decode_auto F enc = name_fields F sid ts fsize crc"
    "length (name_fields F sid ts fsize crc) = 20"
    "buff2long F (take 8 (drop 8 (name_fields F sid ts fsize crc))) = fsize"
    "buff2int F (take 4 (drop 4 (name_fields F sid ts fsize crc))) = ts"
    "buff2int F (take 4 (drop 16 (name_fields F sid ts fsize crc))) = crc"
proof -
  note b = fc_int2buff [OF assms(1)]
  have isb: "is_bytes (name_fields F sid ts fsize crc)" using b by (simp add: name_fields_def)
  show len: "length (name_fields F sid ts fsize crc) = 20" using b by (simp add: name_fields_def)
  show "length enc = 27" unfolding enc_def fc_base64(2) [OF assms(1) isb] len by (simp add: base64_len_def)
  show "base64_decode_auto F enc = name_fields F sid ts fsize crc" unfolding enc_def by (rule fc_base64(1) [OF assms(1) isb])
  show "buff2long F (take 8 (drop 8 (name_fields F sid ts fsize crc))) = fsize"
    "buff2int F (take 4 (drop 4 (name_fields F sid ts fsize crc))) = ts"
    "buff2int F (take 4 (drop 16 (name_fields F sid ts fsize crc))) = crc"
    using b fc_buff2int [OF assms(1)] fc_buff2long [OF assms(1)] assms(2-4) by (simp_all add: name_fields_def)
qed

lemma trunk_name_parts:
  assumes "high < 256" "low < 256" "length enc = 27" "length blk = 16" "length ext = 7"
  defines "t \<equiv> trunk_name high low enc blk ext"
  shows "length t = 56" "take 27 (drop 6 t) = enc" "drop 33 t = blk @ ext" "drop 49 t = ext"
    "fst (strtol16 t) = int high" "fst (strtol16 (drop 3 t)) = int low"
proof -
  have l: "length (fmt_02X high) = 2" "length (fmt_02X low) = 2" using assms(1,2) by (simp_all add: fmt_02X_two)
  show "length t = 56" "take 27 (drop 6 t) = enc" "drop 33 t = blk @ ext" "drop 49 t = ext"
    using l assms(3-5) by (simp_all add: t_def trunk_name_def)
  show "fst (strtol16 t) = int high" unfolding t_def trunk_name_def by (subst strtol16_fmt_02X [OF assms(1)]) simp_all
  have "drop 3 t = fmt_02X low @ ''/'' @ enc @ blk @ ext" using l by (simp add: t_def trunk_name_def)
  then show "fst (strtol16 (drop 3 t)) = int low" by (simp add: strtol16_fmt_02X [OF assms(2)])
qed

lemma get_filename_loop_name:
  assumes "get_filename_loop F c ex sid fsize crc ext ts rnds u s = (0, name, full, u', s')"
    and "fsize div 2 ^ 32 \<noteq> 0" "if_sub_path_alloced u" "length ext = 7"
  shows "u' = u" "name = trunk_name (up_sub_path_high u) (up_sub_path_low u) (base64_encode_ex F (name_fields F sid ts fsize crc)) [] ext"
  using assms
  by (induction rnds) (auto simp: storage_gen_filename_def trunk_name_def name_fields_def Let_def split: if_splits)

lemma upload_name:
  assumes up: "upload_file_done_trunk F c ex sid rnd rnds ctx u s = (0, name, u', s')"
    and F: "fc_ok F" and u: "if_sub_path_alloced u" "up_store_path_index u < 256" "up_sub_path_high u < 256" "up_sub_path_low u < 256"
    and n: "0 \<le> ctx_end ctx - ctx_start ctx" "ctx_end ctx - ctx_start ctx < 2 ^ 32" and ext: "length (ctx_ext_name ctx) = 7"
    and ts: "in_i32 (ctx_start_time ctx)" "in_i32 (ctx_crc32 ctx)"
  defines "fsize \<equiv> mark_trunk (COMBINE_RAND_FILE_SIZE rnd (ctx_end ctx - ctx_start ctx))"
  shows "name = ''M'' @ fmt_02X (up_store_path_index u) @ ''/'' @
    trunk_name (up_sub_path_high u) (up_sub_path_low u)
      (base64_encode_ex F (name_fields F sid (ctx_start_time ctx) fsize (ctx_crc32 ctx)))
      (trunk_file_info_encode F (trunk_file (ctx_trunk_info ctx))) (ctx_ext_name ctx)"
proof -
  note m = mark_trunk_facts [OF n, of rnd, folded fsize_def]
  let ?enc = "base64_encode_ex F (name_fields F sid (ctx_start_time ctx) fsize (ctx_crc32 ctx))"
  have len: "length ?enc = 27" by (rule name_fields_parts(1) [OF F ts(1) m(3) ts(2)])
  obtain r fn full u1 s1 where g: "storage_get_filename F c ex sid (ctx_start_time ctx) fsize (ctx_crc32 ctx) (ctx_ext_name ctx) rnds u s
      = (r, fn, full, u1, s1)" by (metis prod_cases5)
  have r: "r = 0" using up g by (auto simp: upload_file_done_trunk_def fsize_def split: if_splits)
  note G = get_filename_loop_name [OF _ m(4) u(1) ext, OF g [unfolded storage_get_filename_def r]]
  have l: "length (fmt_02X (up_store_path_index u)) = 2" "length (fmt_02X (up_sub_path_high u)) = 2" "length (fmt_02X (up_sub_path_low u)) = 2"
    using u by (simp_all add: fmt_02X_two)
  show ?thesis
    using up g r G len l by (auto simp: upload_file_done_trunk_def fsize_def trunk_name_def Let_def)
qed

text \<open>
  The hypotheses on an upload into a block: the configuration and the values in the range
  of their C types, the content right after the header, the sub-directories of the name
  those of the block.
\<close>

definition upload_wf :: "store_conf \<Rightarrow> StorageFileContext \<Rightarrow> upload_ctx \<Rightarrow> bool" where
  "upload_wf c ctx u \<longleftrightarrow>
     (let info = ctx_trunk_info ctx in
      in_i32 (trunk_id (trunk_file info)) \<and> in_i32 (blk_off info) \<and> in_i32 (blk_size info) \<and> 0 \<le> blk_off info \<and>
      ctx_start ctx = blk_off info + int FDFS_TRUNK_FILE_HEADER_SIZE \<and>
      0 \<le> ctx_end ctx - ctx_start ctx \<and> ctx_end ctx - ctx_start ctx < 2 ^ 31 \<and>
      in_i32 (ctx_crc32 ctx) \<and> in_i32 (ctx_start_time ctx) \<and> length (ctx_ext_name ctx) = 7 \<and>
      if_sub_path_alloced u \<and> up_store_path_index u = blk_path info \<and>
      up_sub_path_high u = sub_path_high (trunk_path info) \<and> up_sub_path_low u = sub_path_low (trunk_path info) \<and>
      blk_path info < 256 \<and> sub_path_high (trunk_path info) < 256 \<and> sub_path_low (trunk_path info) < 256 \<and>
      blk_path info < length (g_fdfs_store_paths c))"

lemma upload_wfD:
  assumes "upload_wf c ctx u"
  shows "in_i32 (trunk_id (trunk_file (ctx_trunk_info ctx)))" "in_i32 (blk_off (ctx_trunk_info ctx))" "in_i32 (blk_size (ctx_trunk_info ctx))"
    "0 \<le> blk_off (ctx_trunk_info ctx)" "ctx_start ctx = blk_off (ctx_trunk_info ctx) + 24"
    "0 \<le> ctx_end ctx - ctx_start ctx" "ctx_end ctx - ctx_start ctx < 2 ^ 31" "ctx_end ctx - ctx_start ctx < 2 ^ 32"
    "in_i32 (ctx_crc32 ctx)" "in_i32 (ctx_start_time ctx)" "length (ctx_ext_name ctx) = 7"
    "if_sub_path_alloced u" "up_store_path_index u = blk_path (ctx_trunk_info ctx)"
    "up_sub_path_high u = sub_path_high (trunk_path (ctx_trunk_info ctx))" "up_sub_path_low u = sub_path_low (trunk_path (ctx_trunk_info ctx))"
    "blk_path (ctx_trunk_info ctx) < 256" "sub_path_high (trunk_path (ctx_trunk_info ctx)) < 256"
    "sub_path_low (trunk_path (ctx_trunk_info ctx)) < 256" "blk_path (ctx_trunk_info ctx) < length (g_fdfs_store_paths c)"
  using assms by (simp_all add: upload_wf_def Let_def)

text \<open>The true name of the upload, with the facts the reader of the name derives from it.\<close>

definition upload_true_name :: "fc_api \<Rightarrow> int \<Rightarrow> int \<Rightarrow> StorageFileContext \<Rightarrow> string" where
  "upload_true_name F sid rnd ctx =
     trunk_name (sub_path_high (trunk_path (ctx_trunk_info ctx))) (sub_path_low (trunk_path (ctx_trunk_info ctx)))
       (base64_encode_ex F (name_fields F sid (ctx_start_time ctx)
          (mark_trunk (COMBINE_RAND_FILE_SIZE rnd (ctx_end ctx - ctx_start ctx))) (ctx_crc32 ctx)))
       (trunk_file_info_encode F (trunk_file (ctx_trunk_info ctx))) (ctx_ext_name ctx)"

lemma zero_filled_prefix:
  assumes "k \<le> m"
  shows "take k (zero_filled m x) = zero_filled k x"
proof -
  have "replicate m 0 = replicate k 0 @ replicate (m - k) (0 :: nat)" using assms by (simp add: replicate_add [symmetric])
  then show ?thesis using assms by (simp add: zero_filled_def)
qed

lemma zero_filled_slice: "a + n \<le> length bs \<Longrightarrow> length bs \<le> k \<Longrightarrow> take n (drop a (zero_filled k bs)) = take n (drop a bs)"
  by (simp add: zero_filled_def)

lemma upload_true_name_facts:
  fixes sid rnd :: int
  assumes F: "fc_ok F" and wf: "upload_wf c ctx u"
  defines "t \<equiv> upload_true_name F sid rnd ctx" and "info \<equiv> ctx_trunk_info ctx"
  shows "length t = 56"
    "name_block F (int (blk_path info)) t b = b\<lparr>trunk_path := trunk_path info, trunk_file := trunk_file info\<rparr>"
    "IS_TRUNK_FILE (buff2long F (take 8 (drop 8 (zero_filled 128 (base64_decode_auto F (take 27 (drop 6 t)))))))"
    "(name_header F t 56 (zero_filled 128 (base64_decode_auto F (take 27 (drop 6 t)))) (blk_size info) h)
       \<lparr>hd_file_type := hd_file_type (chunk_header ctx)\<rparr> = chunk_header ctx"
proof -
  note W = upload_wfD [OF wf]
  let ?m = "mark_trunk (COMBINE_RAND_FILE_SIZE rnd (ctx_end ctx - ctx_start ctx))"
  note m = mark_trunk_facts [OF W(6,8), of rnd]
  note nf = name_fields_parts [OF F W(10) m(3) W(9), of sid]
  note di = trunk_file_info_decode_encode [OF F W(1-3)]
  note tn = trunk_name_parts [OF W(17,18) nf(1) di(2) W(11), folded upload_true_name_def, folded t_def]
  show "length t = 56" by (rule tn(1))
  show "name_block F (int (blk_path info)) t b = b\<lparr>trunk_path := trunk_path info, trunk_file := trunk_file info\<rparr>"
    using tn(3,5,6) di(1) W(16-18) by (simp add: name_block_def info_def)
  have z: "take n (drop a (zero_filled 128 (base64_decode_auto F (take 27 (drop 6 t))))) =
      take n (drop a (name_fields F sid (ctx_start_time ctx) ?m (ctx_crc32 ctx)))" if "a + n \<le> 20" for a n
    unfolding tn(2) nf(2) using zero_filled_slice [of a n "name_fields F sid (ctx_start_time ctx) ?m (ctx_crc32 ctx)" 128] that nf(3) by simp
  show "IS_TRUNK_FILE (buff2long F (take 8 (drop 8 (zero_filled 128 (base64_decode_auto F (take 27 (drop 6 t)))))))"
    using z [of 8 8] nf(4) m(1) by simp
  have s: "to_i32 (ctx_end ctx - ctx_start ctx) = ctx_end ctx - ctx_start ctx"
    using W(6,7) by (intro in_i32_to_i32) (simp add: in_i32_def)
  have e: "map of_char (take 7 (drop 49 t)) @ [0] = (zero_filled 8 (take 7 (map of_char (ctx_ext_name ctx))) :: bytes)"
    unfolding tn(4) using W(11) by (simp add: zero_filled_def)
  show "(name_header F t 56 (zero_filled 128 (base64_decode_auto F (take 27 (drop 6 t)))) (blk_size info) h)
       \<lparr>hd_file_type := hd_file_type (chunk_header ctx)\<rparr> = chunk_header ctx"
    unfolding name_header_def chunk_header_def using z [of 8 8] z [of 4 4] z [of 16 4] nf(4-6) m(2) s e by (simp add: info_def)
qed

text \<open>What \<open>lstat\<close> does with the name of an upload, given the trunk file.\<close>

lemma lstat_upload_name:
  fixes sid rnd :: int
  assumes F: "fc_ok F" and wf: "upload_wf c ctx u" and d: "d (trunk_get_full_filename_ex paths (ctx_trunk_info ctx)) = Some content"
  defines "t \<equiv> upload_true_name F sid rnd ctx" and "info \<equiv> ctx_trunk_info ctx"
    and "bs \<equiv> take 24 (drop (nat (blk_off (ctx_trunk_info ctx))) content)"
  shows "bs = trunk_pack_header F (chunk_header ctx) \<Longrightarrow>
      trunk_file_do_lstat_func_ex F paths fstat d (int (blk_path info)) t 56 sf b h [] =
        (0, Some \<lparr>st_mode = (if ctx_is_link ctx then S_IFLNK else S_IFREG), st_size = ctx_end ctx - ctx_start ctx,
            st_mtime = ctx_start_time ctx\<rparr>,
         b\<lparr>trunk_path := trunk_path info, trunk_file := trunk_file info\<rparr>, chunk_header ctx,
         Some (content, nat (blk_off info) + 24), [])"
    "length bs = 24 \<Longrightarrow> bs ! 0 = 0 \<Longrightarrow>
      fst (trunk_file_do_lstat_func_ex F paths fstat d (int (blk_path info)) t 56 sf b h []) = ENOENT"
proof -
  note W = upload_wfD [OF wf]
  note N = upload_true_name_facts [OF F wf, of sid rnd, folded t_def info_def]
  have fn: "trunk_get_full_filename_ex paths (b'\<lparr>trunk_path := trunk_path info, trunk_file := trunk_file info\<rparr>) =
      trunk_get_full_filename_ex paths info" for b' :: FDFSTrunkFullInfo
    by (simp add: trunk_get_full_filename_ex_def)
  have op: "disk_open d (trunk_get_full_filename_ex paths info) [] = (0, content, [])"
    using d by (simp add: disk_open_def info_def)
  have rd: "safe_pread content (nat (blk_off info)) 24 [] = (bs, 0, [])" by (simp add: safe_pread_def bs_def info_def)
  let ?h = "name_header F t 56 (zero_filled 128 (base64_decode_auto F (take 27 (drop 6 t)))) (blk_size info) h"
  have size: "hd_file_size (chunk_header ctx) = ctx_end ctx - ctx_start ctx"
    using W(6,7) in_i32_to_i32 [of "ctx_end ctx - ctx_start ctx"] by (simp add: chunk_header_def in_i32_def)
  {
    assume bs: "bs = trunk_pack_header F (chunk_header ctx)"
    have len: "length bs = 24" unfolding bs by (rule trunk_pack_header_length [OF F]) (simp add: chunk_header_def zero_filled_def)
    have b0: "bs ! 0 = hd_file_type (chunk_header ctx)" by (simp add: bs trunk_pack_header_def)
    have h: "?h\<lparr>hd_file_type := bs ! 0\<rparr> = chunk_header ctx" unfolding b0 by (rule N(4))
    show "trunk_file_do_lstat_func_ex F paths fstat d (int (blk_path info)) t 56 sf b h [] =
        (0, Some \<lparr>st_mode = (if ctx_is_link ctx then S_IFLNK else S_IFREG), st_size = ctx_end ctx - ctx_start ctx,
            st_mtime = ctx_start_time ctx\<rparr>,
         b\<lparr>trunk_path := trunk_path info, trunk_file := trunk_file info\<rparr>, chunk_header ctx,
         Some (content, nat (blk_off info) + 24), [])"
      using N(2,3) W(4) [folded info_def] op rd len h size b0 bs
      by (simp add: trunk_file_do_lstat_func_ex_def Let_def fn, simp add: chunk_header_def info_def)
  next
    assume "length bs = 24" "bs ! 0 = 0"
    then show "fst (trunk_file_do_lstat_func_ex F paths fstat d (int (blk_path info)) t 56 sf b h []) = ENOENT"
      using N(2,3) W(4) [folded info_def] op rd by (simp add: trunk_file_do_lstat_func_ex_def Let_def fn)
  }
qed

text \<open>
  C11: a file uploaded into a block is found again by its name. When the header has been
  written into the trunk file, the name the client gets splits into the store path and a
  name that is recognised as that of a file in a block; \<open>lstat\<close> of it succeeds and reports
  exactly the block, the size and the time stamp of the upload, whatever the random part of
  the name is.
\<close>

theorem trunk_upload_found_by_name:
  assumes F: "fc_ok F" and wf: "upload_wf c ctx u"
    and d: "d (trunk_get_full_filename_ex (g_fdfs_store_paths c) (ctx_trunk_info ctx)) = Some content"
    and wr: "dio_write_chunk_header F ctx content tp = (0, content', tp')"
    and up: "upload_file_done_trunk F c ex sid rnd rnds ctx u s = (0, name, u', s')"
  shows "storage_split_filename_ex (g_fdfs_store_paths c) name (length name) =
      (0, 56, drop 4 name, int (blk_path (ctx_trunk_info ctx))) \<and>
    fdfs_is_trunk_file F name (length name) \<and>
    trunk_file_do_lstat_func_ex F (g_fdfs_store_paths c) fstat
        (d(trunk_get_full_filename_ex (g_fdfs_store_paths c) (ctx_trunk_info ctx) := Some content'))
        (int (blk_path (ctx_trunk_info ctx))) (drop 4 name) 56 sf b h [] =
      (0, Some \<lparr>st_mode = (if ctx_is_link ctx then S_IFLNK else S_IFREG), st_size = ctx_end ctx - ctx_start ctx,
          st_mtime = ctx_start_time ctx\<rparr>,
       b\<lparr>trunk_path := trunk_path (ctx_trunk_info ctx), trunk_file := trunk_file (ctx_trunk_info ctx)\<rparr>, chunk_header ctx,
       Some (content', nat (blk_off (ctx_trunk_info ctx)) + 24), [])"
proof -
  note W = upload_wfD [OF wf]
  let ?info = "ctx_trunk_info ctx" and ?t = "upload_true_name F sid rnd ctx"
  have name: "name = ''M'' @ fmt_02X (blk_path ?info) @ ''/'' @ ?t"
    using upload_name [OF up F W(12)] W by (simp add: upload_true_name_def)
  have l: "length (fmt_02X (blk_path ?info)) = 2" using W(16) by (simp add: fmt_02X_two)
  note N = upload_true_name_facts [OF F wf, of sid rnd]
  have t: "drop 4 name = ?t" "length name = 60" "drop 10 name = drop 6 ?t" unfolding name using l N(1) by simp_all
  have split: "storage_split_filename_ex (g_fdfs_store_paths c) name (length name) = (0, 56, ?t, int (blk_path ?info))"
    using split_filename_logic(2) [OF W(16), of ?t "length (g_fdfs_store_paths c)"] N(1) W(19) t(2) name
    by (simp add: storage_split_filename_ex_def)
  have z: "take 8 (drop 8 (zero_filled 64 x)) = take 8 (drop 8 (zero_filled 128 x))" for x :: bytes
    unfolding zero_filled_prefix [of 64 128, symmetric, simplified] by (simp add: drop_take)
  have is_trunk: "fdfs_is_trunk_file F name (length name)" using N(3) t z by (simp add: fdfs_is_trunk_file_def)
  have pos: "nat (ctx_start ctx - 24) = nat (blk_off ?info)" using W(5) by simp
  have c': "content' = write_at content (nat (blk_off ?info)) (trunk_pack_header F (chunk_header ctx))"
    using wr pos by (auto simp: dio_write_chunk_header_def Let_def dest: safe_pwrite_ok split: prod.splits if_splits)
  have len: "length (trunk_pack_header F (chunk_header ctx)) = 24"
    by (rule trunk_pack_header_length [OF F]) (simp add: chunk_header_def zero_filled_def)
  have "take 24 (drop (nat (blk_off ?info)) content') = trunk_pack_header F (chunk_header ctx)"
    using write_at_read [of "trunk_pack_header F (chunk_header ctx)" "nat (blk_off ?info)" content] len c' by simp
  from lstat_upload_name(1) [where d = "d(trunk_get_full_filename_ex (g_fdfs_store_paths c) ?info := Some content')" and
      paths = "g_fdfs_store_paths c" and content = content', OF F wf _ this] split is_trunk t(1) show ?thesis by simp
qed

definition sample_ctx :: StorageFileContext where
  "sample_ctx =
     \<lparr>ctx_is_link = False,
      ctx_trunk_info = \<lparr>trunk_status = FDFS_TRUNK_STATUS_HOLD,
        trunk_path = \<lparr>store_path_index = 1, sub_path_high = 3, sub_path_low = 250\<rparr>,
        trunk_file = \<lparr>trunk_id = 9, trunk_offset = 256, trunk_size = 512\<rparr>\<rparr>,
      ctx_start = 280, ctx_end = 700, ctx_crc32 = -5, ctx_start_time = 1700000000, ctx_ext_name = ''123.jpg''\<rparr>"

definition sample_up :: upload_ctx where
  "sample_up = \<lparr>up_store_path_index = 1, up_sub_path_high = 3, up_sub_path_low = 250, if_sub_path_alloced = True\<rparr>"

lemma sample_upload_wf: "upload_wf sample_conf sample_ctx sample_up"
  by (simp add: upload_wf_def sample_ctx_def sample_up_def sample_conf_def in_i32_def Let_def)

theorem trunk_upload_found_by_name_witness:
  "\<exists>name u' s'. upload_file_done_trunk fc_impl sample_conf (\<lambda>_. False) 1 5 [0] sample_ctx sample_up sample_store = (0, name, u', s') \<and>
     fdfs_is_trunk_file fc_impl name (length name)"
proof -
  obtain r name u' s' where up: "upload_file_done_trunk fc_impl sample_conf (\<lambda>_. False) 1 5 [0] sample_ctx sample_up sample_store
      = (r, name, u', s')" by (metis prod_cases4)
  then have "r = 0"
    by (auto simp: upload_file_done_trunk_def storage_get_filename_def Let_def split: prod.splits if_splits)
  moreover obtain c' tp' where "dio_write_chunk_header fc_impl sample_ctx [] [] = (0, c', tp')"
    by (simp add: dio_write_chunk_header_def safe_pwrite_def sample_ctx_def)
  ultimately show ?thesis
    using trunk_upload_found_by_name [OF fc_impl_ok sample_upload_wf, of "\<lambda>_. Some []" "[]"] up by blast
qed

text \<open>
  C12: deleting a file in a block makes its name unknown and its block usable again. After a
  successful \<open>trunk_file_delete\<close> the whole block is zero, \<open>lstat\<close> of the old name reports
  \<open>ENOENT\<close>, and the check before an upload into the block passes. Whether it succeeds or
  not, no byte of any other block of the trunk file and no other file changes.
\<close>

theorem trunk_file_delete_erases:
  assumes F: "fc_ok F" and wf: "upload_wf c ctx u" and size: "24 \<le> blk_size (ctx_trunk_info ctx)"
    and del: "trunk_file_delete d (trunk_get_full_filename_ex paths (ctx_trunk_info ctx)) (ctx_trunk_info ctx) tp = (r, d', tp')"
  shows "(r = 0 \<longrightarrow>
      fst (trunk_file_do_lstat_func_ex F paths fstat d' (int (blk_path (ctx_trunk_info ctx))) (upload_true_name F sid rnd ctx) 56 sf b h [])
        = ENOENT \<and>
      (\<exists>content. d' (trunk_get_full_filename_ex paths (ctx_trunk_info ctx)) = Some content \<and>
         fst (dio_check_trunk_file_ex F content (nat (blk_off (ctx_trunk_info ctx))) []) = 0)) \<and>
    (\<forall>f. f \<noteq> trunk_get_full_filename_ex paths (ctx_trunk_info ctx) \<longrightarrow> d' f = d f) \<and>
    (\<forall>content y. d (trunk_get_full_filename_ex paths (ctx_trunk_info ctx)) = Some content \<and> 0 \<le> blk_off y \<and>
       blk_end y \<le> int (length content) \<and> 0 \<le> blk_size y \<and> (blk_end y \<le> blk_off (ctx_trunk_info ctx) \<or> blk_end (ctx_trunk_info ctx) \<le> blk_off y) \<longrightarrow>
       (\<exists>content'. d' (trunk_get_full_filename_ex paths (ctx_trunk_info ctx)) = Some content' \<and>
          take (nat (blk_size y)) (drop (nat (blk_off y)) content') = take (nat (blk_size y)) (drop (nat (blk_off y)) content)))"
proof -
  let ?info = "ctx_trunk_info ctx"
  let ?f = "trunk_get_full_filename_ex paths ?info" and ?off = "nat (blk_off ?info)" and ?n = "nat (blk_size ?info)"
  note W = upload_wfD [OF wf]
  obtain r1 c0 tp1 where op: "disk_open d ?f tp = (r1, c0, tp1)" by (metis prod_cases3)
  obtain r2 c' tp2 where z: "zero_fill_loop ?off ?n c0 tp1 = (r2, c', tp2)" by (metis prod_cases3)
  have fail: "r1 \<noteq> 0 \<Longrightarrow> r = r1 \<and> d' = d" and ok: "r1 = 0 \<Longrightarrow> r = r2 \<and> d' = d(?f := Some c') \<and> d ?f = Some c0"
    using del W(4) op z by (auto simp: trunk_file_delete_def disk_open_def split: option.splits prod.splits)
  have "fst (trunk_file_do_lstat_func_ex F paths fstat d' (int (blk_path ?info)) (upload_true_name F sid rnd ctx) 56 sf b h []) = ENOENT \<and>
      (\<exists>content. d' ?f = Some content \<and> fst (dio_check_trunk_file_ex F content ?off []) = 0)" if "r = 0"
  proof -
    have r: "r1 = 0" "r2 = 0" using that fail ok by auto
    then have Z: "length c' = max (length c0) (if ?n = 0 then 0 else ?off + ?n)" "take ?n (drop ?off c') = replicate ?n 0"
      using zero_fill_loop_zeros z by blast+
    have n: "24 \<le> ?n" using size by simp
    then have "take 24 (drop ?off c') = take 24 (take ?n (drop ?off c'))" by (simp add: min_def)
    also have "\<dots> = replicate 24 0" unfolding Z(2) using n by (simp add: min_def)
    finally have bs: "take 24 (drop ?off c') = replicate 24 0" .
    have d': "d' ?f = Some c'" using ok r by simp
    have "fst (trunk_file_do_lstat_func_ex F paths fstat d' (int (blk_path ?info)) (upload_true_name F sid rnd ctx) 56 sf b h []) = ENOENT"
      by (rule lstat_upload_name(2) [where d = d' and paths = paths and content = c', OF F wf d']) (simp_all add: bs)
    moreover have "fst (dio_check_trunk_file_ex F c' ?off []) = 0"
      using bs by (simp add: dio_check_trunk_file_ex_def safe_pread_def)
    ultimately show ?thesis using d' by blast
  qed
  moreover have "\<exists>content'. d' ?f = Some content' \<and>
      take (nat (blk_size y)) (drop (nat (blk_off y)) content') = take (nat (blk_size y)) (drop (nat (blk_off y)) content)"
    if y: "d ?f = Some content" "0 \<le> blk_off y" "blk_end y \<le> int (length content)" "0 \<le> blk_size y"
      "blk_end y \<le> blk_off ?info \<or> blk_end ?info \<le> blk_off y" for content y
  proof (cases "r1 = 0")
    case True
    with ok y(1) have c0: "c0 = content" "d' ?f = Some c'" by auto
    have "take (nat (blk_size y)) (drop (nat (blk_off y)) c') = take (nat (blk_size y)) (drop (nat (blk_off y)) c0)"
      by (rule zero_fill_loop_apart [OF z, THEN conjunct1]) (use y c0 W(4) size in \<open>auto simp: nat_add_distrib [symmetric]\<close>)
    with c0 show ?thesis by simp
  qed (use fail y(1) in simp)
  moreover have "\<forall>f. f \<noteq> ?f \<longrightarrow> d' f = d f" using fail ok by (cases "r1 = 0") simp_all
  ultimately show ?thesis by blast
qed

theorem trunk_file_delete_erases_witness:
  "\<exists>d' tp'. trunk_file_delete (\<lambda>_. Some []) (trunk_get_full_filename_ex [] (ctx_trunk_info sample_ctx)) (ctx_trunk_info sample_ctx) []
       = (0, d', tp') \<and>
     fst (trunk_file_do_lstat_func_ex fc_impl [] (\<lambda>_ _. Inl 0) d' (int (blk_path (ctx_trunk_info sample_ctx)))
       (upload_true_name fc_impl 1 5 sample_ctx) 56 0 (ctx_trunk_info sample_ctx) (chunk_header sample_ctx) []) = ENOENT"
proof -
  obtain r d' tp' where del: "trunk_file_delete (\<lambda>_. Some []) (trunk_get_full_filename_ex [] (ctx_trunk_info sample_ctx))
      (ctx_trunk_info sample_ctx) [] = (r, d', tp')" by (metis prod_cases3)
  have "fst (zero_fill_loop 256 512 [] []) = 0"
    by (simp add: zero_fill_loop.simps [of 256 512] zero_fill_loop_0 safe_pwrite_def)
  then have "r = 0"
    using del by (auto simp: trunk_file_delete_def disk_open_def sample_ctx_def split: prod.splits)
  moreover have "24 \<le> blk_size (ctx_trunk_info sample_ctx)" by (simp add: sample_ctx_def)
  ultimately show ?thesis using trunk_file_delete_erases [OF fc_impl_ok sample_upload_wf _ del] del by blast
qed

end
