(* ===== verification/Trunk_Mem.thy ===== *)
theory Trunk_Mem
  imports Trunk_Checker Trunk_Binlog Trunk_Shared
begin

text \<open>
  The allocator of \<open>storage/trunk_mgr/trunk_mem.c\<close>. The trunk server keeps every free
  block of every trunk file in two indexes: by size (one tree per store path, whose entries
  chain the blocks of one size) and by trunk file (\<open>Trunk_Checker\<close>). Allocation takes the
  first free block of the smallest sufficient size, splits off what is not needed, and puts
  the allocated block back with status \<open>HOLD\<close>; the client then confirms, which removes
  it, or gives it up, which makes it free again.

  The state record holds the globals of the file. Functions that may run forever (the
  search loop and the search for a new file name) are \<open>option\<close> valued, \<open>None\<close> meaning
  that the call does not return. Locks are held around the operations as a whole and are
  not modelled.
\<close>

section \<open>Configuration and state\<close>

abbreviation (input) STORAGE_TRUNK_INIT_FLAG_NONE :: nat where "STORAGE_TRUNK_INIT_FLAG_NONE \<equiv> 0"
abbreviation (input) STORAGE_TRUNK_INIT_FLAG_DESTROYING :: nat where "STORAGE_TRUNK_INIT_FLAG_DESTROYING \<equiv> 1"
abbreviation (input) STORAGE_TRUNK_INIT_FLAG_DONE :: nat where "STORAGE_TRUNK_INIT_FLAG_DONE \<equiv> 2"

text \<open>
  One observation of \<open>stat\<close>: \<open>Inl\<close> the \<open>errno\<close> of a failure, \<open>Inr\<close> the size, the
  modification time and \<open>g_current_time\<close> when it was read.
\<close>

type_synonym stat_obs = "int + int \<times> int \<times> int"

record ('t, 'u) trunk_env =
  size_api :: "(int, FDFSTrunkSlot, 't) avl_api"
  id_api :: "'u id_avl"
  fc :: fc_api
  stores :: store_conf
  g_slot_min_size :: int
  g_slot_max_size :: int
  g_trunk_alloc_alignment_size :: int
  g_trunk_file_size :: int
  g_trunk_create_file_advance :: bool
  g_trunk_create_file_space_threshold :: int
  stat_polls :: "string \<Rightarrow> stat_obs list"

record ('t, 'u) trunk_state =
  g_if_trunker_self :: bool
  trunk_init_flag :: nat
  tree_info_by_sizes :: "'t list"
  tree_info_by_id :: 'u
  g_trunk_total_free_space :: int
  g_current_trunk_file_id :: int
  g_current_time :: int
  trunk_log :: trunk_binlog
  store_st :: store_state
  trunk_files :: "string list"
  ext :: ext_tape

text \<open>The tree of one store path.\<close>

abbreviation size_tree :: "('t, 'u) trunk_state \<Rightarrow> nat \<Rightarrow> 't" where
  "size_tree s i \<equiv> tree_info_by_sizes s ! i"

definition set_size_tree :: "nat \<Rightarrow> 't \<Rightarrow> ('t, 'u) trunk_state \<Rightarrow> ('t, 'u) trunk_state" where
  "set_size_tree i t s = s\<lparr>tree_info_by_sizes := (tree_info_by_sizes s)[i := t]\<rparr>"

definition STORAGE_TRUNK_CHECK_STATUS :: "('t, 'u) trunk_state \<Rightarrow> int" where
  "STORAGE_TRUNK_CHECK_STATUS s =
     (if \<not> g_if_trunker_self s then EINVAL
      else if trunk_init_flag s \<noteq> STORAGE_TRUNK_INIT_FLAG_DONE then EINVAL
      else 0)"

text \<open>An allocation of \<open>fast_mblock_alloc\<close>, with the default \<open>EIO\<close> of its callers.\<close>

definition mblock_alloc :: "('t, 'u) trunk_state \<Rightarrow> int \<times> ('t, 'u) trunk_state" where
  "mblock_alloc s = (case ext_call EIO (ext s) of (r, tp) \<Rightarrow> (r, s\<lparr>ext := tp\<rparr>))"

section \<open>The binlog and the count of the free space\<close>

definition trunk_mem_binlog_write ::
    "char \<Rightarrow> FDFSTrunkFullInfo \<Rightarrow> ('t, 'u) trunk_state \<Rightarrow> int \<times> ('t, 'u) trunk_state" where
  "trunk_mem_binlog_write op_type pTrunk s =
     (let s1 =
        (if op_type = TRUNK_OP_TYPE_ADD_SPACE
         then s\<lparr>g_trunk_total_free_space := g_trunk_total_free_space s + blk_size pTrunk\<rparr>
         else if op_type = TRUNK_OP_TYPE_DEL_SPACE
         then s\<lparr>g_trunk_total_free_space := g_trunk_total_free_space s - blk_size pTrunk\<rparr>
         else s)
      in case trunk_binlog_write (g_current_time s1) op_type pTrunk (trunk_log s1) (ext s1) of
           (r, lg, tp) \<Rightarrow> (r, s1\<lparr>trunk_log := lg, ext := tp\<rparr>))"

section \<open>Adding a block\<close>

definition checker_insert ::
    "('t, 'u) trunk_env \<Rightarrow> FDFSTrunkFullInfo \<Rightarrow> ('t, 'u) trunk_state \<Rightarrow> int \<times> ('t, 'u) trunk_state" where
  "checker_insert e b s =
     (case trunk_free_block_insert (id_api e) b (tree_info_by_id s) (ext s) of
        (r, t, tp) \<Rightarrow> (r, s\<lparr>tree_info_by_id := t, ext := tp\<rparr>))"

definition checker_delete ::
    "('t, 'u) trunk_env \<Rightarrow> FDFSTrunkFullInfo \<Rightarrow> ('t, 'u) trunk_state \<Rightarrow> int \<times> ('t, 'u) trunk_state" where
  "checker_delete e b s =
     (case trunk_free_block_delete (id_api e) b (tree_info_by_id s) (ext s) of
        (r, t, tp) \<Rightarrow> (r, s\<lparr>tree_info_by_id := t, ext := tp\<rparr>))"

text \<open>The chain of the block's size: found and extended, or a new one.\<close>

definition size_tree_push ::
    "('t, 'u) trunk_env \<Rightarrow> FDFSTrunkFullInfo \<Rightarrow> ('t, 'u) trunk_state \<Rightarrow> int \<times> ('t, 'u) trunk_state" where
  "size_tree_push e b s =
     (let i = blk_path b; t = size_tree s i in
      case avl_find (size_api e) t (blk_size b) of
        Some chain \<Rightarrow> (0, set_size_tree i (avl_store (size_api e) t (chain\<lparr>slot_head := b # slot_head chain\<rparr>)) s)
      | None \<Rightarrow>
          (case mblock_alloc s of
             (r, s1) \<Rightarrow>
               if r \<noteq> 0 then (r, s1)
               else
                 (case avl_insert (size_api e) t \<lparr>slot_size = blk_size b, slot_head = [b]\<rparr> of
                    (t', ins) \<Rightarrow>
                      if ins \<noteq> 1 then
                        (case ext_pop (ext s1) of
                           (x, tp) \<Rightarrow> (errno_or (ext_errno x) ENOMEM, set_size_tree i t' (s1\<lparr>ext := tp\<rparr>)))
                      else (0, set_size_tree i t' s1))))"

definition trunk_add_free_block_ex ::
    "('t, 'u) trunk_env \<Rightarrow> FDFSTrunkFullInfo \<Rightarrow> bool \<Rightarrow> ('t, 'u) trunk_state \<Rightarrow> int \<times> ('t, 'u) trunk_state" where
  "trunk_add_free_block_ex e pNode bWriteBinLog s =
     (let dup = trunk_free_block_check_duplicate (id_api e) pNode (tree_info_by_id s) in
      if dup \<noteq> 0 then (dup, s)
      else
        (case size_tree_push e pNode s of
           (r, s1) \<Rightarrow>
             if r \<noteq> 0 then (r, s1)
             else
               let (result, s2) =
                 (if bWriteBinLog then trunk_mem_binlog_write TRUNK_OP_TYPE_ADD_SPACE pNode s1
                  else (0, s1\<lparr>g_trunk_total_free_space := g_trunk_total_free_space s1 + blk_size pNode\<rparr>))
               in if result = 0 then checker_insert e pNode s2
                  else (case checker_insert e pNode s2 of (_, s3) \<Rightarrow> (result, s3))))"

text \<open>The result, the new node (\<open>None\<close> for \<open>NULL\<close>) and the state.\<close>

definition free_space_by_trunk ::
    "('t, 'u) trunk_env \<Rightarrow> FDFSTrunkFullInfo \<Rightarrow> bool \<Rightarrow> ('t, 'u) trunk_state
     \<Rightarrow> int \<times> FDFSTrunkFullInfo option \<times> ('t, 'u) trunk_state" where
  "free_space_by_trunk e pTrunkInfo bWriteBinLog s =
     (case mblock_alloc s of
        (r, s1) \<Rightarrow>
          if r \<noteq> 0 then (r, None, s1)
          else
            let pTrunkNode = pTrunkInfo\<lparr>trunk_status := FDFS_TRUNK_STATUS_FREE\<rparr>
            in (case trunk_add_free_block_ex e pTrunkNode bWriteBinLog s1 of (r, s2) \<Rightarrow> (r, Some pTrunkNode, s2)))"

definition trunk_free_space ::
    "('t, 'u) trunk_env \<Rightarrow> FDFSTrunkFullInfo \<Rightarrow> bool \<Rightarrow> ('t, 'u) trunk_state \<Rightarrow> int \<times> ('t, 'u) trunk_state" where
  "trunk_free_space e pTrunkInfo bWriteBinLog s =
     (if \<not> g_if_trunker_self s then (EINVAL, s)
      else if trunk_init_flag s \<noteq> STORAGE_TRUNK_INIT_FLAG_DONE \<and> bWriteBinLog then (EINVAL, s)
      else if blk_size pTrunkInfo < g_slot_min_size e then (0, s)
      else (case free_space_by_trunk e pTrunkInfo bWriteBinLog s of (r, _, s') \<Rightarrow> (r, s')))"

section \<open>Removing a block\<close>

definition trunk_delete_size_tree_entry ::
    "('t, 'u) trunk_env \<Rightarrow> nat \<Rightarrow> FDFSTrunkSlot \<Rightarrow> ('t, 'u) trunk_state \<Rightarrow> ('t, 'u) trunk_state" where
  "trunk_delete_size_tree_entry e i pSlot s =
     (case avl_delete (size_api e) (size_tree s i) (slot_size pSlot) of (t', _) \<Rightarrow> set_size_tree i t' s)"

text \<open>
  Unlinking the node between \<open>pre\<close> and \<open>post\<close> from the chain of a slot; when the chain
  becomes empty the slot goes too.
\<close>

definition size_tree_unlink ::
    "('t, 'u) trunk_env \<Rightarrow> nat \<Rightarrow> FDFSTrunkSlot \<Rightarrow> FDFSTrunkFullInfo list \<Rightarrow> FDFSTrunkFullInfo list
     \<Rightarrow> ('t, 'u) trunk_state \<Rightarrow> ('t, 'u) trunk_state" where
  "size_tree_unlink e i pSlot pre post s =
     (let pSlot' = pSlot\<lparr>slot_head := pre @ post\<rparr>;
          s1 = set_size_tree i (avl_store (size_api e) (size_tree s i) pSlot') s
      in if pre = [] \<and> post = [] then trunk_delete_size_tree_entry e i pSlot' s1 else s1)"

definition trunk_delete_space_ex ::
    "('t, 'u) trunk_env \<Rightarrow> FDFSTrunkFullInfo \<Rightarrow> bool \<Rightarrow> ('t, 'u) trunk_state \<Rightarrow> int \<times> ('t, 'u) trunk_state" where
  "trunk_delete_space_ex e pTrunkInfo bWriteBinLog s =
     (let i = blk_path pTrunkInfo in
      case avl_find (size_api e) (size_tree s i) (blk_size pTrunkInfo) of
        None \<Rightarrow> (ENOENT, s)
      | Some pSlot \<Rightarrow>
          (case dropWhile (\<lambda>n. n \<noteq> pTrunkInfo) (slot_head pSlot) of
             [] \<Rightarrow> (ENOENT, s)
           | pCurrent # post \<Rightarrow>
               let s1 = size_tree_unlink e i pSlot (takeWhile (\<lambda>n. n \<noteq> pTrunkInfo) (slot_head pSlot)) post s;
                   (_, s2) = checker_delete e pCurrent s1
               in if bWriteBinLog then trunk_mem_binlog_write TRUNK_OP_TYPE_DEL_SPACE pCurrent s2
                  else (0, s2\<lparr>g_trunk_total_free_space := g_trunk_total_free_space s2 - blk_size pCurrent\<rparr>)))"

text \<open>
  The status of a node that both indexes point to: the node in the chain and the same node
  in the array of its trunk file.
\<close>

definition checker_set_status :: "'u id_avl \<Rightarrow> FDFSTrunkFullInfo \<Rightarrow> int \<Rightarrow> 'u \<Rightarrow> 'u" where
  "checker_set_status B b st t =
     (case avl_find B t (FILL_FILE_IDENTIFIER b) of
        None \<Rightarrow> t
      | Some d \<Rightarrow> avl_store B t (d\<lparr>tb_array := (tb_array d)\<lparr>ba_blocks :=
          map (\<lambda>x. if x = b then x\<lparr>trunk_status := st\<rparr> else x) (ba_blocks (tb_array d))\<rparr>\<rparr>))"

definition trunk_restore_node ::
    "('t, 'u) trunk_env \<Rightarrow> FDFSTrunkFullInfo \<Rightarrow> ('t, 'u) trunk_state \<Rightarrow> int \<times> ('t, 'u) trunk_state" where
  "trunk_restore_node e pTrunkInfo s =
     (let i = blk_path pTrunkInfo in
      case avl_find (size_api e) (size_tree s i) (blk_size pTrunkInfo) of
        None \<Rightarrow> (ENOENT, s)
      | Some pSlot \<Rightarrow>
          (case dropWhile (\<lambda>n. n \<noteq> pTrunkInfo) (slot_head pSlot) of
             [] \<Rightarrow> (ENOENT, s)
           | pCurrent # post \<Rightarrow>
               (0, (set_size_tree i (avl_store (size_api e) (size_tree s i)
                     (pSlot\<lparr>slot_head := takeWhile (\<lambda>n. n \<noteq> pTrunkInfo) (slot_head pSlot) @
                        pCurrent\<lparr>trunk_status := FDFS_TRUNK_STATUS_FREE\<rparr> # post\<rparr>)) s)
                   \<lparr>tree_info_by_id := checker_set_status (id_api e) pCurrent FDFS_TRUNK_STATUS_FREE (tree_info_by_id s)\<rparr>)))"

section \<open>Splitting a block\<close>

text \<open>The result, the node (its size is set when a rest was split off) and the state.\<close>

definition trunk_split ::
    "('t, 'u) trunk_env \<Rightarrow> FDFSTrunkFullInfo \<Rightarrow> int \<Rightarrow> ('t, 'u) trunk_state
     \<Rightarrow> int \<times> FDFSTrunkFullInfo \<times> ('t, 'u) trunk_state" where
  "trunk_split e pNode sz s =
     (if blk_size pNode - sz < g_slot_min_size e then
        (case trunk_mem_binlog_write TRUNK_OP_TYPE_DEL_SPACE pNode s of (r, s1) \<Rightarrow> (r, pNode, s1))
      else
        (case mblock_alloc s of
           (r, s1) \<Rightarrow>
             if r \<noteq> 0 then (r, pNode, s1)
             else
               (case trunk_mem_binlog_write TRUNK_OP_TYPE_DEL_SPACE pNode s1 of
                  (r, s2) \<Rightarrow>
                    if r \<noteq> 0 then (r, pNode, s2)
                    else
                      let pTrunkNode = pNode\<lparr>trunk_status := FDFS_TRUNK_STATUS_FREE,
                            trunk_file := (trunk_file pNode)\<lparr>trunk_offset := blk_off pNode + sz,
                              trunk_size := blk_size pNode - sz\<rparr>\<rparr>
                      in (case trunk_add_free_block_ex e pTrunkNode True s2 of
                            (r, s3) \<Rightarrow>
                              if r \<noteq> 0 then (r, pNode, s3)
                              else (0, pNode\<lparr>trunk_file := (trunk_file pNode)\<lparr>trunk_size := sz\<rparr>\<rparr>, s3)))))"

section \<open>Creating a trunk file\<close>

text \<open>\<open>trunk_get_full_filename\<close> of \<open>trunk_shared.c\<close>; the file name is \<open>%06u\<close> of the id.\<close>

definition trunk_get_full_filename :: "('t, 'u) trunk_env \<Rightarrow> FDFSTrunkFullInfo \<Rightarrow> string" where
  "trunk_get_full_filename e pTrunkInfo = trunk_get_full_filename_ex (g_fdfs_store_paths (stores e)) pTrunkInfo"

text \<open>
  The polling loop of \<open>trunk_wait_file_ready\<close> over the results of \<open>stat\<close>; the first
  observation fixes the modification time. A file that never grows times out.
\<close>

fun wait_file_loop :: "int \<Rightarrow> int \<Rightarrow> stat_obs list \<Rightarrow> int" where
  "wait_file_loop file_size file_mtime [] = ETIMEDOUT"
| "wait_file_loop file_size file_mtime (Inl e # obs) = errno_or e ENOENT"
| "wait_file_loop file_size file_mtime (Inr (fsize, fmtime, current_time) # obs) =
     (if fsize \<ge> file_size then 0
      else if \<bar>current_time - file_mtime\<bar> > 10 then ETIMEDOUT
      else wait_file_loop file_size file_mtime obs)"

definition trunk_wait_file_ready :: "int \<Rightarrow> stat_obs list \<Rightarrow> int" where
  "trunk_wait_file_ready file_size obs =
     (case obs of
        [] \<Rightarrow> ETIMEDOUT
      | Inl e # _ \<Rightarrow> errno_or e ENOENT
      | Inr (_, fmtime, _) # _ \<Rightarrow> wait_file_loop file_size fmtime obs)"

text \<open>
  \<open>open\<close> with \<open>O_CREAT | O_EXCL\<close> and \<open>ftruncate\<close>. \<open>EEXIST\<close> means that another thread
  has created the file in the meantime.
\<close>

definition trunk_init_file_ex ::
    "('t, 'u) trunk_env \<Rightarrow> string \<Rightarrow> int \<Rightarrow> ('t, 'u) trunk_state \<Rightarrow> int \<times> ('t, 'u) trunk_state" where
  "trunk_init_file_ex e filename file_size s =
     (case ext_call EEXIST (ext s) of
        (r, tp) \<Rightarrow>
          if r \<noteq> 0 then
            (if r = EEXIST
             then (trunk_wait_file_ready file_size (stat_polls e filename),
                   s\<lparr>trunk_files := filename # trunk_files s, ext := tp\<rparr>)
             else (r, s\<lparr>ext := tp\<rparr>))
          else
            (case ext_call EIO tp of
               (r, tp') \<Rightarrow> (r, s\<lparr>trunk_files := filename # trunk_files s, ext := tp'\<rparr>)))"

text \<open>
  One round of the loop of \<open>trunk_create_next_file\<close>: the next id, which
  \<open>storage_write_to_sync_ini_file\<close> saves, and its directories. The result, the
  information of the block, the file name and the state.
\<close>

definition next_file_try ::
    "('t, 'u) trunk_env \<Rightarrow> FDFSTrunkFullInfo \<Rightarrow> ('t, 'u) trunk_state
     \<Rightarrow> int \<times> FDFSTrunkFullInfo \<times> string \<times> ('t, 'u) trunk_state" where
  "next_file_try e pTrunkInfo s =
     (let fid = g_current_trunk_file_id s + 1;
          info = pTrunkInfo\<lparr>trunk_file := (trunk_file pTrunkInfo)\<lparr>trunk_id := fid\<rparr>\<rparr>
      in case ext_call EIO (ext s) of
           (r, tp) \<Rightarrow>
             if r \<noteq> 0 then (r, info, [], s\<lparr>g_current_trunk_file_id := fid, ext := tp\<rparr>)
             else
               (case storage_get_store_path (fc e) (stores e)
                      (base64_encode_ex (fc e) (int2buff (fc e) fid)) (store_st s) of
                  (high, low, st) \<Rightarrow>
                    let info = info\<lparr>trunk_path :=
                          (trunk_path info)\<lparr>sub_path_high := to_u8 high, sub_path_low := to_u8 low\<rparr>\<rparr>
                    in (0, info, trunk_get_full_filename e info,
                        s\<lparr>g_current_trunk_file_id := fid, store_st := st, ext := tp\<rparr>)))"

text \<open>The loop ends with a file name that does not exist yet (\<open>fileExists\<close>).\<close>

partial_function (option) create_next_file_loop ::
    "('t, 'u) trunk_env \<Rightarrow> FDFSTrunkFullInfo \<Rightarrow> ('t, 'u) trunk_state
     \<Rightarrow> (int \<times> FDFSTrunkFullInfo \<times> string \<times> ('t, 'u) trunk_state) option" where
  "create_next_file_loop e pTrunkInfo s =
     (case next_file_try e pTrunkInfo s of
        (r, info, full_filename, s') \<Rightarrow>
          if r \<noteq> 0 then Some (r, info, full_filename, s')
          else if full_filename \<in> set (trunk_files s') then create_next_file_loop e info s'
          else Some (0, info, full_filename, s'))"

definition trunk_create_next_file ::
    "('t, 'u) trunk_env \<Rightarrow> FDFSTrunkFullInfo \<Rightarrow> ('t, 'u) trunk_state
     \<Rightarrow> (int \<times> FDFSTrunkFullInfo \<times> ('t, 'u) trunk_state) option" where
  "trunk_create_next_file e pTrunkInfo s =
     (case create_next_file_loop e pTrunkInfo s of
        None \<Rightarrow> None
      | Some (r, info, full_filename, s1) \<Rightarrow>
          if r \<noteq> 0 then Some (r, info, s1)
          else (case trunk_init_file_ex e full_filename (g_trunk_file_size e) s1 of (r, s2) \<Rightarrow> Some (r, info, s2)))"

text \<open>\<open>*err_no\<close>, the node (\<open>None\<close> for \<open>NULL\<close>) and the state; \<open>err\<close> is \<open>*err_no\<close> at the call.\<close>

definition trunk_create_trunk_file ::
    "('t, 'u) trunk_env \<Rightarrow> int \<Rightarrow> int \<Rightarrow> ('t, 'u) trunk_state
     \<Rightarrow> (int \<times> FDFSTrunkFullInfo option \<times> ('t, 'u) trunk_state) option" where
  "trunk_create_trunk_file e index err s =
     (case mblock_alloc s of
        (r, s1) \<Rightarrow>
          if r \<noteq> 0 then Some (r, None, s1)
          else
            let (result, path_index, s2) =
              (if index \<ge> 0 then (0, index, s1)
               else (case storage_get_storage_path_index (stores e) (store_st s1) of
                       (result, i, st) \<Rightarrow> (result, i, s1\<lparr>store_st := st\<rparr>)))
            in if result \<noteq> 0 then Some (err, None, s2)
               else
                 (case trunk_create_next_file e
                        \<lparr>trunk_status = FDFS_TRUNK_STATUS_FREE,
                         trunk_path = \<lparr>store_path_index = to_u8 path_index, sub_path_high = 0, sub_path_low = 0\<rparr>,
                         trunk_file = \<lparr>trunk_id = 0, trunk_offset = 0, trunk_size = g_trunk_file_size e\<rparr>\<rparr> s2 of
                    None \<Rightarrow> None
                  | Some (r, info, s3) \<Rightarrow>
                      if r \<noteq> 0 then Some (r, None, s3)
                      else (case trunk_mem_binlog_write TRUNK_OP_TYPE_ADD_SPACE info s3 of
                              (r, s4) \<Rightarrow> Some (r, Some info, s4))))"

section \<open>Allocation\<close>

definition trunk_aligned_size :: "('t, 'u) trunk_env \<Rightarrow> int \<Rightarrow> int" where
  "trunk_aligned_size e sz =
     (if sz \<le> g_slot_min_size e then g_slot_min_size e
      else if g_trunk_alloc_alignment_size e = 0 then sz
      else
        let remain = sz smod g_trunk_alloc_alignment_size e
        in if remain = 0 then sz else sz + (g_trunk_alloc_alignment_size e - remain))"

text \<open>
  The search loop: the slot, what is before the free node in its chain, the node and what
  is after it; \<open>Some None\<close> when no slot of sufficient size has a free node.
\<close>

partial_function (option) alloc_search ::
    "(int, FDFSTrunkSlot, 't) avl_api \<Rightarrow> 't \<Rightarrow> int
     \<Rightarrow> (FDFSTrunkSlot \<times> FDFSTrunkFullInfo list \<times> FDFSTrunkFullInfo \<times> FDFSTrunkFullInfo list) option option" where
  "alloc_search A t target =
     (case avl_find_ge A t target of
        None \<Rightarrow> Some None
      | Some pSlot \<Rightarrow>
          (case dropWhile (\<lambda>n. trunk_status n \<noteq> FDFS_TRUNK_STATUS_FREE) (slot_head pSlot) of
             [] \<Rightarrow> alloc_search A t (slot_size pSlot + 1)
           | pTrunkNode # post \<Rightarrow>
               Some (Some (pSlot, takeWhile (\<lambda>n. trunk_status n \<noteq> FDFS_TRUNK_STATUS_FREE) (slot_head pSlot),
                 pTrunkNode, post))))"

text \<open>The result, \<open>*pResult\<close> and the state.\<close>

definition trunk_alloc_finish ::
    "('t, 'u) trunk_env \<Rightarrow> int \<Rightarrow> FDFSTrunkFullInfo \<Rightarrow> FDFSTrunkFullInfo \<Rightarrow> ('t, 'u) trunk_state
     \<Rightarrow> int \<times> FDFSTrunkFullInfo \<times> ('t, 'u) trunk_state" where
  "trunk_alloc_finish e aligned_size pTrunkNode pResult s =
     (case trunk_split e pTrunkNode aligned_size s of
        (r, node, s1) \<Rightarrow>
          if r \<noteq> 0 then (r, pResult, s1)
          else
            let node = node\<lparr>trunk_status := FDFS_TRUNK_STATUS_HOLD\<rparr>
            in (case trunk_add_free_block_ex e node True s1 of
                  (r, s2) \<Rightarrow> (r, if r = 0 then node else pResult, s2)))"

definition trunk_alloc_space ::
    "('t, 'u) trunk_env \<Rightarrow> int \<Rightarrow> FDFSTrunkFullInfo \<Rightarrow> ('t, 'u) trunk_state
     \<Rightarrow> (int \<times> FDFSTrunkFullInfo \<times> ('t, 'u) trunk_state) option" where
  "trunk_alloc_space e sz pResult s =
     (if STORAGE_TRUNK_CHECK_STATUS s \<noteq> 0 then Some (STORAGE_TRUNK_CHECK_STATUS s, pResult, s)
      else
        let aligned_size = trunk_aligned_size e sz; i = blk_path pResult in
        case alloc_search (size_api e) (size_tree s i) aligned_size of
          None \<Rightarrow> None
        | Some (Some (pSlot, pre, pTrunkNode, post)) \<Rightarrow>
            let s1 = size_tree_unlink e i pSlot pre post s; (_, s2) = checker_delete e pTrunkNode s1
            in Some (trunk_alloc_finish e aligned_size pTrunkNode pResult s2)
        | Some None \<Rightarrow>
            (case trunk_create_trunk_file e (int i) 0 s of
               None \<Rightarrow> None
             | Some (r, None, s1) \<Rightarrow> Some (r, pResult, s1)
             | Some (r, Some pTrunkNode, s1) \<Rightarrow> Some (trunk_alloc_finish e aligned_size pTrunkNode pResult s1)))"

definition trunk_alloc_confirm ::
    "('t, 'u) trunk_env \<Rightarrow> FDFSTrunkFullInfo \<Rightarrow> int \<Rightarrow> ('t, 'u) trunk_state \<Rightarrow> int \<times> ('t, 'u) trunk_state" where
  "trunk_alloc_confirm e pTrunkInfo status s =
     (if STORAGE_TRUNK_CHECK_STATUS s \<noteq> 0 then (STORAGE_TRUNK_CHECK_STATUS s, s)
      else
        let target = pTrunkInfo\<lparr>trunk_status := FDFS_TRUNK_STATUS_HOLD\<rparr> in
        if status = 0 then trunk_delete_space_ex e target True s
        else if status = EEXIST then trunk_delete_space_ex e target True s
        else trunk_restore_node e target s)"

definition trunk_check_size :: "('t, 'u) trunk_env \<Rightarrow> int \<Rightarrow> bool" where
  "trunk_check_size e file_size \<longleftrightarrow> file_size \<le> g_slot_max_size e"

section \<open>Creating trunk files in advance\<close>

primrec create_advance_loop ::
    "('t, 'u) trunk_env \<Rightarrow> nat \<Rightarrow> int \<Rightarrow> ('t, 'u) trunk_state \<Rightarrow> (int \<times> ('t, 'u) trunk_state) option" where
  "create_advance_loop e 0 result s = Some (result, s)"
| "create_advance_loop e (Suc n) result s =
     (case trunk_create_trunk_file e (-1) result s of
        None \<Rightarrow> None
      | Some (r, None, s1) \<Rightarrow> create_advance_loop e n r s1
      | Some (r, Some node, s1) \<Rightarrow>
          (case trunk_add_free_block_ex e node False s1 of
             (r, s2) \<Rightarrow> if r \<noteq> 0 then Some (r, s2) else create_advance_loop e n r s2))"

definition trunk_create_trunk_file_advance ::
    "('t, 'u) trunk_env \<Rightarrow> ('t, 'u) trunk_state \<Rightarrow> (int \<times> ('t, 'u) trunk_state) option" where
  "trunk_create_trunk_file_advance e s =
     (if \<not> g_trunk_create_file_advance e then Some (EINVAL, s)
      else if \<not> g_if_trunker_self s then Some (ENOENT, s)
      else
        let alloc_space = g_trunk_create_file_space_threshold e - g_trunk_total_free_space s;
            paths = g_fdfs_store_paths (stores e);
            total_mb_sum = sum_list (map total_mb paths); free_mb_sum = sum_list (map free_mb paths);
            reserved_mb = (case g_storage_reserved_space (stores e) of Reserved_MB mb \<Rightarrow> mb | Reserved_Ratio _ \<Rightarrow> 0)
        in if alloc_space \<le> 0 then Some (0, s)
           else if \<not> fdfs_check_reserved_space_path total_mb_sum (free_mb_sum - alloc_space sdiv 1048576) reserved_mb
                  (g_storage_reserved_space (stores e))
             then Some (ENOSPC, s)
           else create_advance_loop e (nat (alloc_space sdiv g_trunk_file_size e)) 0 s)"

section \<open>The index by size\<close>

text \<open>The nodes a tree holds, and the shape of its slots: no empty chain, one size, one path.\<close>

definition tree_nodes :: "(int, FDFSTrunkSlot, 't) avl_api \<Rightarrow> 't \<Rightarrow> FDFSTrunkFullInfo list" where
  "tree_nodes A t = concat (map slot_head (avl_walk A t))"

definition slots_inv :: "(int, FDFSTrunkSlot, 't) avl_api \<Rightarrow> nat \<Rightarrow> 't \<Rightarrow> bool" where
  "slots_inv A i t \<longleftrightarrow> avl_valid A t \<and>
     (\<forall>sl \<in> set (avl_walk A t). slot_head sl \<noteq> [] \<and>
        (\<forall>b \<in> set (slot_head sl). blk_size b = slot_size sl \<and> blk_path b = i))"

definition size_nodes :: "('t, 'u) trunk_env \<Rightarrow> ('t, 'u) trunk_state \<Rightarrow> FDFSTrunkFullInfo multiset" where
  "size_nodes e s = mset (concat (map (tree_nodes (size_api e)) (tree_info_by_sizes s)))"

definition size_trees_ok :: "('t, 'u) trunk_env \<Rightarrow> ('t, 'u) trunk_state \<Rightarrow> bool" where
  "size_trees_ok e s \<longleftrightarrow> (\<forall>i < length (tree_info_by_sizes s). slots_inv (size_api e) i (size_tree s i))"

abbreviation size_avl_ok :: "(int, FDFSTrunkSlot, 't) avl_api \<Rightarrow> bool" where
  "size_avl_ok A \<equiv> avl_ok A slot_size (<)"

lemma mset_concat_list_update:
  assumes "i < length xs"
  shows "mset (concat (map f (xs[i := y]))) + mset (f (xs ! i)) = mset (concat (map f xs)) + mset (f y)"
proof -
  have "mset (concat (map f xs)) = mset (concat (map f (take i xs))) + mset (f (xs ! i)) + mset (concat (map f (drop (Suc i) xs)))"
    by (subst id_take_nth_drop [OF assms]) simp
  then show ?thesis unfolding upd_conv_take_nth_drop [OF assms] by (simp add: ac_simps)
qed

lemma set_size_tree_frame [simp]:
  "tree_info_by_id (set_size_tree i t s) = tree_info_by_id s" "ext (set_size_tree i t s) = ext s"
  "g_trunk_total_free_space (set_size_tree i t s) = g_trunk_total_free_space s"
  "tree_info_by_sizes (set_size_tree i t s) = (tree_info_by_sizes s)[i := t]"
  by (simp_all add: set_size_tree_def)

text \<open>Replacing one tree: what it takes to keep the shape, and what happens to the nodes.\<close>

lemma set_size_tree_ok:
  assumes "size_trees_ok e s" "i < length (tree_info_by_sizes s)" "slots_inv (size_api e) i t"
  shows "size_trees_ok e (set_size_tree i t s)"
  using assms by (auto simp: size_trees_ok_def nth_list_update)

lemma set_size_tree_add:
  assumes "i < length (tree_info_by_sizes s)"
    and "mset (tree_nodes (size_api e) t) = add_mset b (mset (tree_nodes (size_api e) (size_tree s i)))"
  shows "size_nodes e (set_size_tree i t s) = add_mset b (size_nodes e s)"
  using mset_concat_list_update [OF assms(1), of "tree_nodes (size_api e)" t] assms(2)
  by (simp add: size_nodes_def)

lemma set_size_tree_remove:
  assumes "i < length (tree_info_by_sizes s)"
    and "mset (tree_nodes (size_api e) (size_tree s i)) = add_mset b (mset (tree_nodes (size_api e) t))"
  shows "size_nodes e s = add_mset b (size_nodes e (set_size_tree i t s))"
  using mset_concat_list_update [OF assms(1), of "tree_nodes (size_api e)" t] assms(2)
  by (simp add: size_nodes_def)

lemma tree_nodes_split:
  "avl_walk A t = ys @ d # zs \<Longrightarrow> mset (tree_nodes A t) = mset (slot_head d) + mset (concat (map slot_head (ys @ zs)))"
  by (simp add: tree_nodes_def ac_simps)

lemma slots_store:
  assumes ok: "size_avl_ok A" and inv: "slots_inv A i t" and f: "avl_find A t k = Some sl"
    and sl': "slot_size sl' = slot_size sl" "slot_head sl' \<noteq> []"
      "\<forall>b \<in> set (slot_head sl'). blk_size b = slot_size sl \<and> blk_path b = i"
  shows "slots_inv A i (avl_store A t sl') \<and>
    mset (tree_nodes A (avl_store A t sl')) + mset (slot_head sl) = mset (tree_nodes A t) + mset (slot_head sl')"
proof -
  have v: "avl_valid A t" using inv by (simp add: slots_inv_def)
  have "avl_find A t (slot_size sl') = Some sl" using f avl_find_SomeD(2) [OF ok v f] sl'(1) by simp
  then obtain ys zs where w: "avl_walk A t = ys @ sl # zs" "avl_walk A (avl_store A t sl') = ys @ sl' # zs"
      "avl_valid A (avl_store A t sl')"
    using avl_store_split [OF ok v] by metis
  have "slots_inv A i (avl_store A t sl')" using inv w sl' by (auto simp: slots_inv_def)
  then show ?thesis unfolding tree_nodes_split [OF w(1)] tree_nodes_split [OF w(2)] by simp
qed

lemma slots_insert:
  assumes ok: "size_avl_ok A" and inv: "slots_inv A i t" and f: "avl_find A t (blk_size b) = None"
    and p: "blk_path b = i" and ins: "avl_insert A t \<lparr>slot_size = blk_size b, slot_head = [b]\<rparr> = (t', r)"
  shows "(r = 1 \<and> slots_inv A i t' \<and> mset (tree_nodes A t') = add_mset b (mset (tree_nodes A t))) \<or> (r < 0 \<and> t' = t)"
proof -
  let ?d = "\<lparr>slot_size = blk_size b, slot_head = [b]\<rparr>"
  have v: "avl_valid A t" using inv by (simp add: slots_inv_def)
  have fresh: "slot_size ?d \<notin> slot_size ` set (avl_walk A t)" using f avl_find_None_iff [OF ok v] by simp
  show ?thesis
  proof (rule avl_insert_cases [OF ok v ins fresh])
    fix xs ys assume "r = 1" "avl_valid A t'" "avl_walk A t = xs @ ys" "avl_walk A t' = xs @ ?d # ys"
    then show ?thesis using inv p by (auto simp: slots_inv_def tree_nodes_def)
  next
    assume "r < 0" "t' = t"
    then show ?thesis by simp
  qed
qed

text \<open>The part of the state that the operations on blocks do not touch.\<close>

definition same_rest :: "('t, 'u) trunk_state \<Rightarrow> ('t, 'u) trunk_state \<Rightarrow> bool" where
  "same_rest s s' \<longleftrightarrow>
     g_if_trunker_self s' = g_if_trunker_self s \<and> trunk_init_flag s' = trunk_init_flag s \<and>
     g_current_trunk_file_id s' = g_current_trunk_file_id s \<and> g_current_time s' = g_current_time s \<and>
     store_st s' = store_st s \<and> trunk_files s' = trunk_files s \<and>
     length (tree_info_by_sizes s') = length (tree_info_by_sizes s)"

lemma same_rest_refl [simp]: "same_rest s s"
  by (simp add: same_rest_def)

lemma same_rest_trans: "same_rest s s' \<Longrightarrow> same_rest s' s'' \<Longrightarrow> same_rest s s''"
  by (simp add: same_rest_def)

lemma same_rest_set_size_tree [simp]: "same_rest s (set_size_tree i t s)"
  by (simp add: same_rest_def set_size_tree_def)

lemma mblock_alloc_spec:
  assumes "mblock_alloc s = (r, s')"
  obtains tp where "s' = s\<lparr>ext := tp\<rparr>" "ext_all_ok (ext s) \<Longrightarrow> r = 0 \<and> ext_all_ok tp"
  using assms ext_call_ok [of "ext s" EIO] by (auto simp: mblock_alloc_def split: prod.splits)

lemma size_trees_ok_ext [simp]: "size_trees_ok e (s\<lparr>ext := tp\<rparr>) = size_trees_ok e s"
  and size_nodes_ext [simp]: "size_nodes e (s\<lparr>ext := tp\<rparr>) = size_nodes e s"
  and same_rest_ext [simp]: "same_rest s (s\<lparr>ext := tp\<rparr>)"
  by (simp_all add: size_trees_ok_def size_nodes_def same_rest_def)

lemma size_tree_push_spec:
  assumes ok: "size_avl_ok (size_api e)" and inv: "size_trees_ok e s"
    and i: "blk_path b < length (tree_info_by_sizes s)" and push: "size_tree_push e b s = (r, s')"
  shows "size_trees_ok e s' \<and> size_nodes e s' = (if r = 0 then add_mset b (size_nodes e s) else size_nodes e s) \<and>
    same_rest s s' \<and> tree_info_by_id s' = tree_info_by_id s \<and>
    g_trunk_total_free_space s' = g_trunk_total_free_space s \<and> trunk_log s' = trunk_log s \<and>
    (ext_all_ok (ext s) \<and> avl_total (size_api e) \<longrightarrow> r = 0 \<and> ext_all_ok (ext s'))"
proof -
  let ?i = "blk_path b" and ?A = "size_api e"
  let ?t = "size_tree s ?i" and ?d = "\<lparr>slot_size = blk_size b, slot_head = [b]\<rparr>"
  have si: "slots_inv ?A ?i ?t" using inv i by (simp add: size_trees_ok_def)
  show ?thesis
  proof (cases "avl_find ?A ?t (blk_size b)")
    case (Some sl)
    let ?sl = "sl\<lparr>slot_head := b # slot_head sl\<rparr>"
    have "slot_size sl = blk_size b" "\<forall>x \<in> set (slot_head sl). blk_size x = slot_size sl \<and> blk_path x = ?i"
      using avl_find_SomeD [OF ok _ Some] si by (auto simp: slots_inv_def)
    then have p: "slot_size ?sl = slot_size sl" "slot_head ?sl \<noteq> []"
        "\<forall>x \<in> set (slot_head ?sl). blk_size x = slot_size sl \<and> blk_path x = ?i" by simp_all
    have st: "slots_inv ?A ?i (avl_store ?A ?t ?sl)"
        "mset (tree_nodes ?A (avl_store ?A ?t ?sl)) = add_mset b (mset (tree_nodes ?A ?t))"
      using slots_store [OF ok si Some p] by simp_all
    have "r = 0" "s' = set_size_tree ?i (avl_store ?A ?t ?sl) s"
      using push Some by (simp_all add: size_tree_push_def Let_def)
    with set_size_tree_ok [OF inv i st(1)] set_size_tree_add [OF i st(2)] show ?thesis
      by (simp add: set_size_tree_def same_rest_def)
  next
    case None
    obtain r1 s1 where m: "mblock_alloc s = (r1, s1)" by (metis surj_pair)
    obtain tp1 where s1: "s1 = s\<lparr>ext := tp1\<rparr>" "ext_all_ok (ext s) \<Longrightarrow> r1 = 0 \<and> ext_all_ok tp1"
      using mblock_alloc_spec [OF m] by metis
    obtain t' ri where a: "avl_insert ?A ?t ?d = (t', ri)" by (metis surj_pair)
    obtain x tp2 where x: "ext_pop tp1 = (x, tp2)" by (metis surj_pair)
    note unf = push [unfolded size_tree_push_def Let_def None option.case m prod.case a s1(1), simplified x, simplified]
    have i1: "?i < length (tree_info_by_sizes (s\<lparr>ext := tp\<rparr>))" for tp using i by simp
    have inv1: "size_trees_ok e (s\<lparr>ext := tp\<rparr>)" for tp using inv by simp
    consider (fail) "r1 \<noteq> 0"
      | (ins) "r1 = 0" "ri = 1" "slots_inv ?A ?i t'" "mset (tree_nodes ?A t') = add_mset b (mset (tree_nodes ?A ?t))"
      | (full) "r1 = 0" "ri < 0" "t' = ?t"
      using slots_insert [OF ok si None refl a] by blast
    then show ?thesis
    proof cases
      case fail
      then have "r = r1" "s' = s\<lparr>ext := tp1\<rparr>" using unf by auto
      with fail inv s1(2) show ?thesis by auto
    next
      case ins
      then have "r = 0" "s' = set_size_tree ?i t' (s\<lparr>ext := tp1\<rparr>)" using unf by auto
      with ins set_size_tree_ok [OF inv1 i1 ins(3)] set_size_tree_add [OF i1, of e t' b] s1(2) show ?thesis
        by (auto simp: set_size_tree_def same_rest_def)
    next
      case full
      then have "r = errno_or (ext_errno x) ENOMEM" "s' = set_size_tree ?i ?t (s\<lparr>ext := tp2\<rparr>)" using unf x by auto
      moreover have "\<not> avl_total ?A" using full a si unfolding avl_total_def slots_inv_def by (metis not_less snd_conv)
      ultimately show ?thesis using inv by (simp add: set_size_tree_def same_rest_def)
    qed
  qed
qed

lemma size_tree_unlink_spec:
  assumes ok: "size_avl_ok (size_api e)" and inv: "size_trees_ok e s"
    and i: "i < length (tree_info_by_sizes s)" and f: "avl_find (size_api e) (size_tree s i) k = Some sl"
    and sl: "slot_head sl = pre @ x # post" and s': "s' = size_tree_unlink e i sl pre post s"
  shows "size_trees_ok e s' \<and> size_nodes e s = add_mset x (size_nodes e s') \<and>
    same_rest s s' \<and> tree_info_by_id s' = tree_info_by_id s \<and>
    g_trunk_total_free_space s' = g_trunk_total_free_space s \<and> trunk_log s' = trunk_log s \<and> ext s' = ext s"
proof -
  let ?A = "size_api e" and ?t = "size_tree s i" and ?sl = "sl\<lparr>slot_head := pre @ post\<rparr>"
  have si: "slots_inv ?A i ?t" using inv i by (simp add: size_trees_ok_def)
  have v: "avl_valid ?A ?t" using si by (simp add: slots_inv_def)
  have d: "sl \<in> set (avl_walk ?A ?t)" "slot_size sl = k" using avl_find_SomeD [OF ok v f] by auto
  show ?thesis
  proof (cases "pre = [] \<and> post = []")
    case False
    have p: "slot_size ?sl = slot_size sl" "slot_head ?sl \<noteq> []"
        "\<forall>b \<in> set (slot_head ?sl). blk_size b = slot_size sl \<and> blk_path b = i"
      using False si d sl by (auto simp: slots_inv_def)
    have st: "slots_inv ?A i (avl_store ?A ?t ?sl)"
        "mset (tree_nodes ?A ?t) = add_mset x (mset (tree_nodes ?A (avl_store ?A ?t ?sl)))"
      using slots_store [OF ok si f p] sl by simp_all
    have "s' = set_size_tree i (avl_store ?A ?t ?sl) s"
      using s' False by (auto simp: size_tree_unlink_def Let_def)
    with set_size_tree_ok [OF inv i st(1)] set_size_tree_remove [OF i st(2)] show ?thesis
      by (simp add: set_size_tree_def same_rest_def)
  next
    case True
    have f': "avl_find ?A ?t (slot_size ?sl) = Some sl" using f d by simp
    obtain ys zs where w: "avl_walk ?A ?t = ys @ sl # zs" "avl_walk ?A (avl_store ?A ?t ?sl) = ys @ ?sl # zs"
        "\<forall>d \<in> set ys \<union> set zs. slot_size d \<noteq> slot_size sl" "avl_valid ?A (avl_store ?A ?t ?sl)"
      using avl_store_split [OF ok v f'] by metis
    obtain t2 r2 where de: "avl_delete ?A (avl_store ?A ?t ?sl) (slot_size sl) = (t2, r2)" by (metis surj_pair)
    have "slot_size sl \<in> slot_size ` set (avl_walk ?A (avl_store ?A ?t ?sl))" unfolding w(2) by simp
    note dp = avl_delete_present [OF ok w(4) de this]
    have w2: "avl_walk ?A t2 = ys @ zs" using dp(3) w(2,3) by (auto simp: filter_id_conv)
    have si2: "slots_inv ?A i t2" using si w(1) w2 dp(2) by (auto simp: slots_inv_def)
    have n2: "mset (tree_nodes ?A ?t) = add_mset x (mset (tree_nodes ?A t2))"
      using tree_nodes_split [OF w(1)] w2 sl True by (simp add: tree_nodes_def)
    have "s' = set_size_tree i t2 s"
      using s' True de i by (simp add: size_tree_unlink_def trunk_delete_size_tree_entry_def set_size_tree_def Let_def)
    with set_size_tree_ok [OF inv i si2] set_size_tree_remove [OF i n2] show ?thesis
      by (simp add: set_size_tree_def same_rest_def)
  qed
qed

section \<open>The invariant of the allocator\<close>

text \<open>
  What the configuration must satisfy: the AVL trees keep their laws, and sizes are
  positive. \<open>lt\<close> is the order of the trunk file identifiers.
\<close>

definition env_ok ::
    "('t, 'u) trunk_env \<Rightarrow> (FDFSTrunkFileIdentifier \<Rightarrow> FDFSTrunkFileIdentifier \<Rightarrow> bool) \<Rightarrow> bool" where
  "env_ok e lt \<longleftrightarrow> size_avl_ok (size_api e) \<and> id_avl_ok (id_api e) lt \<and>
     0 < g_slot_min_size e \<and> g_slot_min_size e \<le> g_trunk_file_size e \<and>
     0 \<le> g_trunk_alloc_alignment_size e \<and> length (g_fdfs_store_paths (stores e)) \<le> 256"

text \<open>The free blocks (with those on hold), and what is required of one.\<close>

definition free_blocks :: "('t, 'u) trunk_env \<Rightarrow> ('t, 'u) trunk_state \<Rightarrow> FDFSTrunkFullInfo multiset" where
  "free_blocks e s = mset (id_blocks (id_api e) (tree_info_by_id s))"

definition blk_good :: "('t, 'u) trunk_env \<Rightarrow> ('t, 'u) trunk_state \<Rightarrow> FDFSTrunkFullInfo \<Rightarrow> bool" where
  "blk_good e s b \<longleftrightarrow>
     g_slot_min_size e \<le> blk_size b \<and> 0 \<le> blk_off b \<and> blk_path b < length (g_fdfs_store_paths (stores e)) \<and>
     trunk_status b \<in> {FDFS_TRUNK_STATUS_FREE, FDFS_TRUNK_STATUS_HOLD} \<and>
     trunk_get_full_filename e b \<in> set (trunk_files s)"

text \<open>
  The two indexes hold the same blocks, no two of which overlap (\<open>id_tree_inv\<close>), each in
  its place; and the count of the free space is the sum of the sizes.
\<close>

definition core_inv :: "('t, 'u) trunk_env \<Rightarrow> ('t, 'u) trunk_state \<Rightarrow> bool" where
  "core_inv e s \<longleftrightarrow>
     length (tree_info_by_sizes s) = length (g_fdfs_store_paths (stores e)) \<and>
     size_trees_ok e s \<and> id_tree_inv (id_api e) (tree_info_by_id s) \<and>
     size_nodes e s = free_blocks e s \<and> (\<forall>b \<in># free_blocks e s. blk_good e s b)"

definition trunk_inv :: "('t, 'u) trunk_env \<Rightarrow> ('t, 'u) trunk_state \<Rightarrow> bool" where
  "trunk_inv e s \<longleftrightarrow> core_inv e s \<and>
     g_trunk_total_free_space s = sum_mset (image_mset blk_size (free_blocks e s))"

lemma blk_good_rest: "same_rest s s' \<Longrightarrow> blk_good e s' b = blk_good e s b"
  by (simp add: blk_good_def same_rest_def)

lemma trunk_mem_binlog_write_spec:
  assumes "trunk_mem_binlog_write op b s = (r, s')"
  shows "same_rest s s' \<and> tree_info_by_sizes s' = tree_info_by_sizes s \<and> tree_info_by_id s' = tree_info_by_id s \<and>
    g_trunk_total_free_space s' = g_trunk_total_free_space s +
      (if op = TRUNK_OP_TYPE_ADD_SPACE then blk_size b else if op = TRUNK_OP_TYPE_DEL_SPACE then - blk_size b else 0) \<and>
    (r = 0 \<longrightarrow> log_text (trunk_log s') = log_text (trunk_log s) @ trunk_binlog_line (g_current_time s) op b) \<and>
    (ext_all_ok (ext s) \<longrightarrow> r = 0 \<and> ext_all_ok (ext s'))"
proof -
  obtain r1 lg tp where w: "trunk_binlog_write (g_current_time s) op b (trunk_log s) (ext s) = (r1, lg, tp)"
    by (metis prod_cases3)
  have "r = r1" "trunk_log s' = lg" "ext s' = tp"
    using assms w by (auto simp: trunk_mem_binlog_write_def Let_def split: if_splits)
  moreover have "r1 = 0 \<Longrightarrow> log_text lg = log_text (trunk_log s) @ trunk_binlog_line (g_current_time s) op b"
    using binlog_write_zero w by blast
  moreover have "ext_all_ok (ext s) \<Longrightarrow> r1 = 0 \<and> ext_all_ok tp"
    using binlog_write_ok [of "ext s" "g_current_time s" op b "trunk_log s"] w by auto
  moreover have "same_rest s s' \<and> tree_info_by_sizes s' = tree_info_by_sizes s \<and> tree_info_by_id s' = tree_info_by_id s \<and>
      g_trunk_total_free_space s' = g_trunk_total_free_space s +
      (if op = TRUNK_OP_TYPE_ADD_SPACE then blk_size b else if op = TRUNK_OP_TYPE_DEL_SPACE then - blk_size b else 0)"
    using assms w by (auto simp: trunk_mem_binlog_write_def same_rest_def Let_def split: if_splits)
  ultimately show ?thesis by simp
qed

lemma size_part_cong:
  assumes "tree_info_by_sizes s' = tree_info_by_sizes s"
  shows "size_trees_ok e s' = size_trees_ok e s" "size_nodes e s' = size_nodes e s"
  using assms by (simp_all add: size_trees_ok_def size_nodes_def)

text \<open>Adding a block, with or without the binlog.\<close>

lemma add_free_block_record:
  assumes "(if w then trunk_mem_binlog_write TRUNK_OP_TYPE_ADD_SPACE b s
            else (0, s\<lparr>g_trunk_total_free_space := g_trunk_total_free_space s + blk_size b\<rparr>)) = (r, s')"
  shows "same_rest s s' \<and> tree_info_by_sizes s' = tree_info_by_sizes s \<and> tree_info_by_id s' = tree_info_by_id s \<and>
    g_trunk_total_free_space s' = g_trunk_total_free_space s + blk_size b \<and>
    (r = 0 \<longrightarrow> log_text (trunk_log s') = log_text (trunk_log s) @
       (if w then trunk_binlog_line (g_current_time s) TRUNK_OP_TYPE_ADD_SPACE b else [])) \<and>
    (ext_all_ok (ext s) \<longrightarrow> r = 0 \<and> ext_all_ok (ext s'))"
proof (cases w)
  case True
  then show ?thesis using assms trunk_mem_binlog_write_spec [of TRUNK_OP_TYPE_ADD_SPACE b s r s'] by simp
next
  case False
  then show ?thesis using assms by (auto simp: same_rest_def)
qed

lemma checker_insert_spec:
  assumes ok: "id_avl_ok (id_api e) lt" and inv: "id_tree_inv (id_api e) (tree_info_by_id s)" and pos: "0 < blk_size b"
    and clear: "trunk_free_block_check_duplicate (id_api e) b (tree_info_by_id s) = 0"
    and ins: "checker_insert e b s = (r, s')"
  shows "id_tree_inv (id_api e) (tree_info_by_id s') \<and>
    free_blocks e s' = (if r = 0 then add_mset b (free_blocks e s) else free_blocks e s) \<and>
    same_rest s s' \<and> tree_info_by_sizes s' = tree_info_by_sizes s \<and>
    g_trunk_total_free_space s' = g_trunk_total_free_space s \<and> trunk_log s' = trunk_log s \<and>
    (\<forall>y \<in># free_blocks e s. \<not> blk_overlap b y) \<and>
    (ext_all_ok (ext s) \<and> avl_total (id_api e) \<longrightarrow> r = 0 \<and> ext_all_ok (ext s'))"
proof -
  obtain t tp where i: "trunk_free_block_insert (id_api e) b (tree_info_by_id s) (ext s) = (r, t, tp)"
      "s' = s\<lparr>tree_info_by_id := t, ext := tp\<rparr>"
    using ins by (auto simp: checker_insert_def split: prod.splits)
  have clr: "\<forall>y \<in> set (id_blocks (id_api e) (tree_info_by_id s)). \<not> blk_overlap b y"
    using clear unfolding check_duplicate_spec [OF ok inv pos] by (auto split: if_splits)
  from trunk_free_block_insert_all [OF ok inv pos clr i(1)] clr show ?thesis
    unfolding i(2) by (auto simp: free_blocks_def same_rest_def)
qed

lemma core_inv_step:
  assumes "core_inv e s" "same_rest s s'" "size_trees_ok e s'" "id_tree_inv (id_api e) (tree_info_by_id s')"
    and "size_nodes e s' = free_blocks e s'" "\<And>b. b \<in># free_blocks e s' \<Longrightarrow> blk_good e s b"
  shows "core_inv e s'"
proof -
  have "length (tree_info_by_sizes s') = length (g_fdfs_store_paths (stores e))"
    using assms(1,2) by (simp add: core_inv_def same_rest_def)
  with assms(3-6) show ?thesis by (simp add: core_inv_def blk_good_rest [OF assms(2)])
qed

lemma trunk_add_free_block_spec:
  assumes e: "env_ok e lt" and inv: "core_inv e s" and good: "blk_good e s b"
    and add: "trunk_add_free_block_ex e b w s = (0, s')"
  shows "core_inv e s' \<and> free_blocks e s' = add_mset b (free_blocks e s) \<and> same_rest s s' \<and>
    g_trunk_total_free_space s' = g_trunk_total_free_space s + blk_size b \<and>
    (\<forall>y \<in># free_blocks e s. \<not> blk_overlap b y) \<and>
    log_text (trunk_log s') = log_text (trunk_log s) @
      (if w then trunk_binlog_line (g_current_time s) TRUNK_OP_TYPE_ADD_SPACE b else [])"
proof -
  let ?dup = "trunk_free_block_check_duplicate (id_api e) b (tree_info_by_id s)"
  have ok: "size_avl_ok (size_api e)" "id_avl_ok (id_api e) lt" and pos: "0 < blk_size b"
    using e good by (auto simp: env_ok_def blk_good_def)
  have path: "blk_path b < length (tree_info_by_sizes s)" using good inv by (simp add: blk_good_def core_inv_def)
  obtain r1 s1 where p: "size_tree_push e b s = (r1, s1)" by (metis surj_pair)
  obtain r2 s2 where w: "(if w then trunk_mem_binlog_write TRUNK_OP_TYPE_ADD_SPACE b s1
      else (0, s1\<lparr>g_trunk_total_free_space := g_trunk_total_free_space s1 + blk_size b\<rparr>)) = (r2, s2)" by (metis surj_pair)
  obtain r3 s3 where i: "checker_insert e b s2 = (r3, s3)" by (metis surj_pair)
  note unf = add [unfolded trunk_add_free_block_ex_def Let_def p prod.case w i]
  have z: "?dup = 0" "r1 = 0" "r2 = 0" "r3 = 0" "s' = s3" using unf by (auto split: if_splits)
  have trees: "size_trees_ok e s" "id_tree_inv (id_api e) (tree_info_by_id s)" using inv by (simp_all add: core_inv_def)
  note P = size_tree_push_spec [OF ok(1) trees(1) path p]
  note W = add_free_block_record [OF w]
  have id2: "tree_info_by_id s2 = tree_info_by_id s" using P W by simp
  note I = checker_insert_spec [OF ok(2) _ pos _ i, unfolded id2, OF trees(2) z(1)]
  have rest: "same_rest s s3" using P W I same_rest_trans by meson
  have fb: "free_blocks e s2 = free_blocks e s" using id2 by (simp add: free_blocks_def)
  have sn: "size_nodes e s3 = add_mset b (size_nodes e s)" "size_trees_ok e s3"
    using P W I z size_part_cong [of s2 s1 e] size_part_cong [of s3 s2 e] by simp_all
  have blocks: "free_blocks e s3 = add_mset b (free_blocks e s)" using I z fb by simp
  have "size_nodes e s = free_blocks e s" "\<forall>x \<in># free_blocks e s. blk_good e s x" using inv by (simp_all add: core_inv_def)
  moreover have "id_tree_inv (id_api e) (tree_info_by_id s3)" using I by simp
  ultimately have "core_inv e s3"
    using sn(1) blocks good by (intro core_inv_step [OF inv rest sn(2)]) auto
  moreover have "g_current_time s1 = g_current_time s" using P by (simp add: same_rest_def)
  ultimately show ?thesis using blocks rest P W I z fb by simp
qed

lemma trunk_add_free_block_ok:
  assumes e: "env_ok e lt" and inv: "core_inv e s" and good: "blk_good e s b"
    and clear: "\<forall>y \<in># free_blocks e s. \<not> blk_overlap b y"
    and ok: "ext_all_ok (ext s)" "avl_total (size_api e)" "avl_total (id_api e)"
  shows "\<exists>s'. trunk_add_free_block_ex e b w s = (0, s') \<and> ext_all_ok (ext s')"
proof -
  have A: "size_avl_ok (size_api e)" "id_avl_ok (id_api e) lt" and pos: "0 < blk_size b"
    using e good by (auto simp: env_ok_def blk_good_def)
  have path: "blk_path b < length (tree_info_by_sizes s)" using good inv by (simp add: blk_good_def core_inv_def)
  have trees: "size_trees_ok e s" "id_tree_inv (id_api e) (tree_info_by_id s)" using inv by (simp_all add: core_inv_def)
  have dup: "trunk_free_block_check_duplicate (id_api e) b (tree_info_by_id s) = 0"
    unfolding check_duplicate_spec [OF A(2) trees(2) pos] using clear by (auto simp: free_blocks_def)
  obtain r1 s1 where p: "size_tree_push e b s = (r1, s1)" by (metis surj_pair)
  obtain r2 s2 where w: "(if w then trunk_mem_binlog_write TRUNK_OP_TYPE_ADD_SPACE b s1
      else (0, s1\<lparr>g_trunk_total_free_space := g_trunk_total_free_space s1 + blk_size b\<rparr>)) = (r2, s2)" by (metis surj_pair)
  obtain r3 s3 where i: "checker_insert e b s2 = (r3, s3)" by (metis surj_pair)
  note P = size_tree_push_spec [OF A(1) trees(1) path p]
  note W = add_free_block_record [OF w]
  have id2: "tree_info_by_id s2 = tree_info_by_id s" using P W by simp
  note I = checker_insert_spec [OF A(2) _ pos _ i, unfolded id2, OF trees(2) dup]
  have "r1 = 0" "r2 = 0" "r3 = 0" "ext_all_ok (ext s3)" using P W I ok by simp_all
  then show ?thesis unfolding trunk_add_free_block_ex_def Let_def p prod.case w i using dup by simp
qed

section \<open>Removing blocks\<close>

lemma checker_delete_spec:
  assumes ok: "id_avl_ok (id_api e) lt" and inv: "id_tree_inv (id_api e) (tree_info_by_id s)"
    and x: "x \<in># free_blocks e s" and del: "checker_delete e x s = (r, s')"
  shows "id_tree_inv (id_api e) (tree_info_by_id s') \<and> free_blocks e s = add_mset x (free_blocks e s') \<and>
    same_rest s s' \<and> tree_info_by_sizes s' = tree_info_by_sizes s \<and>
    g_trunk_total_free_space s' = g_trunk_total_free_space s \<and> trunk_log s' = trunk_log s \<and>
    (ext_all_ok (ext s) \<longrightarrow> ext_all_ok (ext s'))"
proof -
  obtain t tp where d: "trunk_free_block_delete (id_api e) x (tree_info_by_id s) (ext s) = (r, t, tp)"
      "s' = s\<lparr>tree_info_by_id := t, ext := tp\<rparr>"
    using del by (auto simp: checker_delete_def split: prod.splits)
  have x': "x \<in> set (id_blocks (id_api e) (tree_info_by_id s))" using x by (simp add: free_blocks_def)
  note D = trunk_free_block_delete_all [OF ok inv d(1)]
  have "mset (id_blocks (id_api e) (tree_info_by_id s)) = add_mset x (mset (id_blocks (id_api e) t))"
    using D id_blocks_unique [OF ok inv _ x'] x' by auto
  then show ?thesis using D unfolding d(2) by (simp add: free_blocks_def same_rest_def)
qed

text \<open>Taking a node out of both indexes, as allocation and deletion do.\<close>

lemma remove_node_spec:
  assumes e: "env_ok e lt" and inv: "core_inv e s" and i: "i < length (tree_info_by_sizes s)"
    and f: "avl_find (size_api e) (size_tree s i) k = Some sl" and sl: "slot_head sl = pre @ x # post"
    and del: "checker_delete e x (size_tree_unlink e i sl pre post s) = (r, s')"
  shows "core_inv e s' \<and> free_blocks e s = add_mset x (free_blocks e s') \<and> same_rest s s' \<and>
    g_trunk_total_free_space s' = g_trunk_total_free_space s \<and> trunk_log s' = trunk_log s \<and>
    (ext_all_ok (ext s) \<longrightarrow> ext_all_ok (ext s'))"
proof -
  let ?s1 = "size_tree_unlink e i sl pre post s"
  have ok: "size_avl_ok (size_api e)" "id_avl_ok (id_api e) lt" using e by (auto simp: env_ok_def)
  have c: "size_trees_ok e s" "id_tree_inv (id_api e) (tree_info_by_id s)" "size_nodes e s = free_blocks e s"
      "\<forall>b \<in># free_blocks e s. blk_good e s b"
    using inv by (simp_all add: core_inv_def)
  note U = size_tree_unlink_spec [OF ok(1) c(1) i f sl refl]
  have fb: "free_blocks e ?s1 = free_blocks e s" "id_tree_inv (id_api e) (tree_info_by_id ?s1)"
    using U c(2) by (simp_all add: free_blocks_def)
  have x: "x \<in># free_blocks e ?s1" using U c(3) fb(1) by (metis union_single_eq_member)
  note D = checker_delete_spec [OF ok(2) fb(2) x del]
  have rest: "same_rest s s'" using U D same_rest_trans by blast
  have sn: "size_nodes e s' = size_nodes e ?s1" "size_trees_ok e s'" using D U size_part_cong [of s' ?s1 e] by simp_all
  have blocks: "free_blocks e s = add_mset x (free_blocks e s')" using D fb(1) by simp
  have "size_nodes e s' = free_blocks e s'" using sn(1) U c(3) blocks by simp
  moreover have "id_tree_inv (id_api e) (tree_info_by_id s')" using D by simp
  ultimately have "core_inv e s'"
    using c(4) blocks by (intro core_inv_step [OF inv rest sn(2)]) auto
  then show ?thesis using rest blocks U D by simp
qed

lemma size_nodes_in:
  "b \<in># size_nodes e s \<longleftrightarrow>
     (\<exists>i < length (tree_info_by_sizes s). b \<in> set (tree_nodes (size_api e) (size_tree s i)))"
  by (simp add: size_nodes_def) (metis in_set_conv_nth)

text \<open>A node is found through the tree of its path and the slot of its size.\<close>

lemma find_node:
  assumes ok: "size_avl_ok (size_api e)" and inv: "size_trees_ok e s" and i: "blk_path b < length (tree_info_by_sizes s)"
  shows "b \<in># size_nodes e s \<longleftrightarrow>
    (\<exists>sl. avl_find (size_api e) (size_tree s (blk_path b)) (blk_size b) = Some sl \<and> b \<in> set (slot_head sl))"
proof
  assume "b \<in># size_nodes e s"
  then obtain j where j: "j < length (tree_info_by_sizes s)" "b \<in> set (tree_nodes (size_api e) (size_tree s j))"
    using size_nodes_in by blast
  then have si: "slots_inv (size_api e) j (size_tree s j)" using inv by (simp add: size_trees_ok_def)
  obtain sl where sl: "sl \<in> set (avl_walk (size_api e) (size_tree s j))" "b \<in> set (slot_head sl)"
    using j(2) by (auto simp: tree_nodes_def)
  then have "blk_size b = slot_size sl" "blk_path b = j" using si by (auto simp: slots_inv_def)
  moreover have "avl_find (size_api e) (size_tree s j) (slot_size sl) = Some sl"
    using avl_find_in [OF ok _ sl(1)] si by (simp add: slots_inv_def)
  ultimately show "\<exists>sl. avl_find (size_api e) (size_tree s (blk_path b)) (blk_size b) = Some sl \<and> b \<in> set (slot_head sl)"
    using sl(2) by auto
next
  assume "\<exists>sl. avl_find (size_api e) (size_tree s (blk_path b)) (blk_size b) = Some sl \<and> b \<in> set (slot_head sl)"
  then obtain sl where sl: "avl_find (size_api e) (size_tree s (blk_path b)) (blk_size b) = Some sl" "b \<in> set (slot_head sl)"
    by blast
  have "avl_valid (size_api e) (size_tree s (blk_path b))" using inv i by (simp add: size_trees_ok_def slots_inv_def)
  then have "sl \<in> set (avl_walk (size_api e) (size_tree s (blk_path b)))" using avl_find_SomeD [OF ok _ sl(1)] by blast
  with sl(2) i show "b \<in># size_nodes e s" unfolding size_nodes_in by (auto simp: tree_nodes_def)
qed

lemma dropWhile_neq_mem:
  "b \<in> set xs \<Longrightarrow> \<exists>post. dropWhile (\<lambda>n. n \<noteq> b) xs = b # post \<and> xs = takeWhile (\<lambda>n. n \<noteq> b) xs @ b # post"
  by (induction xs) auto

lemma dropWhile_neq_notin: "b \<notin> set xs \<Longrightarrow> dropWhile (\<lambda>n. n \<noteq> b) xs = []"
  by (induction xs) auto

lemma trunk_delete_space_spec:
  assumes e: "env_ok e lt" and inv: "core_inv e s" and b: "b \<in># free_blocks e s"
    and del: "trunk_delete_space_ex e b w s = (r, s')"
  shows "core_inv e s' \<and> free_blocks e s = add_mset b (free_blocks e s') \<and> same_rest s s' \<and>
    g_trunk_total_free_space s' = g_trunk_total_free_space s - blk_size b \<and>
    (r = 0 \<longrightarrow> log_text (trunk_log s') = log_text (trunk_log s) @
       (if w then trunk_binlog_line (g_current_time s) TRUNK_OP_TYPE_DEL_SPACE b else [])) \<and>
    (ext_all_ok (ext s) \<longrightarrow> r = 0 \<and> ext_all_ok (ext s'))"
proof -
  let ?i = "blk_path b"
  have ok: "size_avl_ok (size_api e)" using e by (auto simp: env_ok_def)
  have c: "size_trees_ok e s" "size_nodes e s = free_blocks e s" and i: "?i < length (tree_info_by_sizes s)"
    using inv b by (auto simp: core_inv_def blk_good_def)
  obtain sl where sl: "avl_find (size_api e) (size_tree s ?i) (blk_size b) = Some sl" "b \<in> set (slot_head sl)"
    using find_node [OF ok c(1) i] b c(2) by auto
  obtain post where post: "dropWhile (\<lambda>n. n \<noteq> b) (slot_head sl) = b # post"
      "slot_head sl = takeWhile (\<lambda>n. n \<noteq> b) (slot_head sl) @ b # post"
    using dropWhile_neq_mem [OF sl(2)] by blast
  obtain r1 s1 where d: "checker_delete e b (size_tree_unlink e ?i sl (takeWhile (\<lambda>n. n \<noteq> b) (slot_head sl)) post s) = (r1, s1)"
    by (metis surj_pair)
  note R = remove_node_spec [OF e inv i sl(1) post(2) d]
  note unf = del [unfolded trunk_delete_space_ex_def Let_def sl(1) option.case post(1) list.case d prod.case]
  have keep: "core_inv e s2" if "same_rest s1 s2" "tree_info_by_sizes s2 = tree_info_by_sizes s1" "tree_info_by_id s2 = tree_info_by_id s1" for s2
    using R that core_inv_step [of e s1 s2] size_part_cong [of s2 s1 e] by (simp add: core_inv_def free_blocks_def)
  show ?thesis
  proof (cases w)
    case True
    then have w: "trunk_mem_binlog_write TRUNK_OP_TYPE_DEL_SPACE b s1 = (r, s')" using unf by simp
    note W = trunk_mem_binlog_write_spec [OF w]
    have "same_rest s s'" "free_blocks e s' = free_blocks e s1"
      using R W same_rest_trans by (blast, simp add: free_blocks_def)
    then show ?thesis using R W keep [of s'] True by (simp add: same_rest_def)
  next
    case False
    then have "r = 0" "s' = s1\<lparr>g_trunk_total_free_space := g_trunk_total_free_space s1 - blk_size b\<rparr>"
      using unf by simp_all
    then show ?thesis using R keep [of s'] False by (simp add: same_rest_def free_blocks_def)
  qed
qed

lemma trunk_delete_space_absent:
  assumes e: "env_ok e lt" and inv: "core_inv e s" and b: "b \<notin># free_blocks e s"
    and i: "blk_path b < length (g_fdfs_store_paths (stores e))"
  shows "trunk_delete_space_ex e b w s = (ENOENT, s)"
proof -
  have "size_avl_ok (size_api e)" "size_trees_ok e s" "size_nodes e s = free_blocks e s" "blk_path b < length (tree_info_by_sizes s)"
    using e inv i by (auto simp: env_ok_def core_inv_def)
  with find_node [of e s b] b
  have "\<nexists>sl. avl_find (size_api e) (size_tree s (blk_path b)) (blk_size b) = Some sl \<and> b \<in> set (slot_head sl)" by simp
  then show ?thesis
    by (auto simp: trunk_delete_space_ex_def dropWhile_neq_notin Let_def split: option.splits)
qed

section \<open>Giving a held block back\<close>

lemma mset_map_replace:
  assumes "distinct xs" "x \<in> set xs"
  shows "mset (map (\<lambda>y. if y = x then x' else y) xs) + {#x#} = add_mset x' (mset xs)"
proof -
  obtain ys zs where xs: "xs = ys @ x # zs" using split_list [OF assms(2)] by blast
  then have "x \<notin> set ys" "x \<notin> set zs" using assms(1) by auto
  then have "map (\<lambda>y. if y = x then x' else y) ys = ys" "map (\<lambda>y. if y = x then x' else y) zs = zs"
    by (auto intro: map_idI)
  then show ?thesis by (simp add: xs)
qed

lemma blocks_wf_map:
  assumes "\<forall>b. blk_off (f b) = blk_off b \<and> blk_size (f b) = blk_size b"
  shows "blocks_wf (map f bs) = blocks_wf bs"
  using assms by (simp add: blocks_wf_def sorted_wrt_map)

lemma checker_set_status_spec:
  assumes ok: "id_avl_ok B lt" and inv: "id_tree_inv B t" and x: "x \<in> set (id_blocks B t)"
    and t': "t' = checker_set_status B x st t"
  shows "id_tree_inv B t' \<and> mset (id_blocks B t') + {#x#} = add_mset (x\<lparr>trunk_status := st\<rparr>) (mset (id_blocks B t))"
proof -
  let ?f = "\<lambda>y. if y = x then y\<lparr>trunk_status := st\<rparr> else y"
  have v: "avl_valid B t" using inv by (simp add: id_tree_inv_def)
  obtain d where f: "avl_find B t (FILL_FILE_IDENTIFIER x) = Some d"
    using id_blocks_no_entry [OF ok inv _ x] by (cases "avl_find B t (FILL_FILE_IDENTIFIER x)") auto
  let ?bs = "ba_blocks (tb_array d)"
  let ?d = "d\<lparr>tb_array := (tb_array d)\<lparr>ba_blocks := map ?f ?bs\<rparr>\<rparr>"
  have d: "d \<in> set (avl_walk B t)" "tb_file_id d = FILL_FILE_IDENTIFIER x" using avl_find_SomeD [OF ok v f] by auto
  have wfd: "trunks_by_id_wf d" using inv d by (simp add: id_tree_inv_def)
  have xd: "x \<in> set ?bs" using id_blocks_of_entry [OF ok inv f] x by blast
  have fd: "avl_find B t (tb_file_id ?d) = Some d" using f d(2) by simp
  have st: "t' = avl_store B t ?d" unfolding t' checker_set_status_def f by simp
  obtain ys zs where w: "avl_walk B t = ys @ d # zs" "avl_walk B t' = ys @ ?d # zs" "avl_valid B t'"
    unfolding st by (rule avl_store_split [OF ok v fd]) blast
  have "blocks_wf (map ?f ?bs)" using wfd blocks_wf_map [of ?f ?bs] by (simp add: trunks_by_id_wf_def)
  then have wfd': "trunks_by_id_wf ?d"
    using wfd by (auto simp: trunks_by_id_wf_def FILL_FILE_IDENTIFIER_def)
  have "distinct ?bs" using wfd blocks_wf_distinct by (simp add: trunks_by_id_wf_def)
  then have m: "mset (map ?f ?bs) + {#x#} = add_mset (x\<lparr>trunk_status := st\<rparr>) (mset ?bs)"
    using mset_map_replace [OF _ xd, of "x\<lparr>trunk_status := st\<rparr>"] by (simp cong: if_cong)
  have "id_tree_inv B t'" by (rule id_tree_inv_split [OF inv w(1,3,2) wfd'])
  then show ?thesis unfolding id_blocks_split [OF w(1)] id_blocks_split [OF w(2)] using m by simp
qed

lemma slots_replace:
  assumes ok: "size_avl_ok A" and inv: "slots_inv A i t" and f: "avl_find A t k = Some sl"
    and sl: "slot_head sl = pre @ x # post" and x': "blk_size x' = blk_size x" "blk_path x' = blk_path x"
    and t': "t' = avl_store A t (sl\<lparr>slot_head := pre @ x' # post\<rparr>)"
  shows "slots_inv A i t' \<and> mset (tree_nodes A t') + {#x#} = add_mset x' (mset (tree_nodes A t))"
proof -
  let ?sl = "sl\<lparr>slot_head := pre @ x' # post\<rparr>"
  have v: "avl_valid A t" using inv by (simp add: slots_inv_def)
  have "\<forall>b \<in> set (slot_head sl). blk_size b = slot_size sl \<and> blk_path b = i"
    using inv avl_find_SomeD [OF ok v f] by (simp add: slots_inv_def)
  then have p: "slot_size ?sl = slot_size sl" "slot_head ?sl \<noteq> []"
      "\<forall>b \<in> set (slot_head ?sl). blk_size b = slot_size sl \<and> blk_path b = i"
    using x' by (auto simp: sl)
  from slots_store [OF ok inv f p] show ?thesis unfolding t' sl by simp
qed

lemma set_size_tree_replace:
  assumes "i < length (tree_info_by_sizes s)"
    and "mset (tree_nodes (size_api e) t) + {#x#} = add_mset x' (mset (tree_nodes (size_api e) (size_tree s i)))"
  shows "size_nodes e (set_size_tree i t s) + {#x#} = add_mset x' (size_nodes e s)"
proof -
  let ?T = "mset (tree_nodes (size_api e) (size_tree s i))"
  have "size_nodes e (set_size_tree i t s) + ?T = size_nodes e s + mset (tree_nodes (size_api e) t)"
    using mset_concat_list_update [OF assms(1), of "tree_nodes (size_api e)" t] by (simp add: size_nodes_def)
  then have "size_nodes e (set_size_tree i t s) + {#x#} + ?T = size_nodes e s + (mset (tree_nodes (size_api e) t) + {#x#})"
    by (simp add: ac_simps)
  also have "\<dots> = add_mset x' (size_nodes e s) + ?T" unfolding assms(2) by simp
  finally show ?thesis by simp
qed

lemma trunk_restore_node_spec:
  assumes e: "env_ok e lt" and inv: "core_inv e s" and b: "b \<in># free_blocks e s"
    and res: "trunk_restore_node e b s = (r, s')"
  shows "r = 0 \<and> core_inv e s' \<and>
    free_blocks e s' + {#b#} = add_mset (b\<lparr>trunk_status := FDFS_TRUNK_STATUS_FREE\<rparr>) (free_blocks e s) \<and>
    same_rest s s' \<and> g_trunk_total_free_space s' = g_trunk_total_free_space s \<and> trunk_log s' = trunk_log s"
proof -
  let ?i = "blk_path b" and ?A = "size_api e" and ?b = "b\<lparr>trunk_status := FDFS_TRUNK_STATUS_FREE\<rparr>"
  have ok: "size_avl_ok ?A" "id_avl_ok (id_api e) lt" using e by (auto simp: env_ok_def)
  have c: "size_trees_ok e s" "size_nodes e s = free_blocks e s" "id_tree_inv (id_api e) (tree_info_by_id s)"
      "\<forall>x \<in># free_blocks e s. blk_good e s x"
    and i: "?i < length (tree_info_by_sizes s)"
    using inv b by (auto simp: core_inv_def blk_good_def)
  obtain sl where sl: "avl_find ?A (size_tree s ?i) (blk_size b) = Some sl" "b \<in> set (slot_head sl)"
    using find_node [OF ok(1) c(1) i] b c(2) by auto
  obtain post where post: "dropWhile (\<lambda>n. n \<noteq> b) (slot_head sl) = b # post"
      "slot_head sl = takeWhile (\<lambda>n. n \<noteq> b) (slot_head sl) @ b # post"
    using dropWhile_neq_mem [OF sl(2)] by blast
  let ?t = "avl_store ?A (size_tree s ?i) (sl\<lparr>slot_head := takeWhile (\<lambda>n. n \<noteq> b) (slot_head sl) @ ?b # post\<rparr>)"
  let ?u = "checker_set_status (id_api e) b FDFS_TRUNK_STATUS_FREE (tree_info_by_id s)"
  have r: "r = 0" "s' = (set_size_tree ?i ?t s)\<lparr>tree_info_by_id := ?u\<rparr>"
    using res by (simp_all add: trunk_restore_node_def sl(1) post(1) Let_def)
  have si: "slots_inv ?A ?i (size_tree s ?i)" using c(1) i by (simp add: size_trees_ok_def)
  note S = slots_replace [OF ok(1) si sl(1) post(2), of ?b ?t]
  have rest: "same_rest s s'" unfolding r(2) by (simp add: same_rest_def set_size_tree_def)
  have trees: "size_trees_ok e s'" "size_nodes e s' + {#b#} = add_mset ?b (size_nodes e s)"
    using size_part_cong [of s' "set_size_tree ?i ?t s" e] set_size_tree_ok [OF c(1) i, of ?t] set_size_tree_replace [OF i, of e ?t b ?b] S r(2)
    by simp_all
  have "b \<in> set (id_blocks (id_api e) (tree_info_by_id s))" using b by (simp add: free_blocks_def)
  note C = checker_set_status_spec [OF ok(2) c(3) this refl, of FDFS_TRUNK_STATUS_FREE]
  have ids: "id_tree_inv (id_api e) (tree_info_by_id s')" "free_blocks e s' + {#b#} = add_mset ?b (free_blocks e s)"
    using C unfolding r(2) by (simp_all add: free_blocks_def)
  have "size_nodes e s' + {#b#} = free_blocks e s' + {#b#}" unfolding trees(2) ids(2) c(2) ..
  then have "size_nodes e s' = free_blocks e s'" by simp
  moreover have "blk_good e s x" if "x \<in># free_blocks e s'" for x
  proof -
    have "x \<in># add_mset ?b (free_blocks e s)" using that ids(2) by (metis union_iff)
    moreover have "blk_good e s ?b" using c(4) b by (auto simp: blk_good_def trunk_get_full_filename_def trunk_get_full_filename_ex_def)
    ultimately show ?thesis using c(4) by auto
  qed
  ultimately have "core_inv e s'" using ids(1) by (intro core_inv_step [OF inv rest trees(1)]) auto
  then show ?thesis using r rest ids(2) by (simp add: set_size_tree_def)
qed

lemma trunk_restore_node_absent:
  assumes e: "env_ok e lt" and inv: "core_inv e s" and b: "b \<notin># free_blocks e s"
    and i: "blk_path b < length (g_fdfs_store_paths (stores e))"
  shows "trunk_restore_node e b s = (ENOENT, s)"
proof -
  have "size_avl_ok (size_api e)" "size_trees_ok e s" "size_nodes e s = free_blocks e s" "blk_path b < length (tree_info_by_sizes s)"
    using e inv i by (auto simp: env_ok_def core_inv_def)
  with find_node [of e s b] b
  have "\<nexists>sl. avl_find (size_api e) (size_tree s (blk_path b)) (blk_size b) = Some sl \<and> b \<in> set (slot_head sl)" by simp
  then show ?thesis
    by (auto simp: trunk_restore_node_def dropWhile_neq_notin Let_def split: option.splits)
qed

section \<open>The search for a free block\<close>

lemma find_sorted_least:
  fixes key :: "'a \<Rightarrow> 'k::linorder"
  assumes "sorted_wrt (<) (map key xs)" "find (\<lambda>d. \<not> key d < k) xs = Some x"
  shows "x \<in> set xs \<and> k \<le> key x \<and> (\<forall>y \<in> set xs. k \<le> key y \<longrightarrow> key x \<le> key y)"
  using assms by (induction xs) (auto split: if_splits)

lemma avl_find_ge_least:
  assumes ok: "size_avl_ok A" and v: "avl_valid A t" and f: "avl_find_ge A t k = Some sl"
  shows "sl \<in> set (avl_walk A t) \<and> k \<le> slot_size sl \<and> (\<forall>y \<in> set (avl_walk A t). k \<le> slot_size y \<longrightarrow> slot_size sl \<le> slot_size y)"
proof -
  have "sorted_wrt (<) (map slot_size (avl_walk A t))" using ok v unfolding avl_ok_def by blast
  from find_sorted_least [OF this] f [unfolded avl_find_ge_eq [OF ok v]] show ?thesis by blast
qed

lemma avl_find_ge_none:
  assumes ok: "size_avl_ok A" and v: "avl_valid A t" and f: "avl_find_ge A t k = None"
  shows "\<forall>y \<in> set (avl_walk A t). slot_size y < k"
  using f unfolding avl_find_ge_eq [OF ok v] by (simp add: find_None_iff)

text \<open>What the search returns for the nodes of a tree.\<close>

definition best_fit ::
    "(int, FDFSTrunkSlot, 't) avl_api \<Rightarrow> 't \<Rightarrow> int
     \<Rightarrow> (FDFSTrunkSlot \<times> FDFSTrunkFullInfo list \<times> FDFSTrunkFullInfo \<times> FDFSTrunkFullInfo list) option \<Rightarrow> bool" where
  "best_fit A t k r \<longleftrightarrow>
     (case r of
        None \<Rightarrow> \<forall>b \<in> set (tree_nodes A t). trunk_status b = FDFS_TRUNK_STATUS_FREE \<longrightarrow> blk_size b < k
      | Some (sl, pre, x, post) \<Rightarrow>
          avl_find A t (slot_size sl) = Some sl \<and> slot_head sl = pre @ x # post \<and>
          trunk_status x = FDFS_TRUNK_STATUS_FREE \<and> k \<le> blk_size x \<and>
          (\<forall>b \<in> set (tree_nodes A t). trunk_status b = FDFS_TRUNK_STATUS_FREE \<and> k \<le> blk_size b \<longrightarrow> blk_size x \<le> blk_size b))"

lemma tree_nodes_slot:
  assumes "slots_inv A i t" "b \<in> set (tree_nodes A t)"
  obtains sl where "sl \<in> set (avl_walk A t)" "b \<in> set (slot_head sl)" "blk_size b = slot_size sl"
  using assms by (auto simp: tree_nodes_def slots_inv_def)

lemma best_fit_skip:
  assumes inv: "slots_inv A i t" and sl: "k \<le> slot_size sl"
    and least: "\<forall>y \<in> set (avl_walk A t). k \<le> slot_size y \<longrightarrow> slot_size sl \<le> slot_size y"
    and held: "\<And>y b. y \<in> set (avl_walk A t) \<Longrightarrow> slot_size y = slot_size sl \<Longrightarrow> b \<in> set (slot_head y) \<Longrightarrow>
      trunk_status b \<noteq> FDFS_TRUNK_STATUS_FREE"
    and r: "best_fit A t (slot_size sl + 1) r"
  shows "best_fit A t k r"
proof -
  have big: "slot_size sl + 1 \<le> blk_size b" if b: "b \<in> set (tree_nodes A t)" "trunk_status b = FDFS_TRUNK_STATUS_FREE" "k \<le> blk_size b" for b
  proof -
    obtain y where y: "y \<in> set (avl_walk A t)" "b \<in> set (slot_head y)" "blk_size b = slot_size y"
      using tree_nodes_slot [OF inv b(1)] by blast
    then have "slot_size sl \<le> slot_size y" "slot_size y \<noteq> slot_size sl" using least held [OF y(1) _ y(2)] b(2,3) by auto
    with y(3) show ?thesis by simp
  qed
  show ?thesis
  proof (cases r)
    case None
    show ?thesis unfolding best_fit_def None option.case
    proof (intro ballI impI)
      fix b assume b: "b \<in> set (tree_nodes A t)" "trunk_status b = FDFS_TRUNK_STATUS_FREE"
      with r None have "blk_size b < slot_size sl + 1" by (simp add: best_fit_def)
      with big [OF b] show "blk_size b < k" by linarith
    qed
  next
    case (Some q)
    obtain sl' pre x post where q: "q = (sl', pre, x, post)" by (metis prod_cases4)
    with Some r have h: "avl_find A t (slot_size sl') = Some sl'" "slot_head sl' = pre @ x # post"
        "trunk_status x = FDFS_TRUNK_STATUS_FREE" "slot_size sl + 1 \<le> blk_size x"
        "\<forall>b \<in> set (tree_nodes A t). trunk_status b = FDFS_TRUNK_STATUS_FREE \<and> slot_size sl + 1 \<le> blk_size b \<longrightarrow> blk_size x \<le> blk_size b"
      by (simp_all add: best_fit_def)
    with big sl show ?thesis by (simp add: best_fit_def Some q)
  qed
qed

lemma alloc_search_total:
  assumes ok: "size_avl_ok A" and inv: "slots_inv A i t"
  shows "\<exists>r. alloc_search A t k = Some r \<and> best_fit A t k r"
proof (induction "length (filter (\<lambda>y. k \<le> slot_size y) (avl_walk A t))" arbitrary: k rule: less_induct)
  case less
  have v: "avl_valid A t" using inv by (simp add: slots_inv_def)
  show ?case
  proof (cases "avl_find_ge A t k")
    case None
    have "blk_size b < k" if "b \<in> set (tree_nodes A t)" for b
      using tree_nodes_slot [OF inv that] avl_find_ge_none [OF ok v None] by metis
    then show ?thesis using None by (simp add: alloc_search.simps [of A t k] best_fit_def)
  next
    case (Some sl)
    note L = avl_find_ge_least [OF ok v Some]
    have self: "avl_find A t (slot_size sl) = Some sl" using avl_find_in [OF ok v] L by simp
    show ?thesis
    proof (cases "dropWhile (\<lambda>n. trunk_status n \<noteq> FDFS_TRUNK_STATUS_FREE) (slot_head sl)")
      case Nil
      have "length (filter (\<lambda>y. slot_size sl + 1 \<le> slot_size y) (avl_walk A t)) < length (filter (\<lambda>y. k \<le> slot_size y) (avl_walk A t))"
        using L by (intro length_filter_strict [of _ _ sl]) auto
      from less [OF this] obtain r where r: "alloc_search A t (slot_size sl + 1) = Some r" "best_fit A t (slot_size sl + 1) r" by blast
      have held: "trunk_status b \<noteq> FDFS_TRUNK_STATUS_FREE"
        if "y \<in> set (avl_walk A t)" "slot_size y = slot_size sl" "b \<in> set (slot_head y)" for y b
      proof -
        have "Some y = Some sl" using avl_find_in [OF ok v that(1)] self that(2) by metis
        then have "y = sl" by (rule option.inject [THEN iffD1])
        then have "b \<in> set (slot_head sl)" using that(3) by (rule subst)
        with Nil show ?thesis unfolding dropWhile_eq_Nil_conv by blast
      qed
      have "best_fit A t k r"
        by (rule best_fit_skip [OF inv L [THEN conjunct2, THEN conjunct1] L [THEN conjunct2, THEN conjunct2] held r(2)])
      moreover have "alloc_search A t k = Some r"
        by (subst alloc_search.simps, unfold Some option.case Nil list.case) (rule r(1))
      ultimately show ?thesis by blast
    next
      case (Cons x post)
      let ?pre = "takeWhile (\<lambda>n. trunk_status n \<noteq> FDFS_TRUNK_STATUS_FREE) (slot_head sl)"
      have head: "slot_head sl = ?pre @ x # post" using takeWhile_dropWhile_id [of _ "slot_head sl"] Cons by metis
      have st: "trunk_status x = FDFS_TRUNK_STATUS_FREE" 
        using hd_dropWhile [of "\<lambda>n. trunk_status n \<noteq> FDFS_TRUNK_STATUS_FREE" "slot_head sl"] unfolding Cons by simp
      have "x \<in> set (slot_head sl)" using arg_cong [OF head, of set] by simp
      then have sz: "blk_size x = slot_size sl" using inv L by (simp add: slots_inv_def)
      have least: "blk_size x \<le> blk_size b" if "b \<in> set (tree_nodes A t)" "k \<le> blk_size b" for b
        using tree_nodes_slot [OF inv that(1)] L that(2) sz by metis
      have "alloc_search A t k = Some (Some (sl, ?pre, x, post))"
        by (subst alloc_search.simps, unfold Some option.case Cons list.case) (rule refl)
      moreover have "best_fit A t k (Some (sl, ?pre, x, post))"
        using self head st sz L least by (simp add: best_fit_def)
      ultimately show ?thesis by blast
    qed
  qed
qed

section \<open>Splitting and holding\<close>

text \<open>The part of a block that an allocation takes, and the part that stays free.\<close>

definition split_head :: "('t, 'u) trunk_env \<Rightarrow> FDFSTrunkFullInfo \<Rightarrow> int \<Rightarrow> FDFSTrunkFullInfo" where
  "split_head e x sz =
     (if blk_size x - sz < g_slot_min_size e then x else x\<lparr>trunk_file := (trunk_file x)\<lparr>trunk_size := sz\<rparr>\<rparr>)"

definition rest_block :: "FDFSTrunkFullInfo \<Rightarrow> int \<Rightarrow> FDFSTrunkFullInfo" where
  "rest_block x sz = x\<lparr>trunk_status := FDFS_TRUNK_STATUS_FREE,
     trunk_file := (trunk_file x)\<lparr>trunk_offset := blk_off x + sz, trunk_size := blk_size x - sz\<rparr>\<rparr>"

definition split_rest :: "('t, 'u) trunk_env \<Rightarrow> FDFSTrunkFullInfo \<Rightarrow> int \<Rightarrow> FDFSTrunkFullInfo multiset" where
  "split_rest e x sz = (if blk_size x - sz < g_slot_min_size e then {#} else {#rest_block x sz#})"

abbreviation hold :: "FDFSTrunkFullInfo \<Rightarrow> FDFSTrunkFullInfo" where
  "hold b \<equiv> b\<lparr>trunk_status := FDFS_TRUNK_STATUS_HOLD\<rparr>"

lemma core_inv_same_index:
  assumes "core_inv e s" "tree_info_by_sizes s' = tree_info_by_sizes s" "tree_info_by_id s' = tree_info_by_id s"
    and "set (trunk_files s) \<subseteq> set (trunk_files s')"
  shows "core_inv e s' \<and> free_blocks e s' = free_blocks e s \<and> (blk_good e s b \<longrightarrow> blk_good e s' b)"
  using assms size_part_cong [OF assms(2), of e] by (auto simp: core_inv_def free_blocks_def blk_good_def)

lemma core_inv_log:
  assumes "core_inv e s" "same_rest s s'" "tree_info_by_sizes s' = tree_info_by_sizes s" "tree_info_by_id s' = tree_info_by_id s"
  shows "core_inv e s'" "free_blocks e s' = free_blocks e s"
  using core_inv_same_index [OF assms(1,3,4)] assms(2) by (auto simp: same_rest_def)

lemma blk_good_rest_block:
  "blk_good e s x \<Longrightarrow> g_slot_min_size e \<le> blk_size x - sz \<Longrightarrow> 0 \<le> sz \<Longrightarrow> blk_good e s (rest_block x sz)"
  by (auto simp: blk_good_def rest_block_def trunk_get_full_filename_def trunk_get_full_filename_ex_def)

lemma blk_good_hold:
  "blk_good e s x \<Longrightarrow> g_slot_min_size e \<le> sz \<Longrightarrow> blk_good e s (hold (split_head e x sz))"
  by (auto simp: blk_good_def split_head_def trunk_get_full_filename_def trunk_get_full_filename_ex_def)

lemma trunk_split_spec:
  assumes e: "env_ok e lt" and inv: "core_inv e s" and good: "blk_good e s x" and sz: "0 \<le> sz"
    and split: "trunk_split e x sz s = (0, y, s')"
  shows "y = split_head e x sz \<and> core_inv e s' \<and> same_rest s s' \<and> free_blocks e s' = split_rest e x sz + free_blocks e s \<and>
    g_trunk_total_free_space s' = g_trunk_total_free_space s - blk_size (split_head e x sz) \<and>
    log_text (trunk_log s') = log_text (trunk_log s) @ trunk_binlog_line (g_current_time s) TRUNK_OP_TYPE_DEL_SPACE x @
      (if blk_size x - sz < g_slot_min_size e then []
       else trunk_binlog_line (g_current_time s) TRUNK_OP_TYPE_ADD_SPACE (rest_block x sz))"
proof (cases "blk_size x - sz < g_slot_min_size e")
  case True
  then have w: "trunk_mem_binlog_write TRUNK_OP_TYPE_DEL_SPACE x s = (0, s')" and y: "y = x"
    using split by (auto simp: trunk_split_def split: prod.splits)
  note W = trunk_mem_binlog_write_spec [OF w]
  have "core_inv e s'" "free_blocks e s' = free_blocks e s" using core_inv_log [OF inv] W by blast+
  with True W y show ?thesis by (simp add: split_head_def split_rest_def)
next
  case False
  obtain r1 s1 where m: "mblock_alloc s = (r1, s1)" by (metis surj_pair)
  obtain tp where s1: "s1 = s\<lparr>ext := tp\<rparr>" using mblock_alloc_spec [OF m] by metis
  obtain r2 s2 where w: "trunk_mem_binlog_write TRUNK_OP_TYPE_DEL_SPACE x s1 = (r2, s2)" by (metis surj_pair)
  obtain r3 s3 where a: "trunk_add_free_block_ex e (rest_block x sz) True s2 = (r3, s3)" by (metis surj_pair)
  note unf = split [unfolded trunk_split_def m prod.case w Let_def rest_block_def [symmetric] a]
  have z: "r2 = 0" "r3 = 0" "s' = s3" "y = x\<lparr>trunk_file := (trunk_file x)\<lparr>trunk_size := sz\<rparr>\<rparr>"
    using unf False by (auto split: if_splits)
  note W = trunk_mem_binlog_write_spec [OF w]
  have "core_inv e s1" using inv s1 core_inv_same_index [of e s s1] by simp
  then have c2: "core_inv e s2" "free_blocks e s2 = free_blocks e s"
    using core_inv_log [of e s1 s2] W s1 by (auto simp: free_blocks_def)
  have rest: "same_rest s s2" using W s1 by (simp add: same_rest_def)
  have "blk_good e s2 (rest_block x sz)"
    using blk_good_rest_block [OF good _ sz] False blk_good_rest [OF rest] by simp
  note A = trunk_add_free_block_spec [OF e c2(1) this a [unfolded z(2)]]
  have "same_rest s s3" using rest A same_rest_trans by blast
  moreover have "g_current_time s2 = g_current_time s" using rest by (simp add: same_rest_def)
  ultimately show ?thesis
    using A W z s1 c2(2) False by (simp add: split_head_def split_rest_def rest_block_def)
qed

lemma trunk_alloc_finish_spec:
  assumes e: "env_ok e lt" and inv: "core_inv e s" and good: "blk_good e s x" and sz: "g_slot_min_size e \<le> sz"
    and fin: "trunk_alloc_finish e sz x p s = (0, b, s')"
  shows "b = hold (split_head e x sz) \<and> core_inv e s' \<and> same_rest s s' \<and>
    free_blocks e s' = add_mset b (split_rest e x sz + free_blocks e s) \<and>
    g_trunk_total_free_space s' = g_trunk_total_free_space s \<and>
    log_text (trunk_log s') = log_text (trunk_log s) @ trunk_binlog_line (g_current_time s) TRUNK_OP_TYPE_DEL_SPACE x @
      (if blk_size x - sz < g_slot_min_size e then []
       else trunk_binlog_line (g_current_time s) TRUNK_OP_TYPE_ADD_SPACE (rest_block x sz)) @
      trunk_binlog_line (g_current_time s) TRUNK_OP_TYPE_ADD_SPACE b"
proof -
  have sz0: "0 \<le> sz" using e sz by (auto simp: env_ok_def)
  obtain r1 y s1 where sp: "trunk_split e x sz s = (r1, y, s1)" by (metis prod_cases3)
  obtain r2 s2 where a: "trunk_add_free_block_ex e (hold y) True s1 = (r2, s2)" by (metis surj_pair)
  note unf = fin [unfolded trunk_alloc_finish_def sp prod.case Let_def a]
  have z: "r1 = 0" "r2 = 0" "b = hold y" "s' = s2" using unf by (auto split: if_splits)
  note S = trunk_split_spec [OF e inv good sz0 sp [unfolded z(1)]]
  have "blk_good e s1 (hold y)" using S blk_good_hold [OF good sz] blk_good_rest [of s s1] by simp
  note A = trunk_add_free_block_spec [OF e _ this a [unfolded z(2)]]
  have "same_rest s s2" using S A same_rest_trans by blast
  moreover have "g_current_time s1 = g_current_time s" using S by (simp add: same_rest_def)
  ultimately show ?thesis using S A z by simp
qed

section \<open>New trunk files\<close>

text \<open>The id that a path name ends in.\<close>

definition name_id :: "string \<Rightarrow> int" where
  "name_id f = atoi (rev (takeWhile (\<lambda>c. c \<noteq> CHR ''/'') (rev f)))"

lemma name_id_full_filename:
  assumes "0 \<le> trunk_id (trunk_file b)" "trunk_id (trunk_file b) < 2 ^ 32"
  shows "name_id (trunk_get_full_filename e b) = trunk_id (trunk_file b)"
proof -
  have "takeWhile (\<lambda>c. c \<noteq> CHR ''/'') (rev (fmt_06u n) @ CHR ''/'' # z) = rev (fmt_06u n)" for n z
    by (subst takeWhile_append2) auto
  then show ?thesis using assms by (simp add: name_id_def trunk_get_full_filename_def trunk_get_full_filename_ex_def atoi_fmt_06u)
qed

text \<open>What the loop for a new file name leaves, when it returns.\<close>

definition same_index :: "('t, 'u) trunk_state \<Rightarrow> ('t, 'u) trunk_state \<Rightarrow> bool" where
  "same_index s s' \<longleftrightarrow>
     tree_info_by_sizes s' = tree_info_by_sizes s \<and> tree_info_by_id s' = tree_info_by_id s \<and>
     g_trunk_total_free_space s' = g_trunk_total_free_space s \<and> trunk_log s' = trunk_log s \<and>
     trunk_files s' = trunk_files s \<and> g_if_trunker_self s' = g_if_trunker_self s \<and>
     trunk_init_flag s' = trunk_init_flag s \<and> g_current_time s' = g_current_time s"

definition next_file_post ::
    "('t, 'u) trunk_env \<Rightarrow> FDFSTrunkFullInfo \<Rightarrow> ('t, 'u) trunk_state
     \<Rightarrow> int \<times> FDFSTrunkFullInfo \<times> string \<times> ('t, 'u) trunk_state \<Rightarrow> bool" where
  "next_file_post e b s = (\<lambda>(r, b', full, s').
     same_index s s' \<and> (ext_all_ok (ext s) \<longrightarrow> r = 0 \<and> ext_all_ok (ext s')) \<and>
     trunk_status b' = trunk_status b \<and> blk_path b' = blk_path b \<and> blk_off b' = blk_off b \<and> blk_size b' = blk_size b \<and>
     (r = 0 \<longrightarrow> full = trunk_get_full_filename e b' \<and> full \<notin> set (trunk_files s)))"

lemma next_file_try_post:
  assumes "next_file_try e b s = (r, b', full, s')"
  shows "same_index s s' \<and> g_current_trunk_file_id s' = g_current_trunk_file_id s + 1 \<and>
    (ext_all_ok (ext s) \<longrightarrow> r = 0 \<and> ext_all_ok (ext s')) \<and>
    trunk_status b' = trunk_status b \<and> blk_path b' = blk_path b \<and> blk_off b' = blk_off b \<and> blk_size b' = blk_size b \<and>
    trunk_id (trunk_file b') = g_current_trunk_file_id s + 1 \<and> (r = 0 \<longrightarrow> full = trunk_get_full_filename e b')"
  using assms ext_call_ok [of "ext s" EIO]
  by (auto simp: next_file_try_def same_index_def Let_def split: prod.splits if_splits)

lemma create_next_file_loop_post:
  "create_next_file_loop e b s = Some y \<Longrightarrow> next_file_post e b s y"
  apply (erule create_next_file_loop.raw_induct [where P = next_file_post, rotated])
  subgoal premises prems for loop e b s y
  proof -
    obtain r b' full s' where t: "next_file_try e b s = (r, b', full, s')" by (metis prod_cases4)
    note T = next_file_try_post [OF t]
    note body = prems(2) [unfolded t prod.case]
    consider "r \<noteq> 0" | "r = 0" "full \<in> set (trunk_files s')" | "r = 0" "full \<notin> set (trunk_files s')" by blast
    then show ?thesis
    proof cases
      case 1
      with body have "y = (r, b', full, s')" by simp
      with T 1 show ?thesis by (simp add: next_file_post_def)
    next
      case 2
      with body have "loop e b' s' = Some y" by simp
      then have "next_file_post e b' s' y" by (rule prems(1))
      then show ?thesis using T by (auto simp: next_file_post_def same_index_def split: prod.splits)
    next
      case 3
      with body have "y = (0, b', full, s')" by simp
      with T 3 show ?thesis by (simp add: next_file_post_def same_index_def)
    qed
  qed
  done

text \<open>
  The loop returns: every round uses up an id, and a path name that exists ends in one id
  only, so at most as many rounds fail as there are files.
\<close>

definition ids_above :: "string list \<Rightarrow> int \<Rightarrow> int set" where
  "ids_above files n = {k. n < k \<and> k < 2 ^ 32 \<and> k \<in> name_id ` set files}"

lemma ids_above_finite: "finite (ids_above files n)"
  by (rule finite_subset [of _ "name_id ` set files"]) (auto simp: ids_above_def)

lemma ids_above_card: "card (ids_above files n) \<le> length files"
proof -
  have "card (ids_above files n) \<le> card (name_id ` set files)"
    by (rule card_mono) (auto simp: ids_above_def)
  also have "\<dots> \<le> card (set files)" by (rule card_image_le) simp
  also have "\<dots> \<le> length files" by (rule card_length)
  finally show ?thesis .
qed

lemma create_next_file_loop_total:
  assumes "0 \<le> g_current_trunk_file_id s"
    and "g_current_trunk_file_id s + int (card (ids_above (trunk_files s) (g_current_trunk_file_id s))) + 1 < 2 ^ 32"
  shows "\<exists>y. create_next_file_loop e b s = Some y"
  using assms
proof (induction "card (ids_above (trunk_files s) (g_current_trunk_file_id s))" arbitrary: b s rule: less_induct)
  case less
  obtain r b' full s' where t: "next_file_try e b s = (r, b', full, s')" by (metis prod_cases4)
  note T = next_file_try_post [OF t]
  let ?n = "g_current_trunk_file_id s"
  have s': "g_current_trunk_file_id s' = ?n + 1" "trunk_files s' = trunk_files s" using T by (simp_all add: same_index_def)
  show ?case
  proof (cases "r = 0 \<and> full \<in> set (trunk_files s')")
    case False
    then show ?thesis by (subst create_next_file_loop.simps) (auto simp: t)
  next
    case True
    have "name_id full = ?n + 1" using name_id_full_filename [of b' e] T True less.prems by simp
    then have "?n + 1 \<in> name_id ` set (trunk_files s)" using True s'(2) by (metis image_eqI)
    then have "?n + 1 \<in> ids_above (trunk_files s) ?n" using less.prems by (simp add: ids_above_def)
    moreover have "ids_above (trunk_files s) (?n + 1) = ids_above (trunk_files s) ?n - {?n + 1}"
      by (auto simp: ids_above_def)
    ultimately have c: "card (ids_above (trunk_files s) ?n) = Suc (card (ids_above (trunk_files s) (?n + 1)))"
      using card_Suc_Diff1 [OF ids_above_finite, of "?n + 1" "trunk_files s" ?n] by simp
    have "\<exists>y. create_next_file_loop e b' s' = Some y"
      by (rule less.hyps) (use c s' less.prems in simp_all)
    then show ?thesis using True by (subst create_next_file_loop.simps) (simp add: t)
  qed
qed

lemma trunk_init_file_spec:
  assumes "trunk_init_file_ex e f n s = (r, s')"
  shows "tree_info_by_sizes s' = tree_info_by_sizes s \<and> tree_info_by_id s' = tree_info_by_id s \<and>
    g_trunk_total_free_space s' = g_trunk_total_free_space s \<and> trunk_log s' = trunk_log s \<and>
    g_if_trunker_self s' = g_if_trunker_self s \<and> trunk_init_flag s' = trunk_init_flag s \<and> g_current_time s' = g_current_time s \<and>
    set (trunk_files s) \<subseteq> set (trunk_files s') \<and> (r = 0 \<longrightarrow> f \<in> set (trunk_files s')) \<and>
    (ext_all_ok (ext s) \<longrightarrow> r = 0 \<and> ext_all_ok (ext s'))"
proof -
  obtain r1 tp1 where c1: "ext_call EEXIST (ext s) = (r1, tp1)" by (metis surj_pair)
  obtain r2 tp2 where c2: "ext_call EIO tp1 = (r2, tp2)" by (metis surj_pair)
  have ok: "ext_all_ok (ext s) \<Longrightarrow> r1 = 0 \<and> r2 = 0 \<and> ext_all_ok tp2"
    using ext_call_ok [of "ext s" EEXIST] ext_call_ok [of tp1 EIO] c1 c2 by auto
  show ?thesis
    using assms [unfolded trunk_init_file_ex_def c1 prod.case c2] ok by (auto split: if_splits)
qed

text \<open>A node for a new trunk file: the whole file, in a file no indexed block is in.\<close>

definition new_file_node :: "('t, 'u) trunk_env \<Rightarrow> ('t, 'u) trunk_state \<Rightarrow> nat \<Rightarrow> FDFSTrunkFullInfo \<Rightarrow> bool" where
  "new_file_node e s i x \<longleftrightarrow>
     trunk_status x = FDFS_TRUNK_STATUS_FREE \<and> blk_path x = i \<and> blk_off x = 0 \<and> blk_size x = g_trunk_file_size e \<and>
     (\<forall>y \<in># free_blocks e s. FILL_FILE_IDENTIFIER y \<noteq> FILL_FILE_IDENTIFIER x)"

lemma full_filename_cong: "FILL_FILE_IDENTIFIER y = FILL_FILE_IDENTIFIER x \<Longrightarrow> trunk_get_full_filename e y = trunk_get_full_filename e x"
  by (simp add: FILL_FILE_IDENTIFIER_def trunk_get_full_filename_def trunk_get_full_filename_ex_def)

lemma trunk_create_next_file_spec:
  assumes cr: "trunk_create_next_file e b s = Some (r, b', s')"
  shows "tree_info_by_sizes s' = tree_info_by_sizes s \<and> tree_info_by_id s' = tree_info_by_id s \<and>
    g_trunk_total_free_space s' = g_trunk_total_free_space s \<and> trunk_log s' = trunk_log s \<and>
    g_if_trunker_self s' = g_if_trunker_self s \<and> trunk_init_flag s' = trunk_init_flag s \<and> g_current_time s' = g_current_time s \<and>
    set (trunk_files s) \<subseteq> set (trunk_files s') \<and>
    trunk_status b' = trunk_status b \<and> blk_path b' = blk_path b \<and> blk_off b' = blk_off b \<and> blk_size b' = blk_size b \<and>
    (r = 0 \<longrightarrow> trunk_get_full_filename e b' \<notin> set (trunk_files s) \<and> trunk_get_full_filename e b' \<in> set (trunk_files s')) \<and>
    (ext_all_ok (ext s) \<longrightarrow> r = 0 \<and> ext_all_ok (ext s'))"
proof -
  obtain r1 b1 full s1 where loop: "create_next_file_loop e b s = Some (r1, b1, full, s1)"
    using cr by (auto simp: trunk_create_next_file_def split: option.splits)
  note L = create_next_file_loop_post [OF loop, unfolded next_file_post_def prod.case]
  obtain r2 s2 where it: "trunk_init_file_ex e full (g_trunk_file_size e) s1 = (r2, s2)" by (metis surj_pair)
  note I = trunk_init_file_spec [OF it]
  note unf = cr [unfolded trunk_create_next_file_def loop option.case prod.case it]
  show ?thesis
  proof (cases "r1 = 0")
    case False
    with unf have "r = r1" "b' = b1" "s' = s1" by simp_all
    with False L show ?thesis by (simp add: same_index_def)
  next
    case True
    with unf have "r = r2" "b' = b1" "s' = s2" by simp_all
    with True L I show ?thesis by (auto simp: same_index_def)
  qed
qed

lemma trunk_create_trunk_file_spec:
  assumes e: "env_ok e lt" and inv: "core_inv e s" and i: "i < length (g_fdfs_store_paths (stores e))"
    and cr: "trunk_create_trunk_file e (int i) err s = Some (r, node, s')"
  shows "(node = None \<longrightarrow> r \<noteq> 0) \<and> core_inv e s' \<and> free_blocks e s' = free_blocks e s \<and>
    g_if_trunker_self s' = g_if_trunker_self s \<and> trunk_init_flag s' = trunk_init_flag s \<and> g_current_time s' = g_current_time s \<and>
    set (trunk_files s) \<subseteq> set (trunk_files s') \<and>
    (\<forall>x. node = Some x \<longrightarrow> new_file_node e s i x \<and> blk_good e s' x \<and>
       g_trunk_total_free_space s' = g_trunk_total_free_space s + g_trunk_file_size e \<and>
       (r = 0 \<longrightarrow> log_text (trunk_log s') = log_text (trunk_log s) @ trunk_binlog_line (g_current_time s) TRUNK_OP_TYPE_ADD_SPACE x)) \<and>
    (node = None \<longrightarrow> g_trunk_total_free_space s' = g_trunk_total_free_space s) \<and>
    (ext_all_ok (ext s) \<longrightarrow> node \<noteq> None \<and> r = 0 \<and> ext_all_ok (ext s'))"
proof -
  have u8: "to_u8 (int i) = i" using i e by (simp add: env_ok_def)
  let ?b = "\<lparr>trunk_status = FDFS_TRUNK_STATUS_FREE,
    trunk_path = \<lparr>store_path_index = i, sub_path_high = 0, sub_path_low = 0\<rparr>,
    trunk_file = \<lparr>trunk_id = 0, trunk_offset = 0, trunk_size = g_trunk_file_size e\<rparr>\<rparr>"
  obtain r1 s1 where m: "mblock_alloc s = (r1, s1)" by (metis surj_pair)
  obtain tp where s1: "s1 = s\<lparr>ext := tp\<rparr>" "ext_all_ok (ext s) \<Longrightarrow> r1 = 0 \<and> ext_all_ok tp"
    using mblock_alloc_spec [OF m] by metis
  have c1: "core_inv e s1" "free_blocks e s1 = free_blocks e s" using core_inv_same_index [OF inv, of s1] s1(1) by simp_all
  note unf = cr [unfolded trunk_create_trunk_file_def m prod.case Let_def]
  show ?thesis
  proof (cases "r1 = 0")
    case False
    with unf have "r = r1" "node = None" "s' = s1" by auto
    with False c1 s1 show ?thesis by auto
  next
    case True
    note unf1 = unf [unfolded True, simplified, unfolded u8]
    obtain r2 b' s2 where nx: "trunk_create_next_file e ?b s1 = Some (r2, b', s2)"
      using unf1 by (auto split: option.splits)
    note N = trunk_create_next_file_spec [OF nx]
    have c2: "core_inv e s2" "free_blocks e s2 = free_blocks e s"
      using core_inv_same_index [OF c1(1), of s2] N c1(2) by auto
    show ?thesis
    proof (cases "r2 = 0")
      case False
      with unf1 nx have "r = r2" "node = None" "s' = s2" by simp_all
      with False c2 N s1 show ?thesis by auto
    next
      case r2: True
      obtain r3 s3 where w: "trunk_mem_binlog_write TRUNK_OP_TYPE_ADD_SPACE b' s2 = (r3, s3)" by (metis surj_pair)
      note W = trunk_mem_binlog_write_spec [OF w]
      from unf1 nx r2 w have res: "r = r3" "node = Some b'" "s' = s3" by simp_all
      have c3: "core_inv e s3" "free_blocks e s3 = free_blocks e s"
        using core_inv_same_index [OF c2(1), of s3] W c2(2) by (auto simp: same_rest_def)
      have "FILL_FILE_IDENTIFIER y \<noteq> FILL_FILE_IDENTIFIER b'" if "y \<in># free_blocks e s" for y
        using full_filename_cong [of y b' e] that inv N r2 s1(1) by (auto simp: core_inv_def blk_good_def)
      then have "new_file_node e s i b'" using N by (simp add: new_file_node_def)
      moreover have "blk_good e s3 b'" using N r2 W i e by (simp add: blk_good_def same_rest_def env_ok_def)
      ultimately show ?thesis using res c3 N W s1 by (simp add: same_rest_def)
    qed
  qed
qed

section \<open>Allocation\<close>

lemma trunk_aligned_size_bounds:
  assumes "env_ok e lt"
  shows "g_slot_min_size e \<le> trunk_aligned_size e sz" "sz \<le> trunk_aligned_size e sz"
proof -
  let ?a = "g_trunk_alloc_alignment_size e"
  have "sz smod ?a < ?a" if "?a \<noteq> 0" "g_slot_min_size e < sz"
  proof -
    have "0 < ?a" "0 < sz" using assms that by (auto simp: env_ok_def)
    then have "sz smod ?a = sz mod ?a" by (simp add: signed_modulo_int_def)
    with \<open>0 < ?a\<close> show ?thesis by simp
  qed
  then show "g_slot_min_size e \<le> trunk_aligned_size e sz" "sz \<le> trunk_aligned_size e sz"
    by (auto simp: trunk_aligned_size_def Let_def)
qed

text \<open>
  The two ways an allocation can succeed: from a block of the index, the best fitting free
  one, or from a new trunk file when no free block of the path is large enough.
\<close>

definition alloc_source :: "('t, 'u) trunk_env \<Rightarrow> ('t, 'u) trunk_state \<Rightarrow> nat \<Rightarrow> int \<Rightarrow> FDFSTrunkFullInfo \<Rightarrow> bool" where
  "alloc_source e s i sz x \<longleftrightarrow>
     x \<in># free_blocks e s \<and> trunk_status x = FDFS_TRUNK_STATUS_FREE \<and> blk_path x = i \<and> sz \<le> blk_size x \<and>
     (\<forall>y \<in># free_blocks e s. trunk_status y = FDFS_TRUNK_STATUS_FREE \<and> blk_path y = i \<and> sz \<le> blk_size y
        \<longrightarrow> blk_size x \<le> blk_size y)"

definition no_source :: "('t, 'u) trunk_env \<Rightarrow> ('t, 'u) trunk_state \<Rightarrow> nat \<Rightarrow> int \<Rightarrow> bool" where
  "no_source e s i sz \<longleftrightarrow>
     (\<forall>y \<in># free_blocks e s. trunk_status y = FDFS_TRUNK_STATUS_FREE \<and> blk_path y = i \<longrightarrow> blk_size y < sz)"

lemma size_nodes_path:
  assumes "size_trees_ok e s" "y \<in># size_nodes e s"
  shows "y \<in> set (tree_nodes (size_api e) (size_tree s (blk_path y)))" "blk_path y < length (tree_info_by_sizes s)"
proof -
  obtain j where j: "j < length (tree_info_by_sizes s)" "y \<in> set (tree_nodes (size_api e) (size_tree s j))"
    using assms(2) size_nodes_in by blast
  then have "blk_path y = j" using assms(1) by (auto simp: size_trees_ok_def slots_inv_def tree_nodes_def)
  with j show "y \<in> set (tree_nodes (size_api e) (size_tree s (blk_path y)))" "blk_path y < length (tree_info_by_sizes s)"
    by simp_all
qed

lemma tree_nodes_in_free:
  assumes "core_inv e s" "i < length (tree_info_by_sizes s)" "y \<in> set (tree_nodes (size_api e) (size_tree s i))"
  shows "y \<in># free_blocks e s" "blk_path y = i"
proof -
  have "y \<in># size_nodes e s" using assms(2,3) size_nodes_in by blast
  then show "y \<in># free_blocks e s" using assms(1) by (simp add: core_inv_def)
  show "blk_path y = i" using assms by (auto simp: core_inv_def size_trees_ok_def slots_inv_def tree_nodes_def)
qed

text \<open>The search, in terms of the free blocks.\<close>

lemma alloc_search_source:
  assumes e: "env_ok e lt" and inv: "core_inv e s" and i: "i < length (g_fdfs_store_paths (stores e))"
  shows "(alloc_search (size_api e) (size_tree s i) k = Some None \<and> no_source e s i k) \<or>
    (\<exists>sl pre x post. alloc_search (size_api e) (size_tree s i) k = Some (Some (sl, pre, x, post)) \<and>
       avl_find (size_api e) (size_tree s i) (slot_size sl) = Some sl \<and> slot_head sl = pre @ x # post \<and> alloc_source e s i k x)"
proof -
  let ?A = "size_api e" and ?t = "size_tree s i"
  have ok: "size_avl_ok ?A" using e by (simp add: env_ok_def)
  have c: "size_trees_ok e s" "size_nodes e s = free_blocks e s" "i < length (tree_info_by_sizes s)" using inv i by (auto simp: core_inv_def)
  then have si: "slots_inv ?A i ?t" by (simp add: size_trees_ok_def)
  have nodes: "y \<in> set (tree_nodes ?A ?t) \<longleftrightarrow> y \<in># free_blocks e s \<and> blk_path y = i" for y
    using tree_nodes_in_free [OF inv c(3)] size_nodes_path [OF c(1)] c(2) by auto
  obtain r where r: "alloc_search ?A ?t k = Some r" "best_fit ?A ?t k r" using alloc_search_total [OF ok si] by blast
  show ?thesis
  proof (cases r)
    case None
    with r(2) nodes have "no_source e s i k" by (auto simp: best_fit_def no_source_def)
    with r(1) None show ?thesis by blast
  next
    case (Some q)
    obtain sl pre x post where q: "q = (sl, pre, x, post)" by (metis prod_cases4)
    have b: "avl_find ?A ?t (slot_size sl) = Some sl" "slot_head sl = pre @ x # post"
        "trunk_status x = FDFS_TRUNK_STATUS_FREE" "k \<le> blk_size x"
        "\<forall>b \<in> set (tree_nodes ?A ?t). trunk_status b = FDFS_TRUNK_STATUS_FREE \<and> k \<le> blk_size b \<longrightarrow> blk_size x \<le> blk_size b"
      using r(2) unfolding Some q by (simp_all add: best_fit_def)
    have "sl \<in> set (avl_walk ?A ?t)" using avl_find_SomeD [OF ok _ b(1)] si by (simp add: slots_inv_def)
    moreover have "x \<in> set (slot_head sl)" unfolding b(2) by simp
    ultimately have "x \<in> set (tree_nodes ?A ?t)" by (auto simp: tree_nodes_def)
    then have "alloc_source e s i k x" using b nodes by (auto simp: alloc_source_def)
    with r(1) Some q b show ?thesis by blast
  qed
qed

lemma trunk_alloc_space_spec:
  assumes e: "env_ok e lt" and inv: "core_inv e s" and i: "blk_path p < length (g_fdfs_store_paths (stores e))"
    and al: "trunk_alloc_space e sz p s = Some (0, b, s')"
  defines "k \<equiv> trunk_aligned_size e sz"
  shows "core_inv e s' \<and>
    (\<exists>x. b = hold (split_head e x k) \<and>
       ((alloc_source e s (blk_path p) k x \<and>
         free_blocks e s' + {#x#} = add_mset b (split_rest e x k + free_blocks e s) \<and>
         g_trunk_total_free_space s' = g_trunk_total_free_space s) \<or>
        (no_source e s (blk_path p) k \<and> new_file_node e s (blk_path p) x \<and>
         free_blocks e s' = add_mset b (split_rest e x k + free_blocks e s) \<and>
         g_trunk_total_free_space s' = g_trunk_total_free_space s + g_trunk_file_size e)))"
proof -
  let ?i = "blk_path p"
  have k: "g_slot_min_size e \<le> k" using trunk_aligned_size_bounds [OF e] by (simp add: k_def)
  have st: "STORAGE_TRUNK_CHECK_STATUS s = 0" using al by (auto simp: trunk_alloc_space_def split: if_splits)
  have it: "?i < length (tree_info_by_sizes s)" using inv i by (simp add: core_inv_def)
  note unf = al [unfolded trunk_alloc_space_def Let_def, folded k_def, simplified st, simplified]
  from alloc_search_source [OF e inv i, of k] show ?thesis
  proof (elim disjE exE conjE)
    assume n: "alloc_search (size_api e) (size_tree s ?i) k = Some None" "no_source e s ?i k"
    obtain r1 x s1 where cr: "trunk_create_trunk_file e (int ?i) 0 s = Some (r1, Some x, s1)"
        and fin: "trunk_alloc_finish e k x p s1 = (0, b, s')"
    proof -
      obtain r1 nd s1 where c: "trunk_create_trunk_file e (int ?i) 0 s = Some (r1, nd, s1)"
        using unf n(1) by (auto split: option.splits)
      have "nd \<noteq> None"
      proof
        assume "nd = None"
        with trunk_create_trunk_file_spec [OF e inv i c] have "r1 \<noteq> 0" by blast
        with unf n(1) c \<open>nd = None\<close> show False by simp
      qed
      with c unf n(1) show thesis using that by auto
    qed
    note C = trunk_create_trunk_file_spec [OF e inv i cr]
    have "core_inv e s1" "blk_good e s1 x" using C by blast+
    note F = trunk_alloc_finish_spec [OF e this k fin]
    show ?thesis using F C n(2) by auto
  next
    fix sl pre x post
    assume a: "alloc_search (size_api e) (size_tree s ?i) k = Some (Some (sl, pre, x, post))"
      "avl_find (size_api e) (size_tree s ?i) (slot_size sl) = Some sl" "slot_head sl = pre @ x # post" "alloc_source e s ?i k x"
    obtain r1 s1 where d: "checker_delete e x (size_tree_unlink e ?i sl pre post s) = (r1, s1)" by (metis surj_pair)
    note R = remove_node_spec [OF e inv it a(2,3) d]
    have fin: "trunk_alloc_finish e k x p s1 = (0, b, s')" using unf a(1) d by simp
    have "blk_good e s x" using inv a(4) by (simp add: core_inv_def alloc_source_def)
    then have good: "blk_good e s1 x" using R blk_good_rest by blast
    have "core_inv e s1" using R by blast
    note F = trunk_alloc_finish_spec [OF e this good k fin]
    show ?thesis using F R a(4) by auto
  qed
qed

lemma free_blocks_disjoint:
  assumes "env_ok e lt" "core_inv e s" "x \<in># free_blocks e s" "y \<in># free_blocks e s" "x \<noteq> y"
  shows "\<not> blk_overlap x y"
  using assms id_blocks_disjoint [of "id_api e" lt "tree_info_by_id s" x y]
  by (simp add: env_ok_def core_inv_def free_blocks_def)

lemma free_blocks_once:
  assumes "env_ok e lt" "core_inv e s" "free_blocks e s = add_mset x M"
  shows "x \<notin># M"
proof
  assume "x \<in># M"
  then have "2 \<le> count (free_blocks e s) x" using assms(3) by (simp add: Suc_le_eq count_greater_zero_iff)
  moreover have "count (free_blocks e s) x \<le> 1"
    using id_blocks_distinct [of "id_api e" lt "tree_info_by_id s"] assms(1,2)
    by (simp add: env_ok_def core_inv_def free_blocks_def distinct_count_atmost_1)
  ultimately show False by simp
qed

text \<open>Both parts of a split block lie in the block, and apart from each other.\<close>

lemma split_head_overlap:
  assumes "g_slot_min_size e \<le> k" "0 < g_slot_min_size e" "blk_overlap (hold (split_head e x k)) y"
  shows "blk_overlap x y"
  using assms by (auto simp: blk_overlap_def split_head_def FILL_FILE_IDENTIFIER_def split: if_splits)

lemma rest_block_overlap: "0 \<le> k \<Longrightarrow> blk_overlap (rest_block x k) y \<Longrightarrow> blk_overlap x y"
  by (auto simp: blk_overlap_def rest_block_def FILL_FILE_IDENTIFIER_def)

lemma split_parts_apart: "y \<in># split_rest e x k \<Longrightarrow> \<not> blk_overlap (hold (split_head e x k)) y"
  by (auto simp: blk_overlap_def split_head_def split_rest_def rest_block_def split: if_splits)

lemma split_sizes:
  "blk_size (hold (split_head e x k)) + sum_mset (image_mset blk_size (split_rest e x k)) = blk_size x"
  by (simp add: split_head_def split_rest_def rest_block_def)

lemma split_head_facts:
  "k \<le> blk_size x \<Longrightarrow> k \<le> blk_size (split_head e x k)" "blk_off (split_head e x k) = blk_off x"
  "trunk_path (split_head e x k) = trunk_path x" "trunk_id (trunk_file (split_head e x k)) = trunk_id (trunk_file x)"
  by (simp_all add: split_head_def)

text \<open>Without external failures, splitting and holding succeed.\<close>

lemma trunk_split_ok:
  assumes e: "env_ok e lt" and inv: "core_inv e s" and good: "blk_good e s x" and k: "g_slot_min_size e \<le> k"
    and clear: "\<forall>y \<in># free_blocks e s. \<not> blk_overlap x y"
    and ok: "ext_all_ok (ext s)" "avl_total (size_api e)" "avl_total (id_api e)"
  shows "\<exists>s'. trunk_split e x k s = (0, split_head e x k, s') \<and> ext_all_ok (ext s')"
proof (cases "blk_size x - k < g_slot_min_size e")
  case True
  obtain r s' where w: "trunk_mem_binlog_write TRUNK_OP_TYPE_DEL_SPACE x s = (r, s')" by (metis surj_pair)
  with trunk_mem_binlog_write_spec [OF w] ok(1) True show ?thesis by (simp add: trunk_split_def split_head_def)
next
  case False
  have k0: "0 \<le> k" using e k by (auto simp: env_ok_def)
  obtain r1 s1 where m: "mblock_alloc s = (r1, s1)" by (metis surj_pair)
  obtain tp where s1: "s1 = s\<lparr>ext := tp\<rparr>" "r1 = 0" "ext_all_ok tp" using mblock_alloc_spec [OF m] ok(1) by metis
  obtain r2 s2 where w: "trunk_mem_binlog_write TRUNK_OP_TYPE_DEL_SPACE x s1 = (r2, s2)" by (metis surj_pair)
  note W = trunk_mem_binlog_write_spec [OF w]
  have "core_inv e s1" using core_inv_same_index [OF inv, of s1] s1 by simp
  then have c2: "core_inv e s2" "free_blocks e s2 = free_blocks e s"
    using core_inv_log [of e s1 s2] W s1 by (auto simp: free_blocks_def)
  have rest: "same_rest s s2" using W s1 by (simp add: same_rest_def)
  have g: "blk_good e s2 (rest_block x k)" using blk_good_rest_block [OF good _ k0] False blk_good_rest [OF rest] by simp
  have "\<forall>y \<in># free_blocks e s2. \<not> blk_overlap (rest_block x k) y" using clear rest_block_overlap [OF k0] c2(2) by metis
  then obtain s3 where a: "trunk_add_free_block_ex e (rest_block x k) True s2 = (0, s3)" "ext_all_ok (ext s3)"
    using trunk_add_free_block_ok [OF e c2(1) g _ _ ok(2,3)] W s1 by auto
  then have "trunk_split e x k s = (0, split_head e x k, s3)"
    unfolding trunk_split_def m prod.case w Let_def rest_block_def [symmetric] using s1 W False by (simp add: split_head_def)
  with a(2) show ?thesis by blast
qed

lemma trunk_alloc_finish_ok:
  assumes e: "env_ok e lt" and inv: "core_inv e s" and good: "blk_good e s x" and k: "g_slot_min_size e \<le> k"
    and clear: "\<forall>y \<in># free_blocks e s. \<not> blk_overlap x y"
    and ok: "ext_all_ok (ext s)" "avl_total (size_api e)" "avl_total (id_api e)"
  shows "fst (trunk_alloc_finish e k x p s) = 0"
proof -
  have k0: "0 \<le> k" "0 < g_slot_min_size e" using e k by (auto simp: env_ok_def)
  obtain s1 where sp: "trunk_split e x k s = (0, split_head e x k, s1)" "ext_all_ok (ext s1)"
    using trunk_split_ok [OF assms] by blast
  note S = trunk_split_spec [OF e inv good k0(1) sp(1)]
  have g: "blk_good e s1 (hold (split_head e x k))" using S blk_good_hold [OF good k] blk_good_rest [of s s1] by simp
  have "\<forall>y \<in># free_blocks e s1. \<not> blk_overlap (hold (split_head e x k)) y"
  proof
    fix y assume "y \<in># free_blocks e s1"
    then consider "y \<in># split_rest e x k" | "y \<in># free_blocks e s" using S by auto
    then show "\<not> blk_overlap (hold (split_head e x k)) y"
      using split_parts_apart clear split_head_overlap [OF k k0(2)] by cases blast+
  qed
  then obtain s2 where "trunk_add_free_block_ex e (hold (split_head e x k)) True s1 = (0, s2)"
    using trunk_add_free_block_ok [OF e _ g _ sp(2) ok(2,3)] S by blast
  then show ?thesis by (simp add: trunk_alloc_finish_def sp(1))
qed

end
