(* ===== verification/Trunk_Alloc.thy ===== *)
theory Trunk_Alloc
  imports Trunk_Mem
begin

text \<open>
  What the allocator of \<open>Trunk_Mem\<close> promises its clients: an allocation that
  succeeds hands out bytes no other client holds and takes the best fitting block, it
  always returns, confirming removes exactly the held block and giving up makes it free
  again, freeing a block adds exactly that block, and every sequence of these operations
  from the empty index keeps the two indexes and the count of the free space consistent.
\<close>

section \<open>A configuration and a state\<close>

definition sample_env :: "(FDFSTrunkSlot list, FDFSTrunksById list) trunk_env" where
  "sample_env =
     \<lparr>size_api = list_avl slot_size (<), id_api = list_id_avl, fc = fc_impl, stores = sample_conf,
      g_slot_min_size = 256, g_slot_max_size = 1024, g_trunk_alloc_alignment_size = 256, g_trunk_file_size = 4096,
      g_trunk_create_file_advance = True, g_trunk_create_file_space_threshold = 9000, stat_polls = (\<lambda>_. [])\<rparr>"

definition sample_state :: "(FDFSTrunkSlot list, FDFSTrunksById list) trunk_state" where
  "sample_state =
     \<lparr>g_if_trunker_self = True, trunk_init_flag = STORAGE_TRUNK_INIT_FLAG_DONE,
      tree_info_by_sizes =
        [[\<lparr>slot_size = 256, slot_head = [sample_block 1 1024 256]\<rparr>, \<lparr>slot_size = 512, slot_head = [sample_block 1 0 512]\<rparr>], []],
      tree_info_by_id = sample_index, g_trunk_total_free_space = 768, g_current_trunk_file_id = 1, g_current_time = 0,
      trunk_log = \<lparr>log_file = [], log_cache = [], log_version = 1\<rparr>, store_st = sample_store,
      trunk_files = [trunk_get_full_filename sample_env (sample_block 1 0 512)], ext = []\<rparr>"

lemma sample_env_ok: "env_ok sample_env ident_lt"
proof -
  have "size_avl_ok (list_avl slot_size (<))" by (rule list_avl_ok) simp_all
  then show ?thesis using list_id_avl_ok by (simp add: env_ok_def sample_env_def sample_conf_def)
qed

lemma sample_env_total: "avl_total (size_api sample_env)" "avl_total (id_api sample_env)"
  by (simp_all add: sample_env_def list_avl_total)

lemma sample_free_blocks: "free_blocks sample_env sample_state = {#sample_block 1 0 512, sample_block 1 1024 256#}"
  using sample_index_blocks by (simp add: free_blocks_def sample_env_def sample_state_def)

lemma sample_blk_good:
  assumes "256 \<le> sz" "0 \<le> off"
  shows "blk_good sample_env sample_state (sample_block 1 off sz)"
proof -
  have "trunk_get_full_filename sample_env (sample_block 1 off sz) = trunk_get_full_filename sample_env (sample_block 1 0 512)"
    by (rule full_filename_cong) (simp add: FILL_FILE_IDENTIFIER_def sample_block_def)
  then have "trunk_get_full_filename sample_env (sample_block 1 off sz) \<in> set (trunk_files sample_state)"
    by (simp add: sample_state_def)
  then show ?thesis
    using assms unfolding blk_good_def by (simp add: sample_env_def sample_block_def sample_conf_def)
qed

lemma sample_state_inv: "trunk_inv sample_env sample_state"
proof -
  have good: "\<forall>b \<in># free_blocks sample_env sample_state. blk_good sample_env sample_state b"
    unfolding sample_free_blocks using sample_blk_good by simp
  have trees: "size_trees_ok sample_env sample_state"
    by (auto simp: size_trees_ok_def slots_inv_def sample_env_def sample_state_def sample_block_def nth_Cons' less_Suc_eq)
  have nodes: "size_nodes sample_env sample_state = free_blocks sample_env sample_state"
    unfolding sample_free_blocks by (simp add: size_nodes_def tree_nodes_def sample_env_def sample_state_def)
  have "id_tree_inv (id_api sample_env) (tree_info_by_id sample_state)"
    using sample_index_inv by (simp add: sample_env_def sample_state_def)
  moreover have "length (tree_info_by_sizes sample_state) = length (g_fdfs_store_paths (stores sample_env))"
    by (simp add: sample_env_def sample_state_def sample_conf_def)
  moreover have "g_trunk_total_free_space sample_state = sum_mset (image_mset blk_size (free_blocks sample_env sample_state))"
    unfolding sample_free_blocks by (simp add: sample_state_def sample_block_def)
  ultimately show ?thesis using good trees nodes by (simp add: trunk_inv_def core_inv_def)
qed

section \<open>Allocation\<close>

text \<open>The allocated block lies in the block it was split from, so it meets no other block.\<close>

lemma alloc_blocks_total:
  assumes e: "env_ok e lt" and inv: "trunk_inv e s" and i: "blk_path p < length (g_fdfs_store_paths (stores e))"
    and al: "trunk_alloc_space e sz p s = Some (0, b, s')"
  shows "trunk_inv e s'"
proof -
  let ?k = "trunk_aligned_size e sz" and ?sum = "\<lambda>M. sum_mset (image_mset blk_size M)"
  have c: "core_inv e s" and sum: "g_trunk_total_free_space s = ?sum (free_blocks e s)"
    using inv by (simp_all add: trunk_inv_def)
  from trunk_alloc_space_spec [OF e c i al] obtain x where c': "core_inv e s'" and b: "b = hold (split_head e x ?k)"
    and src: "(free_blocks e s' + {#x#} = add_mset b (split_rest e x ?k + free_blocks e s) \<and>
         g_trunk_total_free_space s' = g_trunk_total_free_space s) \<or>
        (blk_size x = g_trunk_file_size e \<and> free_blocks e s' = add_mset b (split_rest e x ?k + free_blocks e s) \<and>
         g_trunk_total_free_space s' = g_trunk_total_free_space s + g_trunk_file_size e)"
    unfolding new_file_node_def by metis
  have sizes: "blk_size b + ?sum (split_rest e x ?k) = blk_size x" unfolding b by (rule split_sizes)
  from src have "g_trunk_total_free_space s' = ?sum (free_blocks e s')"
  proof (elim disjE conjE)
    assume f: "free_blocks e s' + {#x#} = add_mset b (split_rest e x ?k + free_blocks e s)"
      and g: "g_trunk_total_free_space s' = g_trunk_total_free_space s"
    have "?sum (free_blocks e s' + {#x#}) = ?sum (add_mset b (split_rest e x ?k + free_blocks e s))" by (simp only: f)
    with sizes g sum show ?thesis by simp
  next
    assume f: "free_blocks e s' = add_mset b (split_rest e x ?k + free_blocks e s)"
      and g: "g_trunk_total_free_space s' = g_trunk_total_free_space s + g_trunk_file_size e" "blk_size x = g_trunk_file_size e"
    have "?sum (free_blocks e s') = ?sum (add_mset b (split_rest e x ?k + free_blocks e s))" by (simp only: f)
    with sizes g sum show ?thesis by simp
  qed
  with c' show ?thesis by (simp add: trunk_inv_def)
qed

lemma alloc_block_in:
  assumes e: "env_ok e lt" and c: "core_inv e s" and i: "blk_path p < length (g_fdfs_store_paths (stores e))"
    and al: "trunk_alloc_space e sz p s = Some (0, b, s')"
  shows "b \<in># free_blocks e s'" "trunk_status b = FDFS_TRUNK_STATUS_HOLD" "blk_path b = blk_path p"
proof -
  let ?k = "trunk_aligned_size e sz"
  obtain x where x: "b = hold (split_head e x ?k)" "blk_path x = blk_path p"
    and src: "(x \<in># free_blocks e s \<and> free_blocks e s' + {#x#} = add_mset b (split_rest e x ?k + free_blocks e s)) \<or>
      free_blocks e s' = add_mset b (split_rest e x ?k + free_blocks e s)"
    using trunk_alloc_space_spec [OF assms] unfolding alloc_source_def new_file_node_def by metis
  show "b \<in># free_blocks e s'"
  proof (rule disjE [OF src])
    assume a: "x \<in># free_blocks e s \<and> free_blocks e s' + {#x#} = add_mset b (split_rest e x ?k + free_blocks e s)"
    then obtain M where "free_blocks e s = add_mset x M" using multi_member_split by metis
    with a show ?thesis by simp
  qed simp
  show "trunk_status b = FDFS_TRUNK_STATUS_HOLD" "blk_path b = blk_path p" using x by (simp_all add: split_head_def)
qed

text \<open>A block on hold is neither the source of the allocation nor what it hands out.\<close>

lemma alloc_keeps_held:
  assumes e: "env_ok e lt" and c: "core_inv e s" and i: "blk_path p < length (g_fdfs_store_paths (stores e))"
    and al: "trunk_alloc_space e sz p s = Some (0, b, s')"
    and h: "h \<in># free_blocks e s" "trunk_status h = FDFS_TRUNK_STATUS_HOLD"
  shows "h \<in># free_blocks e s' - {#b#}" "\<not> blk_overlap b h"
proof -
  let ?k = "trunk_aligned_size e sz"
  have k: "g_slot_min_size e \<le> ?k" "0 < g_slot_min_size e" using trunk_aligned_size_bounds [OF e] e by (auto simp: env_ok_def)
  from trunk_alloc_space_spec [OF e c i al] obtain x where b: "b = hold (split_head e x ?k)"
    and src: "(alloc_source e s (blk_path p) ?k x \<and>
         free_blocks e s' + {#x#} = add_mset b (split_rest e x ?k + free_blocks e s)) \<or>
        (new_file_node e s (blk_path p) x \<and> free_blocks e s' = add_mset b (split_rest e x ?k + free_blocks e s))"
    by metis
  have nx: "\<not> blk_overlap x h"
    using src
  proof (elim disjE conjE)
    assume "alloc_source e s (blk_path p) ?k x"
    then have "x \<in># free_blocks e s" "x \<noteq> h" using h(2) by (auto simp: alloc_source_def)
    then show ?thesis by (intro free_blocks_disjoint [OF e c _ h(1)])
  next
    assume "new_file_node e s (blk_path p) x"
    then have "FILL_FILE_IDENTIFIER h \<noteq> FILL_FILE_IDENTIFIER x" using h(1) by (auto simp: new_file_node_def)
    then show ?thesis by (auto simp: blk_overlap_def)
  qed
  then show nb: "\<not> blk_overlap b h" using split_head_overlap [OF k] b by blast
  show "h \<in># free_blocks e s' - {#b#}"
    using src
  proof (elim disjE conjE)
    assume a: "alloc_source e s (blk_path p) ?k x"
      and f: "free_blocks e s' + {#x#} = add_mset b (split_rest e x ?k + free_blocks e s)"
    have xh: "x \<noteq> h" using a h(2) by (auto simp: alloc_source_def)
    have "x \<in># free_blocks e s" using a by (simp add: alloc_source_def)
    then obtain M where M: "free_blocks e s = add_mset x M" using multi_member_split by metis
    then have "free_blocks e s' = add_mset b (split_rest e x ?k + M)" using f by simp
    with M xh h(1) show ?thesis by simp
  next
    assume "free_blocks e s' = add_mset b (split_rest e x ?k + free_blocks e s)"
    with h(1) show ?thesis by simp
  qed
qed

lemma alloc_block_apart:
  assumes e: "env_ok e lt" and c: "core_inv e s'" and b: "b \<in># free_blocks e s'" and y: "y \<in># free_blocks e s' - {#b#}"
  shows "\<not> blk_overlap b y"
proof -
  obtain M where M: "free_blocks e s' = add_mset b M" using multi_member_split [OF b] by blast
  have "b \<noteq> y" using free_blocks_once [OF e c M] y M by auto
  moreover have "y \<in># free_blocks e s'" using y by (rule in_diffD)
  ultimately show ?thesis using free_blocks_disjoint [OF e c b] by blast
qed

text \<open>An allocation returns, with success when no external call fails.\<close>

lemma trunk_create_next_file_returns:
  assumes "0 \<le> g_current_trunk_file_id s" "g_current_trunk_file_id s + int (length (trunk_files s)) + 1 < 2 ^ 32"
  shows "\<exists>r b' s'. trunk_create_next_file e b s = Some (r, b', s')"
proof -
  have "g_current_trunk_file_id s + int (card (ids_above (trunk_files s) (g_current_trunk_file_id s))) + 1 < 2 ^ 32"
    using assms(2) ids_above_card [of "trunk_files s" "g_current_trunk_file_id s"] by linarith
  then obtain r1 b1 full s1 where "create_next_file_loop e b s = Some (r1, b1, full, s1)"
    using create_next_file_loop_total [OF assms(1), of e b] by (metis prod_cases4)
  then show ?thesis by (auto simp: trunk_create_next_file_def split: prod.split)
qed

lemma trunk_create_trunk_file_returns:
  assumes "0 \<le> g_current_trunk_file_id s" "g_current_trunk_file_id s + int (length (trunk_files s)) + 1 < 2 ^ 32"
  shows "\<exists>r nd s'. trunk_create_trunk_file e (int i) err s = Some (r, nd, s')"
proof -
  let ?b = "\<lparr>trunk_status = FDFS_TRUNK_STATUS_FREE,
    trunk_path = \<lparr>store_path_index = to_u8 (int i), sub_path_high = 0, sub_path_low = 0\<rparr>,
    trunk_file = \<lparr>trunk_id = 0, trunk_offset = 0, trunk_size = g_trunk_file_size e\<rparr>\<rparr>"
  obtain r1 s1 where m: "mblock_alloc s = (r1, s1)" by (metis surj_pair)
  then obtain tp where "s1 = s\<lparr>ext := tp\<rparr>" using mblock_alloc_spec [OF m] by metis
  then obtain r2 b' s2 where nx: "trunk_create_next_file e ?b s1 = Some (r2, b', s2)"
    using trunk_create_next_file_returns [of s1 e ?b] assms by auto
  show ?thesis
  proof (cases "r1 = 0 \<and> r2 = 0")
    case True
    obtain r3 s3 where "trunk_mem_binlog_write TRUNK_OP_TYPE_ADD_SPACE b' s2 = (r3, s3)" by (metis surj_pair)
    with True show ?thesis by (simp add: trunk_create_trunk_file_def m nx)
  next
    case False
    then show ?thesis by (auto simp: trunk_create_trunk_file_def m nx)
  qed
qed

lemma alloc_returns:
  assumes e: "env_ok e lt" and c: "core_inv e s" and i: "blk_path p < length (g_fdfs_store_paths (stores e))"
    and ids: "0 \<le> g_current_trunk_file_id s" "g_current_trunk_file_id s + int (length (trunk_files s)) + 1 < 2 ^ 32"
  shows "\<exists>r b s'. trunk_alloc_space e sz p s = Some (r, b, s') \<and>
    (STORAGE_TRUNK_CHECK_STATUS s = 0 \<and> ext_all_ok (ext s) \<and> avl_total (size_api e) \<and> avl_total (id_api e) \<longrightarrow> r = 0)"
proof (cases "STORAGE_TRUNK_CHECK_STATUS s = 0")
  case False
  then show ?thesis by (simp add: trunk_alloc_space_def)
next
  case st: True
  let ?k = "trunk_aligned_size e sz" and ?i = "blk_path p"
  have k: "g_slot_min_size e \<le> ?k" using trunk_aligned_size_bounds [OF e] by simp
  from alloc_search_source [OF e c i, of ?k] show ?thesis
  proof (elim disjE exE conjE)
    assume n: "alloc_search (size_api e) (size_tree s ?i) ?k = Some None"
    obtain r nd s1 where cr: "trunk_create_trunk_file e (int ?i) 0 s = Some (r, nd, s1)"
      using trunk_create_trunk_file_returns [OF ids] by blast
    note C = trunk_create_trunk_file_spec [OF e c i cr]
    show ?thesis
    proof (cases nd)
      case None
      with C n cr st show ?thesis by (simp add: trunk_alloc_space_def Let_def)
    next
      case (Some x)
      have c1: "core_inv e s1" "blk_good e s1 x" using C Some by simp_all
      have "\<forall>y \<in># free_blocks e s1. \<not> blk_overlap x y"
      proof
        fix y assume "y \<in># free_blocks e s1"
        then have "FILL_FILE_IDENTIFIER y \<noteq> FILL_FILE_IDENTIFIER x" using C Some by (auto simp: new_file_node_def)
        then show "\<not> blk_overlap x y" by (auto simp: blk_overlap_def)
      qed
      note F = trunk_alloc_finish_ok [OF e c1 k this, where p = p]
      obtain r2 b2 s2 where f: "trunk_alloc_finish e ?k x p s1 = (r2, b2, s2)" by (metis prod_cases3)
      then have "trunk_alloc_space e sz p s = Some (r2, b2, s2)"
        using n cr st Some by (simp add: trunk_alloc_space_def Let_def)
      moreover have "ext_all_ok (ext s) \<and> avl_total (size_api e) \<and> avl_total (id_api e) \<longrightarrow> r2 = 0" using F C f by simp
      ultimately show ?thesis by blast
    qed
  next
    fix sl pre x post
    assume a: "alloc_search (size_api e) (size_tree s ?i) ?k = Some (Some (sl, pre, x, post))"
      and fs: "avl_find (size_api e) (size_tree s ?i) (slot_size sl) = Some sl" "slot_head sl = pre @ x # post"
      and src: "alloc_source e s ?i ?k x"
    obtain r1 s1 where d: "checker_delete e x (size_tree_unlink e ?i sl pre post s) = (r1, s1)" by (metis surj_pair)
    have it: "?i < length (tree_info_by_sizes s)" using c i by (simp add: core_inv_def)
    note R = remove_node_spec [OF e c it fs d]
    have x: "x \<in># free_blocks e s" using src by (simp add: alloc_source_def)
    have c1: "core_inv e s1" "blk_good e s1 x"
      using R c x blk_good_rest [of s s1] by (auto simp: core_inv_def)
    have "\<forall>y \<in># free_blocks e s1. \<not> blk_overlap x y"
      using alloc_block_apart [OF e c x] R by simp
    note F = trunk_alloc_finish_ok [OF e c1 k this, where p = p]
    obtain r2 b2 s2 where f: "trunk_alloc_finish e ?k x p s1 = (r2, b2, s2)" by (metis prod_cases3)
    then have "trunk_alloc_space e sz p s = Some (r2, b2, s2)"
      using a d st by (simp add: trunk_alloc_space_def Let_def)
    moreover have "ext_all_ok (ext s) \<and> avl_total (size_api e) \<and> avl_total (id_api e) \<longrightarrow> r2 = 0" using F R f by simp
    ultimately show ?thesis by blast
  qed
qed

section \<open>What an allocation promises\<close>

lemma sample_alloc:
  "\<exists>b s'. trunk_alloc_space sample_env sz (sample_block 0 0 0) sample_state = Some (0, b, s')"
  using alloc_returns [OF sample_env_ok _ _ _ _, of sample_state "sample_block 0 0 0" sz] sample_state_inv sample_env_total
  by (simp add: trunk_inv_def)
    (simp add: sample_env_def sample_state_def sample_block_def sample_conf_def STORAGE_TRUNK_CHECK_STATUS_def ext_all_ok_def)

text \<open>
  C1: an allocation that succeeds is safe. It keeps the indexes and the count of the free
  space consistent; the block it hands out is on hold in the requested store path, shares
  no byte with any other block of the index, and every block another client had on hold
  before is still there, untouched.
\<close>

theorem trunk_alloc_space_safe:
  assumes "env_ok e lt" "trunk_inv e s" "blk_path p < length (g_fdfs_store_paths (stores e))"
    and "trunk_alloc_space e sz p s = Some (0, b, s')"
  shows "trunk_inv e s' \<and> b \<in># free_blocks e s' \<and> trunk_status b = FDFS_TRUNK_STATUS_HOLD \<and> blk_path b = blk_path p \<and>
    (\<forall>y \<in># free_blocks e s' - {#b#}. \<not> blk_overlap b y) \<and>
    (\<forall>h \<in># free_blocks e s. trunk_status h = FDFS_TRUNK_STATUS_HOLD \<longrightarrow> h \<in># free_blocks e s' - {#b#})"
proof -
  have c: "core_inv e s" using assms(2) by (simp add: trunk_inv_def)
  note S = trunk_alloc_space_spec [OF assms(1) c assms(3,4)]
  note B = alloc_block_in [OF assms(1) c assms(3,4)]
  have "\<forall>y \<in># free_blocks e s' - {#b#}. \<not> blk_overlap b y" using alloc_block_apart [OF assms(1) _ B(1)] S by blast
  moreover have "h \<in># free_blocks e s' - {#b#}" if "h \<in># free_blocks e s" "trunk_status h = FDFS_TRUNK_STATUS_HOLD" for h
    by (rule alloc_keeps_held(1) [OF assms(1) c assms(3,4) that])
  ultimately show ?thesis using alloc_blocks_total [OF assms] B by blast
qed

theorem trunk_alloc_space_safe_witness:
  "\<exists>b s'. trunk_alloc_space sample_env 300 (sample_block 0 0 0) sample_state = Some (0, b, s') \<and>
     trunk_inv sample_env s' \<and> trunk_status b = FDFS_TRUNK_STATUS_HOLD"
proof -
  obtain b s' where a: "trunk_alloc_space sample_env 300 (sample_block 0 0 0) sample_state = Some (0, b, s')"
    using sample_alloc by blast
  have "blk_path (sample_block 0 0 0) < length (g_fdfs_store_paths (stores sample_env))"
    by (simp add: sample_env_def sample_block_def sample_conf_def)
  with trunk_alloc_space_safe [OF sample_env_ok sample_state_inv _ a] a show ?thesis by blast
qed



text \<open>
  C6: an allocation always returns, although both the search over the slots and the search
  for an unused trunk file name are unbounded loops: the first moves to larger sizes, and
  the second meets each existing file at most once. It succeeds whenever the server is the
  trunk server, has finished its initialisation and no system call or allocation fails.
\<close>

theorem trunk_alloc_space_returns:
  assumes "env_ok e lt" "trunk_inv e s" "blk_path p < length (g_fdfs_store_paths (stores e))"
    and "0 \<le> g_current_trunk_file_id s" "g_current_trunk_file_id s + int (length (trunk_files s)) + 1 < 2 ^ 32"
  shows "\<exists>r b s'. trunk_alloc_space e sz p s = Some (r, b, s') \<and>
    (STORAGE_TRUNK_CHECK_STATUS s = 0 \<and> ext_all_ok (ext s) \<and> avl_total (size_api e) \<and> avl_total (id_api e) \<longrightarrow> r = 0)"
  using alloc_returns [OF assms(1) _ assms(3-5)] assms(2) by (simp add: trunk_inv_def)

theorem trunk_alloc_space_returns_witness:
  "\<exists>r b s'. trunk_alloc_space sample_env 4000 (sample_block 0 0 0) sample_state = Some (r, b, s')"
proof -
  have "blk_path (sample_block 0 0 0) < length (g_fdfs_store_paths (stores sample_env))"
    by (simp add: sample_env_def sample_block_def sample_conf_def)
  with trunk_alloc_space_returns [OF sample_env_ok sample_state_inv, of "sample_block 0 0 0" 4000] show ?thesis
    by (fastforce simp: sample_state_def)
qed

lemma sample_held_at:
  assumes "512 \<le> off \<and> off \<le> 768 \<or> 1280 \<le> off"
  shows "\<exists>s. trunk_inv sample_env s \<and> STORAGE_TRUNK_CHECK_STATUS s = 0 \<and> ext_all_ok (ext s) \<and>
     free_blocks sample_env s = {#hold (sample_block 1 off 256), sample_block 1 0 512, sample_block 1 1024 256#}"
proof -
  let ?h = "hold (sample_block 1 off 256)"
  have c: "core_inv sample_env sample_state" using sample_state_inv by (simp add: trunk_inv_def)
  have g: "blk_good sample_env sample_state ?h"
    using sample_blk_good [of 256 off] assms by (auto simp: blk_good_def trunk_get_full_filename_def trunk_get_full_filename_ex_def)
  have "\<forall>y \<in># free_blocks sample_env sample_state. \<not> blk_overlap ?h y"
    unfolding sample_free_blocks using assms by (auto simp: blk_overlap_def sample_block_def)
  moreover have "ext_all_ok (ext sample_state)" by (simp add: sample_state_def ext_all_ok_def)
  ultimately obtain s where a: "trunk_add_free_block_ex sample_env ?h True sample_state = (0, s)" "ext_all_ok (ext s)"
    using trunk_add_free_block_ok [OF sample_env_ok c g _ _ sample_env_total] by blast
  note A = trunk_add_free_block_spec [OF sample_env_ok c g a(1)]
  have "STORAGE_TRUNK_CHECK_STATUS sample_state = 0" by (simp add: sample_state_def STORAGE_TRUNK_CHECK_STATUS_def)
  then have "STORAGE_TRUNK_CHECK_STATUS s = 0" using A by (auto simp: STORAGE_TRUNK_CHECK_STATUS_def same_rest_def split: if_splits)
  moreover have "trunk_inv sample_env s" using A sample_state_inv by (simp add: trunk_inv_def)
  ultimately show ?thesis using A a(2) sample_free_blocks by auto
qed

lemmas sample_held = sample_held_at [of 2048, simplified]

section \<open>Confirming, giving up and freeing\<close>

lemma delete_block_inv:
  assumes e: "env_ok e lt" and inv: "trunk_inv e s" and b: "b \<in># free_blocks e s"
    and del: "trunk_delete_space_ex e b w s = (r, s')"
  shows "trunk_inv e s'" "free_blocks e s' = free_blocks e s - {#b#}" "ext_all_ok (ext s) \<Longrightarrow> r = 0"
proof -
  have c: "core_inv e s" using inv by (simp add: trunk_inv_def)
  note D = trunk_delete_space_spec [OF e c b del]
  then show "free_blocks e s' = free_blocks e s - {#b#}" "ext_all_ok (ext s) \<Longrightarrow> r = 0" by auto
  have "sum_mset (image_mset blk_size (free_blocks e s)) = blk_size b + sum_mset (image_mset blk_size (free_blocks e s'))"
    using D by simp
  with D inv show "trunk_inv e s'" by (simp add: trunk_inv_def)
qed

lemma restore_block_inv:
  assumes e: "env_ok e lt" and inv: "trunk_inv e s" and b: "b \<in># free_blocks e s"
    and res: "trunk_restore_node e b s = (r, s')"
  shows "r = 0" "trunk_inv e s'"
    "free_blocks e s' = add_mset (b\<lparr>trunk_status := FDFS_TRUNK_STATUS_FREE\<rparr>) (free_blocks e s - {#b#})"
proof -
  have c: "core_inv e s" using inv by (simp add: trunk_inv_def)
  note R = trunk_restore_node_spec [OF e c b res]
  then show "r = 0" by simp
  obtain M where M: "free_blocks e s = add_mset b M" using multi_member_split [OF b] by blast
  then show f: "free_blocks e s' = add_mset (b\<lparr>trunk_status := FDFS_TRUNK_STATUS_FREE\<rparr>) (free_blocks e s - {#b#})"
    using R by simp
  have "sum_mset (image_mset blk_size (free_blocks e s')) = sum_mset (image_mset blk_size (free_blocks e s))"
    unfolding f M by simp
  with R inv show "trunk_inv e s'" by (simp add: trunk_inv_def)
qed

lemma confirm_absent:
  assumes "env_ok e lt" "trunk_inv e s" "b\<lparr>trunk_status := FDFS_TRUNK_STATUS_HOLD\<rparr> \<notin># free_blocks e s"
    and "blk_path b < length (g_fdfs_store_paths (stores e))"
  shows "trunk_alloc_confirm e b st s = (if STORAGE_TRUNK_CHECK_STATUS s = 0 then ENOENT else STORAGE_TRUNK_CHECK_STATUS s, s)"
  using trunk_delete_space_absent [OF assms(1) _ assms(3)] trunk_restore_node_absent [OF assms(1) _ assms(3)] assms(2,4)
  by (simp add: trunk_alloc_confirm_def trunk_inv_def Let_def)

text \<open>
  C8: confirming an allocation. For a block on hold, status \<open>0\<close> and \<open>EEXIST\<close> remove exactly
  this block from the indexes, and any other status makes exactly this block free again, so
  that its bytes can be allocated anew; both keep the invariant. A block that is not on hold
  is refused with \<open>ENOENT\<close> and changes nothing.
\<close>

theorem trunk_alloc_confirm_correct:
  assumes "env_ok e lt" "trunk_inv e s" "STORAGE_TRUNK_CHECK_STATUS s = 0"
    and "blk_path b < length (g_fdfs_store_paths (stores e))" "trunk_alloc_confirm e b st s = (r, s')"
  shows "let h = b\<lparr>trunk_status := FDFS_TRUNK_STATUS_HOLD\<rparr> in
    trunk_inv e s' \<and>
    (if h \<notin># free_blocks e s then r = ENOENT \<and> s' = s
     else if st = 0 \<or> st = EEXIST then free_blocks e s' = free_blocks e s - {#h#} \<and> (ext_all_ok (ext s) \<longrightarrow> r = 0)
     else r = 0 \<and> free_blocks e s' = add_mset (b\<lparr>trunk_status := FDFS_TRUNK_STATUS_FREE\<rparr>) (free_blocks e s - {#h#}))"
proof (cases "b\<lparr>trunk_status := FDFS_TRUNK_STATUS_HOLD\<rparr> \<in># free_blocks e s")
  case False
  with confirm_absent [OF assms(1,2) False assms(4)] assms show ?thesis by simp
next
  case True
  show ?thesis
  proof (cases "st = 0 \<or> st = EEXIST")
    case st: True
    then have "trunk_delete_space_ex e (b\<lparr>trunk_status := FDFS_TRUNK_STATUS_HOLD\<rparr>) True s = (r, s')"
      using assms(3,5) by (auto simp: trunk_alloc_confirm_def)
    from delete_block_inv [OF assms(1,2) True this] True st show ?thesis by (simp add: Let_def)
  next
    case st: False
    then have "trunk_restore_node e (b\<lparr>trunk_status := FDFS_TRUNK_STATUS_HOLD\<rparr>) s = (r, s')"
      using assms(3,5) by (simp add: trunk_alloc_confirm_def)
    from restore_block_inv [OF assms(1,2) True this] True st show ?thesis by (simp add: Let_def)
  qed
qed

theorem trunk_alloc_confirm_correct_witness:
  "\<exists>s s'. hold (sample_block 1 2048 256) \<in># free_blocks sample_env s \<and>
     trunk_alloc_confirm sample_env (sample_block 1 2048 256) 0 s = (0, s') \<and>
     free_blocks sample_env s' = {#sample_block 1 0 512, sample_block 1 1024 256#}"
proof -
  obtain s where s: "trunk_inv sample_env s" "STORAGE_TRUNK_CHECK_STATUS s = 0" "ext_all_ok (ext s)"
      "free_blocks sample_env s = {#hold (sample_block 1 2048 256), sample_block 1 0 512, sample_block 1 1024 256#}"
    using sample_held by blast
  obtain r s' where a: "trunk_alloc_confirm sample_env (sample_block 1 2048 256) 0 s = (r, s')" by (metis surj_pair)
  have "blk_path (sample_block 1 2048 256) < length (g_fdfs_store_paths (stores sample_env))"
    by (simp add: sample_env_def sample_block_def sample_conf_def)
  from trunk_alloc_confirm_correct [OF sample_env_ok s(1,2) this a] s(3,4)
  have "hold (sample_block 1 2048 256) \<in># free_blocks sample_env s" "r = 0"
      "free_blocks sample_env s' = {#sample_block 1 0 512, sample_block 1 1024 256#}" by (simp_all add: Let_def)
  with a show ?thesis by blast
qed



section \<open>Sequences of operations\<close>

text \<open>
  The empty index, and what can happen to it: the operations of the clients (an
  allocation or a release that reports success, a confirmation with whatever result), the
  clock, other writes to the binlog, and other outcomes of the external calls to come.
\<close>

definition trunk_start :: "('t, 'u) trunk_env \<Rightarrow> ('t, 'u) trunk_state \<Rightarrow> bool" where
  "trunk_start e s \<longleftrightarrow>
     tree_info_by_sizes s = replicate (length (g_fdfs_store_paths (stores e))) (avl_init (size_api e)) \<and>
     tree_info_by_id s = avl_init (id_api e) \<and> g_trunk_total_free_space s = 0"

inductive trunk_step :: "('t, 'u) trunk_env \<Rightarrow> ('t, 'u) trunk_state \<Rightarrow> ('t, 'u) trunk_state \<Rightarrow> bool" for e where
  step_alloc: "trunk_alloc_space e sz p s = Some (0, b, s') \<Longrightarrow> blk_path p < length (g_fdfs_store_paths (stores e))
    \<Longrightarrow> trunk_step e s s'"
| step_confirm: "trunk_alloc_confirm e b st s = (r, s') \<Longrightarrow> blk_path b < length (g_fdfs_store_paths (stores e))
    \<Longrightarrow> trunk_step e s s'"
| step_free: "trunk_free_space e b w s = (0, s') \<Longrightarrow>
    (g_slot_min_size e \<le> blk_size b \<Longrightarrow> blk_good e s (b\<lparr>trunk_status := FDFS_TRUNK_STATUS_FREE\<rparr>)) \<Longrightarrow> trunk_step e s s'"
| step_other: "trunk_step e s (s\<lparr>g_current_time := t, trunk_log := lg, ext := tp\<rparr>)"

text \<open>
  The specification: a multiset of blocks, each free or on hold. \<open>cut x b rest\<close> says that
  \<open>b\<close> and at most one more block are what \<open>x\<close> is cut into.
\<close>

definition cut :: "FDFSTrunkFullInfo \<Rightarrow> FDFSTrunkFullInfo \<Rightarrow> FDFSTrunkFullInfo multiset \<Rightarrow> bool" where
  "cut x b rest \<longleftrightarrow>
     FILL_FILE_IDENTIFIER b = FILL_FILE_IDENTIFIER x \<and> blk_off b = blk_off x \<and> 0 < blk_size b \<and>
     (rest = {#} \<and> blk_size b = blk_size x \<or>
      (\<exists>y. rest = {#y#} \<and> trunk_status y = FDFS_TRUNK_STATUS_FREE \<and> FILL_FILE_IDENTIFIER y = FILL_FILE_IDENTIFIER x \<and>
         blk_off y = blk_off b + blk_size b \<and> blk_size y = blk_size x - blk_size b \<and> 0 < blk_size y))"

inductive space_step :: "FDFSTrunkFullInfo multiset \<Rightarrow> FDFSTrunkFullInfo multiset \<Rightarrow> bool" where
  take: "trunk_status x = FDFS_TRUNK_STATUS_FREE \<Longrightarrow> trunk_status b = FDFS_TRUNK_STATUS_HOLD \<Longrightarrow> cut x b rest
    \<Longrightarrow> space_step (add_mset x M) (add_mset b (rest + M))"
| grow: "\<forall>y \<in># M. FILL_FILE_IDENTIFIER y \<noteq> FILL_FILE_IDENTIFIER x \<Longrightarrow> trunk_status b = FDFS_TRUNK_STATUS_HOLD
    \<Longrightarrow> cut x b rest \<Longrightarrow> space_step M (add_mset b (rest + M))"
| confirm: "trunk_status h = FDFS_TRUNK_STATUS_HOLD \<Longrightarrow> space_step (add_mset h M) M"
| give_up: "trunk_status h = FDFS_TRUNK_STATUS_HOLD \<Longrightarrow>
    space_step (add_mset h M) (add_mset (h\<lparr>trunk_status := FDFS_TRUNK_STATUS_FREE\<rparr>) M)"
| release: "trunk_status b = FDFS_TRUNK_STATUS_FREE \<Longrightarrow> \<forall>y \<in># M. \<not> blk_overlap b y \<Longrightarrow> space_step M (add_mset b M)"
| stutter: "space_step M M"

inductive_cases trunk_stepE: "trunk_step e s s'"

lemma cut_split:
  assumes "env_ok e lt" "g_slot_min_size e \<le> k" "g_slot_min_size e \<le> blk_size x"
  shows "cut x (hold (split_head e x k)) (split_rest e x k)"
  using assms by (auto simp: cut_def split_head_def split_rest_def rest_block_def FILL_FILE_IDENTIFIER_def env_ok_def)

lemma trunk_start_inv:
  assumes e: "env_ok e lt" and s: "trunk_start e s"
  shows "trunk_inv e s"
proof -
  have i: "avl_valid (id_api e) (avl_init (id_api e))" "avl_walk (id_api e) (avl_init (id_api e)) = []"
    and z: "avl_valid (size_api e) (avl_init (size_api e))" "avl_walk (size_api e) (avl_init (size_api e)) = []"
    using e unfolding env_ok_def avl_ok_def by blast+
  have f: "free_blocks e s = {#}" using s i by (simp add: free_blocks_def trunk_start_def id_blocks_def)
  moreover have "size_nodes e s = {#}" using s z by (simp add: size_nodes_def trunk_start_def tree_nodes_def)
  moreover have "size_trees_ok e s" using s z by (simp add: size_trees_ok_def trunk_start_def slots_inv_def)
  moreover have "id_tree_inv (id_api e) (tree_info_by_id s)" using s i by (simp add: id_tree_inv_def trunk_start_def)
  ultimately show ?thesis using s by (simp add: trunk_inv_def core_inv_def trunk_start_def)
qed

text \<open>Each operation keeps the invariant and is a step of the specification.\<close>

lemma alloc_step:
  assumes e: "env_ok e lt" and inv: "trunk_inv e s" and i: "blk_path p < length (g_fdfs_store_paths (stores e))"
    and al: "trunk_alloc_space e sz p s = Some (0, b, s')"
  shows "space_step (free_blocks e s) (free_blocks e s')"
proof -
  let ?k = "trunk_aligned_size e sz"
  have c: "core_inv e s" using inv by (simp add: trunk_inv_def)
  have k: "g_slot_min_size e \<le> ?k" by (rule trunk_aligned_size_bounds(1) [OF e])
  from trunk_alloc_space_spec [OF e c i al] obtain x where b: "b = hold (split_head e x ?k)"
    and src: "(alloc_source e s (blk_path p) ?k x \<and>
         free_blocks e s' + {#x#} = add_mset b (split_rest e x ?k + free_blocks e s)) \<or>
        (new_file_node e s (blk_path p) x \<and> free_blocks e s' = add_mset b (split_rest e x ?k + free_blocks e s))"
    by metis
  from src show ?thesis
  proof (elim disjE conjE)
    assume a: "alloc_source e s (blk_path p) ?k x"
      and f: "free_blocks e s' + {#x#} = add_mset b (split_rest e x ?k + free_blocks e s)"
    have "x \<in># free_blocks e s" using a by (simp add: alloc_source_def)
    then obtain M where M: "free_blocks e s = add_mset x M" using multi_member_split by metis
    have "g_slot_min_size e \<le> blk_size x" using a k by (auto simp: alloc_source_def)
    from space_step.take [OF _ _ cut_split [OF e k this], of M] show ?thesis
      using a f M b by (simp add: alloc_source_def)
  next
    assume n: "new_file_node e s (blk_path p) x" and f: "free_blocks e s' = add_mset b (split_rest e x ?k + free_blocks e s)"
    have "g_slot_min_size e \<le> blk_size x" using n e by (simp add: new_file_node_def env_ok_def)
    from space_step.grow [OF _ _ cut_split [OF e k this], of "free_blocks e s"] show ?thesis
      using n f b by (simp add: new_file_node_def)
  qed
qed

lemma confirm_step:
  assumes e: "env_ok e lt" and inv: "trunk_inv e s" and i: "blk_path b < length (g_fdfs_store_paths (stores e))"
    and co: "trunk_alloc_confirm e b st s = (r, s')"
  shows "trunk_inv e s' \<and> space_step (free_blocks e s) (free_blocks e s')"
proof (cases "STORAGE_TRUNK_CHECK_STATUS s = 0 \<and> hold b \<in># free_blocks e s")
  case False
  then have "s' = s" using confirm_absent [OF e inv _ i, of st] co by (auto simp: trunk_alloc_confirm_def)
  with inv show ?thesis by (simp add: space_step.stutter)
next
  case True
  then obtain M where M: "free_blocks e s = add_mset (hold b) M" using multi_member_split by metis
  show ?thesis
  proof (cases "st = 0 \<or> st = EEXIST")
    case st: True
    then have "trunk_delete_space_ex e (hold b) True s = (r, s')" using True co by (auto simp: trunk_alloc_confirm_def)
    from delete_block_inv [OF e inv _ this] True M show ?thesis by (simp add: space_step.confirm)
  next
    case st: False
    then have "trunk_restore_node e (hold b) s = (r, s')" using True co by (simp add: trunk_alloc_confirm_def)
    from restore_block_inv [OF e inv _ this] True M space_step.give_up [of "hold b" M] show ?thesis by simp
  qed
qed

lemma free_step:
  assumes e: "env_ok e lt" and inv: "trunk_inv e s" and fr: "trunk_free_space e b w s = (0, s')"
    and good: "g_slot_min_size e \<le> blk_size b \<Longrightarrow> blk_good e s (b\<lparr>trunk_status := FDFS_TRUNK_STATUS_FREE\<rparr>)"
  shows "trunk_inv e s' \<and> space_step (free_blocks e s) (free_blocks e s')"
proof (cases "blk_size b < g_slot_min_size e")
  case True
  with fr have "s' = s" by (auto simp: trunk_free_space_def split: if_splits)
  with inv show ?thesis by (simp add: space_step.stutter)
next
  case False
  let ?f = "b\<lparr>trunk_status := FDFS_TRUNK_STATUS_FREE\<rparr>"
  obtain r1 s1 where m: "mblock_alloc s = (r1, s1)" by (metis surj_pair)
  then obtain tp where s1: "s1 = s\<lparr>ext := tp\<rparr>" using mblock_alloc_spec [OF m] by metis
  have c1: "core_inv e s1" "free_blocks e s1 = free_blocks e s" "blk_good e s1 ?f"
    using core_inv_same_index [of e s s1] inv s1 good False by (simp_all add: trunk_inv_def blk_good_def)
  have "trunk_add_free_block_ex e ?f w s1 = (0, s')"
    using fr False by (auto simp: trunk_free_space_def free_space_by_trunk_def m Let_def split: prod.splits if_splits)
  note A = trunk_add_free_block_spec [OF e c1(1,3) this]
  then have "space_step (free_blocks e s) (free_blocks e s')" using c1(2) by (simp add: space_step.release)
  moreover have "trunk_inv e s'" using A c1(2) inv s1 by (simp add: trunk_inv_def)
  ultimately show ?thesis by blast
qed

lemma trunk_step_simulates:
  assumes e: "env_ok e lt" and inv: "trunk_inv e s" and st: "trunk_step e s s'"
  shows "trunk_inv e s' \<and> space_step (free_blocks e s) (free_blocks e s')"
  using st
proof cases
  case (step_alloc sz p b)
  then show ?thesis using alloc_blocks_total [OF e inv] alloc_step [OF e inv] by blast
next
  case (step_confirm b st r)
  then show ?thesis using confirm_step [OF e inv] by blast
next
  case (step_free b w)
  then show ?thesis using free_step [OF e inv] by blast
next
  case (step_other t lg tp)
  have "core_inv e s'" "free_blocks e s' = free_blocks e s"
    using core_inv_same_index [of e s s'] inv step_other by (simp_all add: trunk_inv_def)
  with inv step_other show ?thesis by (simp add: trunk_inv_def space_step.stutter)
qed

interpretation trunk_steps: step_system "trunk_start e" "trunk_step e" "\<lambda>s. env_ok e lt \<longrightarrow> trunk_inv e s" for e lt
  by unfold_locales (use trunk_start_inv trunk_step_simulates in blast)+


definition empty_state :: "(FDFSTrunkSlot list, FDFSTrunksById list) trunk_state" where
  "empty_state = sample_state\<lparr>tree_info_by_sizes := [[], []], tree_info_by_id := [], g_trunk_total_free_space := 0\<rparr>"

lemma empty_state_start: "trunk_start sample_env empty_state"
  by (simp add: trunk_start_def empty_state_def sample_env_def sample_conf_def)

lemma empty_state_alloc:
  "\<exists>b t. trunk_alloc_space sample_env 300 (sample_block 0 0 0) empty_state = Some (0, b, t) \<and>
     trunk_step sample_env empty_state t \<and> b \<in># free_blocks sample_env t"
proof -
  have p: "blk_path (sample_block 0 0 0) < length (g_fdfs_store_paths (stores sample_env))"
    by (simp add: sample_env_def sample_block_def sample_conf_def)
  have c: "core_inv sample_env empty_state"
    using trunk_start_inv [OF sample_env_ok empty_state_start] by (simp add: trunk_inv_def)
  from alloc_returns [OF sample_env_ok c p, of 300] sample_env_total
  obtain b t where a: "trunk_alloc_space sample_env 300 (sample_block 0 0 0) empty_state = Some (0, b, t)"
    by (auto simp: empty_state_def sample_state_def STORAGE_TRUNK_CHECK_STATUS_def ext_all_ok_def)
  then show ?thesis using step_alloc [OF a p] alloc_block_in [OF sample_env_ok c p a] by blast
qed




section \<open>Trunk files created in advance\<close>

lemma create_trunk_file_any_path:
  assumes "storage_get_storage_path_index (stores e) (store_st s) = (0, int i, st)" "ext_all_ok (ext s)"
  shows "trunk_create_trunk_file e (-1) err s = trunk_create_trunk_file e (int i) err (s\<lparr>store_st := st\<rparr>)"
proof -
  obtain r tp where x: "ext_call EIO (ext s) = (r, tp)" by (metis surj_pair)
  then have "r = 0" using ext_call_ok [OF assms(2), of EIO] by simp
  have u: "s\<lparr>ext := tp, store_st := st\<rparr> = s\<lparr>store_st := st, ext := tp\<rparr>" by (cases s) simp
  show ?thesis
    using \<open>r = 0\<close> x assms(1) by (simp add: trunk_create_trunk_file_def mblock_alloc_def) (simp only: u)
qed

text \<open>
  C28: a trunk file that is created in advance is counted twice. The binlog record written
  by \<open>trunk_create_trunk_file\<close> already adds the size of the file to
  \<open>g_trunk_total_free_space\<close>, and adding its block to the index without a binlog record
  adds it again: the counter ends above the free space by one file size.
\<close>

theorem trunk_create_advance_counts_twice:
  assumes "env_ok e lt" "trunk_inv e s" "storage_get_storage_path_index (stores e) (store_st s) = (0, int i, st)"
    and "i < length (g_fdfs_store_paths (stores e))" "ext_all_ok (ext s)"
    and "create_advance_loop e (Suc 0) 0 s = Some (0, s')"
  shows "g_trunk_total_free_space s' = sum_mset (image_mset blk_size (free_blocks e s')) + g_trunk_file_size e"
proof -
  let ?s = "s\<lparr>store_st := st\<rparr>"
  have c: "core_inv e ?s" "free_blocks e ?s = free_blocks e s"
    using core_inv_same_index [of e s ?s] assms(2) by (simp_all add: trunk_inv_def)
  obtain r nd s1 where cr: "trunk_create_trunk_file e (int i) 0 ?s = Some (r, nd, s1)"
    using assms(6) create_trunk_file_any_path [OF assms(3,5)] by (auto split: option.splits)
  note C = trunk_create_trunk_file_spec [OF assms(1) c(1) assms(4) cr]
  then obtain x where x: "nd = Some x" using assms(5) by auto
  then have "trunk_add_free_block_ex e x False s1 = (0, s')"
    using assms(6) create_trunk_file_any_path [OF assms(3,5)] cr by (auto split: prod.splits if_splits)
  note A = trunk_add_free_block_spec [OF assms(1) _ _ this]
  have "core_inv e s1" "blk_good e s1 x" using C x by simp_all
  from A [OF this] C x assms(2) c(2) show ?thesis by (simp add: trunk_inv_def new_file_node_def)
qed

theorem trunk_create_advance_counts_twice_witness:
  "\<exists>s'. create_advance_loop sample_env (Suc 0) 0 sample_state = Some (0, s') \<and>
     g_trunk_total_free_space s' = sum_mset (image_mset blk_size (free_blocks sample_env s')) + 4096"
proof -
  let ?e = sample_env and ?s = sample_state
  obtain st where p: "storage_get_storage_path_index (stores ?e) (store_st ?s) = (0, int 1, st)"
    by (simp add: storage_get_storage_path_index_def sample_env_def sample_state_def sample_conf_def sample_store_def Let_def
        path_has_space_def fdfs_check_reserved_space_path_def)
  have i: "1 < length (g_fdfs_store_paths (stores ?e))" by (simp add: sample_env_def sample_conf_def)
  have x: "ext_all_ok (ext ?s)" by (simp add: sample_state_def ext_all_ok_def)
  have c: "core_inv ?e (?s\<lparr>store_st := st\<rparr>)"
    using core_inv_same_index [of ?e ?s "?s\<lparr>store_st := st\<rparr>"] sample_state_inv by (simp add: trunk_inv_def)
  obtain r nd s1 where cr: "trunk_create_trunk_file ?e (int 1) 0 (?s\<lparr>store_st := st\<rparr>) = Some (r, nd, s1)"
    using trunk_create_trunk_file_returns [of "?s\<lparr>store_st := st\<rparr>" ?e 1 0] by (auto simp: sample_state_def)
  note C = trunk_create_trunk_file_spec [OF sample_env_ok c i cr]
  then obtain n where n: "nd = Some n" "r = 0" "ext_all_ok (ext s1)" using x by auto
  have "\<forall>y \<in># free_blocks ?e s1. \<not> blk_overlap n y"
    using C n by (auto simp: new_file_node_def blk_overlap_def)
  then obtain s' where "trunk_add_free_block_ex ?e n False s1 = (0, s')"
    using trunk_add_free_block_ok [OF sample_env_ok _ _ _ n(3) sample_env_total, of n] C n by blast
  then have l: "create_advance_loop ?e (Suc 0) 0 ?s = Some (0, s')"
    using cr n create_trunk_file_any_path [OF p x] by simp
  have "g_trunk_file_size ?e = 4096" by (simp add: sample_env_def)
  with trunk_create_advance_counts_twice [OF sample_env_ok sample_state_inv p i x l] l show ?thesis by simp
qed

end
