(* ===== verification/Trunk_Save.thy ===== *)
theory Trunk_Save
  imports Trunk_Alloc
begin

text \<open>
  Saving the free blocks (\<open>storage/trunk_mgr/trunk_mem.c\<close>, lines 336 to 862): the trunk
  server writes one line for each free block to the file \<open>storage_trunk.dat\<close>, after the
  size of the binlog at that moment; on the way it can merge neighbouring blocks and
  delete trunk files that are free as a whole.

  A \<open>BufferedFileWriter\<close> is the text that was written to it; opening, appending and
  closing take their outcomes from the tape.
\<close>

section \<open>Configuration\<close>

record save_conf =
  g_trunk_free_space_merge :: bool
  g_delete_unused_trunk_files :: bool
  trunk_stat :: "string \<Rightarrow> int + int"

text \<open>
  \<open>trunk_stat\<close> is \<open>stat\<close> of a trunk file: \<open>Inl\<close> the \<open>errno\<close>, \<open>Inr\<close> the size. Calling a
  function for each element of a list, up to the first call that fails:
\<close>

fun walk_loop :: "('d \<Rightarrow> 'a \<Rightarrow> int \<times> 'a) \<Rightarrow> 'd list \<Rightarrow> 'a \<Rightarrow> int \<times> 'a" where
  "walk_loop f [] a = (0, a)"
| "walk_loop f (x # xs) a = (case f x a of (r, a') \<Rightarrow> if r \<noteq> 0 then (r, a') else walk_loop f xs a')"

section \<open>The lines of the data file\<close>

text \<open>\<open>struct walk_callback_args\<close>, with the outcomes of the external calls.\<close>

record walk_args =
  data_writer :: string
  trunk_array :: "FDFSTrunkFullInfo list"
  array_alloc :: nat
  stats_trunk_count :: int
  stats_total_size :: int
  cb_ext :: ext_tape

definition writer_append :: "string \<Rightarrow> walk_args \<Rightarrow> int \<times> walk_args" where
  "writer_append line a =
     (case ext_call EIO (cb_ext a) of
        (r, tp) \<Rightarrow> (r, a\<lparr>data_writer := (if r = 0 then data_writer a @ line else data_writer a), cb_ext := tp\<rparr>))"

definition save_one_trunk :: "int \<Rightarrow> FDFSTrunkFullInfo \<Rightarrow> walk_args \<Rightarrow> int \<times> walk_args" where
  "save_one_trunk current_time pTrunkInfo a =
     writer_append (trunk_binlog_line current_time TRUNK_OP_TYPE_ADD_SPACE pTrunkInfo) a"

definition add_stats :: "FDFSTrunkFullInfo \<Rightarrow> walk_args \<Rightarrow> walk_args" where
  "add_stats b a =
     a\<lparr>stats_trunk_count := stats_trunk_count a + 1, stats_total_size := stats_total_size a + blk_size b\<rparr>"

definition tree_walk_callback_to_file :: "int \<Rightarrow> FDFSTrunkSlot \<Rightarrow> walk_args \<Rightarrow> int \<times> walk_args" where
  "tree_walk_callback_to_file current_time slot a =
     walk_loop (\<lambda>b a. case save_one_trunk current_time b a of
                  (r, a') \<Rightarrow> if r \<noteq> 0 then (r, a') else (0, add_stats b a'))
       (slot_head slot) a"

definition trunk_alloc_trunk_array :: "walk_args \<Rightarrow> int \<times> walk_args" where
  "trunk_alloc_trunk_array a =
     (let alloc = (if array_alloc a = 0 then 65536 else array_alloc a * 2) in
      case ext_call ENOMEM (cb_ext a) of
        (r, tp) \<Rightarrow> if r \<noteq> 0 then (ENOMEM, a\<lparr>cb_ext := tp\<rparr>) else (0, a\<lparr>array_alloc := alloc, cb_ext := tp\<rparr>))"

definition trunk_merge_add_to_array :: "FDFSTrunkFullInfo \<Rightarrow> walk_args \<Rightarrow> int \<times> walk_args" where
  "trunk_merge_add_to_array pTrunkInfo a =
     (case (if length (trunk_array a) \<ge> array_alloc a then trunk_alloc_trunk_array a else (0, a)) of
        (r, a') \<Rightarrow> if r \<noteq> 0 then (r, a') else (0, a'\<lparr>trunk_array := trunk_array a' @ [pTrunkInfo]\<rparr>))"

definition tree_walk_callback_to_list :: "FDFSTrunkSlot \<Rightarrow> walk_args \<Rightarrow> int \<times> walk_args" where
  "tree_walk_callback_to_list slot a =
     walk_loop (\<lambda>b a. case trunk_merge_add_to_array b a of
                  (r, a') \<Rightarrow> if r \<noteq> 0 then (r, a') else (0, add_stats b a'))
       (slot_head slot) a"

section \<open>The order of the blocks\<close>

text \<open>
  \<open>memcmp\<close> of two \<open>FDFSTrunkPathInfo\<close> (three unsigned bytes); ids and offsets are not
  negative, so that their differences do not overflow.
\<close>

definition path_memcmp :: "FDFSTrunkPathInfo \<Rightarrow> FDFSTrunkPathInfo \<Rightarrow> int" where
  "path_memcmp p q =
     (if store_path_index p \<noteq> store_path_index q then int (store_path_index p) - int (store_path_index q)
      else if sub_path_high p \<noteq> sub_path_high q then int (sub_path_high p) - int (sub_path_high q)
      else int (sub_path_low p) - int (sub_path_low q))"

definition trunk_compare_path_and_id :: "FDFSTrunkFullInfo \<Rightarrow> FDFSTrunkFullInfo \<Rightarrow> int" where
  "trunk_compare_path_and_id a b =
     (let result = path_memcmp (trunk_path a) (trunk_path b)
      in if result \<noteq> 0 then result else trunk_id (trunk_file a) - trunk_id (trunk_file b))"

definition trunk_compare_id_offset :: "FDFSTrunkFullInfo \<Rightarrow> FDFSTrunkFullInfo \<Rightarrow> int" where
  "trunk_compare_id_offset a b =
     (let result = path_memcmp (trunk_path a) (trunk_path b)
      in if result \<noteq> 0 then result
         else
           let result = trunk_id (trunk_file a) - trunk_id (trunk_file b)
           in if result \<noteq> 0 then result else blk_off a - blk_off b)"

text \<open>\<open>qsort\<close> with a comparison function.\<close>

fun qsort_insert :: "('a \<Rightarrow> 'a \<Rightarrow> int) \<Rightarrow> 'a \<Rightarrow> 'a list \<Rightarrow> 'a list" where
  "qsort_insert cmp x [] = [x]"
| "qsort_insert cmp x (y # ys) = (if cmp x y \<le> 0 then x # y # ys else y # qsort_insert cmp x ys)"

definition qsort :: "('a \<Rightarrow> 'a \<Rightarrow> int) \<Rightarrow> 'a list \<Rightarrow> 'a list" where
  "qsort cmp xs = foldr (qsort_insert cmp) xs []"

section \<open>Merging neighbours\<close>

record TrunkMergeStat =
  merge_count :: int
  merged_trunk_count :: int
  deleted_file_count :: int
  merged_size :: int
  deleted_file_size :: int

text \<open>
  Merging the run of blocks \<open>first # run\<close>. Whether the trunk file is deleted: it is free as
  a whole and \<open>unlink\<close> succeeds or finds it gone.
\<close>

definition merge_deletes_file ::
    "('t, 'u) trunk_env \<Rightarrow> save_conf \<Rightarrow> FDFSTrunkFullInfo \<Rightarrow> int \<Rightarrow> ext_tape \<Rightarrow> bool \<times> ext_tape" where
  "merge_deletes_file e k first msize tp =
     (if \<not> g_delete_unused_trunk_files k then (False, tp)
      else if \<not> (blk_off first = 0 \<and> msize \<ge> g_trunk_file_size e) then (False, tp)
      else
        (case trunk_stat k (trunk_get_full_filename e first) of
           Inl _ \<Rightarrow> (False, tp)
         | Inr st_sz \<Rightarrow>
             if msize \<noteq> st_sz then (False, tp)
             else
               (case ext_pop tp of
                  (ExtOk, tp') \<Rightarrow> (True, tp')
                | (r, tp') \<Rightarrow> (ext_errno r = ENOENT, tp'))))"

text \<open>The result, \<open>*ppMergeFirst\<close>, the statistics and the state.\<close>

definition trunk_merge_spaces ::
    "('t, 'u) trunk_env \<Rightarrow> save_conf \<Rightarrow> FDFSTrunkFullInfo \<Rightarrow> FDFSTrunkFullInfo list \<Rightarrow> TrunkMergeStat \<Rightarrow> ('t, 'u) trunk_state
     \<Rightarrow> int \<times> FDFSTrunkFullInfo option \<times> TrunkMergeStat \<times> ('t, 'u) trunk_state" where
  "trunk_merge_spaces e k first run ms s =
     (let lst = last (first # run);
          msize = blk_off lst - blk_off first + blk_size lst;
          ms1 = ms\<lparr>merge_count := merge_count ms + 1,
                   merged_trunk_count := merged_trunk_count ms + int (length run) + 1,
                   merged_size := merged_size ms + msize\<rparr>;
          s1 = fold (\<lambda>b s. snd (trunk_delete_space_ex e b False s)) run s
      in case merge_deletes_file e k first msize (ext s1) of
           (deleted, tp) \<Rightarrow>
             let s2 = snd (trunk_delete_space_ex e first False (s1\<lparr>ext := tp\<rparr>)) in
             if deleted then
               (0, None,
                ms1\<lparr>deleted_file_count := deleted_file_count ms1 + 1, deleted_file_size := deleted_file_size ms1 + msize\<rparr>,
                s2\<lparr>trunk_files := removeAll (trunk_get_full_filename e first) (trunk_files s2)\<rparr>)
             else
               (case free_space_by_trunk e (first\<lparr>trunk_file := (trunk_file first)\<lparr>trunk_size := msize\<rparr>\<rparr>) False s2 of
                  (r, node, s3) \<Rightarrow> (r, node, ms1, s3)))"

text \<open>
  The end of a run in the loop of \<open>trunk_save_merged_spaces\<close>: merge it when it has more
  than one block (the result is not looked at), then save what it has become. The writer
  and the state share the outcomes of the external calls.
\<close>

definition save_run ::
    "('t, 'u) trunk_env \<Rightarrow> save_conf \<Rightarrow> FDFSTrunkFullInfo \<Rightarrow> FDFSTrunkFullInfo list
     \<Rightarrow> TrunkMergeStat \<times> walk_args \<times> ('t, 'u) trunk_state \<Rightarrow> int \<times> TrunkMergeStat \<times> walk_args \<times> ('t, 'u) trunk_state" where
  "save_run e k first run = (\<lambda>(ms, a, s).
     (let (node, ms', s') =
        (if run \<noteq> [] then (case trunk_merge_spaces e k first run ms s of (_, node, ms', s') \<Rightarrow> (node, ms', s'))
         else (Some first, ms, s))
      in case node of
           None \<Rightarrow> (0, ms', a, s')
         | Some b \<Rightarrow>
             (case save_one_trunk (g_current_time s') b (a\<lparr>cb_ext := ext s'\<rparr>) of
                (r, a') \<Rightarrow> (r, ms', a', s'\<lparr>ext := cb_ext a'\<rparr>))))"

fun merge_loop ::
    "('t, 'u) trunk_env \<Rightarrow> save_conf \<Rightarrow> FDFSTrunkFullInfo \<Rightarrow> FDFSTrunkFullInfo list \<Rightarrow> FDFSTrunkFullInfo list
     \<Rightarrow> TrunkMergeStat \<times> walk_args \<times> ('t, 'u) trunk_state \<Rightarrow> int \<times> TrunkMergeStat \<times> walk_args \<times> ('t, 'u) trunk_state" where
  "merge_loop e k first run [] st = save_run e k first run st"
| "merge_loop e k first run (x # xs) st =
     (let previous = last (first # run) in
      if trunk_compare_path_and_id previous x = 0 \<and> blk_end previous = blk_off x
      then merge_loop e k first (run @ [x]) xs st
      else (case save_run e k first run st of
              (r, st') \<Rightarrow> if r \<noteq> 0 then (r, st') else merge_loop e k x [] xs st'))"

definition trunk_save_merged_spaces ::
    "('t, 'u) trunk_env \<Rightarrow> save_conf \<Rightarrow> walk_args \<Rightarrow> ('t, 'u) trunk_state \<Rightarrow> int \<times> walk_args \<times> ('t, 'u) trunk_state" where
  "trunk_save_merged_spaces e k a s =
     (case qsort trunk_compare_id_offset (trunk_array a) of
        [] \<Rightarrow> (0, a, s)
      | x # xs \<Rightarrow>
          (case merge_loop e k x [] xs
                  (\<lparr>merge_count = 0, merged_trunk_count = 0, deleted_file_count = 0, merged_size = 0, deleted_file_size = 0\<rparr>,
                   a, s) of
             (r, _, a', s') \<Rightarrow> (r, a', s')))"

section \<open>Saving\<close>

text \<open>
  \<open>storage_trunk_get_binlog_size\<close>: the size (\<open>0\<close> for no file), or \<open>-1\<close> with the
  \<open>errno\<close> of the failed \<open>stat\<close>.
\<close>

definition storage_trunk_get_binlog_size :: "('t, 'u) trunk_state \<Rightarrow> int \<times> int \<times> ('t, 'u) trunk_state" where
  "storage_trunk_get_binlog_size s =
     (case ext_pop (ext s) of
        (ExtOk, tp) \<Rightarrow> (int (length (log_file (trunk_log s))), 0, s\<lparr>ext := tp\<rparr>)
      | (r, tp) \<Rightarrow> (if ext_errno r = ENOENT then 0 else - 1, ext_errno r, s\<lparr>ext := tp\<rparr>))"

text \<open>
  \<open>do_save_trunk_data\<close>: the result, the data file (\<open>None\<close>: there is none) and the state.
  The text goes to a temporary file that replaces the data file at the end. The time stamp
  is the time at the start.
\<close>

definition with_ext :: "walk_args \<Rightarrow> ('t, 'u) trunk_state \<Rightarrow> ('t, 'u) trunk_state" where
  "with_ext a s = s\<lparr>ext := cb_ext a\<rparr>"

definition do_save_trunk_data ::
    "('t, 'u) trunk_env \<Rightarrow> save_conf \<Rightarrow> string option \<Rightarrow> ('t, 'u) trunk_state \<Rightarrow> int \<times> string option \<times> ('t, 'u) trunk_state" where
  "do_save_trunk_data e k data_file s =
     (case ext_call EIO (ext s) of
        (r, tp) \<Rightarrow>
          if r \<noteq> 0 then (r, data_file, s\<lparr>ext := tp\<rparr>)
          else
            (case trunk_binlog_flush (trunk_log s) tp of
               (_, lg, tp1) \<Rightarrow>
                 (case storage_trunk_get_binlog_size (s\<lparr>trunk_log := lg, ext := tp1\<rparr>) of
                    (sz, err, s1) \<Rightarrow>
                      if sz < 0 then (errno_or err EIO, data_file, s1)
                      else
                        (case writer_append (fmt_d sz @ [CHR 0x0A])
                                \<lparr>data_writer = [], trunk_array = [], array_alloc = 0, stats_trunk_count = 0,
                                 stats_total_size = 0, cb_ext = ext s1\<rparr> of
                           (r, a) \<Rightarrow>
                             if r \<noteq> 0 then (case ext_pop (cb_ext a) of (_, tp) \<Rightarrow> (r, data_file, s1\<lparr>ext := tp\<rparr>))
                             else
                               (case walk_loop (\<lambda>t. walk_loop
                                        (if g_trunk_free_space_merge k then tree_walk_callback_to_list
                                         else tree_walk_callback_to_file (g_current_time s1)) (avl_walk (size_api e) t))
                                      (tree_info_by_sizes s1) a of
                                  (r1, a1) \<Rightarrow>
                                    (case (if g_trunk_free_space_merge k \<and> r1 = 0
                                           then trunk_save_merged_spaces e k a1 (with_ext a1 s1) else (r1, a1, with_ext a1 s1)) of
                                       (r2, a2, s2) \<Rightarrow>
                                         (case ext_call EIO (ext s2) of
                                            (close_res, tp3) \<Rightarrow>
                                              if r2 \<noteq> 0 then (r2, data_file, s2\<lparr>ext := tp3\<rparr>)
                                              else if close_res \<noteq> 0 then (close_res, data_file, s2\<lparr>ext := tp3\<rparr>)
                                              else
                                                (case ext_call EIO tp3 of
                                                   (r3, tp4) \<Rightarrow>
                                                     (r3, (if r3 = 0 then Some (data_writer a2) else data_file),
                                                      s2\<lparr>ext := tp4\<rparr>)))))))))"

text \<open>\<open>storage_trunk_do_save\<close>, with the counter \<open>trunk_data_save_in_progress\<close>.\<close>

definition storage_trunk_do_save ::
    "('t, 'u) trunk_env \<Rightarrow> save_conf \<Rightarrow> int \<Rightarrow> string option \<Rightarrow> ('t, 'u) trunk_state
     \<Rightarrow> int \<times> int \<times> string option \<times> ('t, 'u) trunk_state" where
  "storage_trunk_do_save e k in_progress data_file s =
     (if in_progress + 1 \<noteq> 1 then (EINPROGRESS, in_progress, data_file, s)
      else (case do_save_trunk_data e k data_file s of (r, f, s') \<Rightarrow> (r, in_progress, f, s')))"

section \<open>Sorting\<close>

lemma qsort_insert_mset [simp]: "mset (qsort_insert cmp x ys) = add_mset x (mset ys)"
  by (induction ys) auto

lemma qsort_mset [simp]: "mset (qsort cmp xs) = mset xs"
  by (induction xs) (simp_all add: qsort_def)

lemma qsort_sorted:
  assumes tot: "\<And>x y. cmp x y \<le> 0 \<or> cmp y x \<le> 0" and tr: "\<And>x y z. cmp x y \<le> 0 \<Longrightarrow> cmp y z \<le> 0 \<Longrightarrow> cmp x z \<le> 0"
  shows "sorted_wrt (\<lambda>x y. cmp x y \<le> 0) (qsort cmp xs)"
proof -
  have ins: "sorted_wrt (\<lambda>x y. cmp x y \<le> 0) ys \<Longrightarrow> sorted_wrt (\<lambda>x y. cmp x y \<le> 0) (qsort_insert cmp x ys)" for x ys
  proof (induction ys)
    case (Cons y ys)
    have "set (qsort_insert cmp x ys) = insert x (set ys)" by (metis qsort_insert_mset set_mset_add_mset_insert set_mset_mset)
    with Cons show ?case using tot [of x y] tr by (auto intro: tr)
  qed simp
  show ?thesis by (induction xs) (simp_all add: qsort_def ins)
qed

section \<open>Runs of neighbouring blocks\<close>

text \<open>A run: blocks of one trunk file, each beginning where the one before ends.\<close>

fun contig :: "FDFSTrunkFullInfo list \<Rightarrow> bool" where
  "contig (x # y # ys) \<longleftrightarrow> FILL_FILE_IDENTIFIER x = FILL_FILE_IDENTIFIER y \<and> blk_end x = blk_off y \<and> contig (y # ys)"
| "contig _ \<longleftrightarrow> True"

text \<open>The block a run is merged into; a run of one block stays as it is.\<close>

definition merged_block :: "FDFSTrunkFullInfo \<Rightarrow> FDFSTrunkFullInfo list \<Rightarrow> FDFSTrunkFullInfo" where
  "merged_block first run =
     first\<lparr>trunk_status := FDFS_TRUNK_STATUS_FREE,
       trunk_file := (trunk_file first)\<lparr>trunk_size := blk_end (last (first # run)) - blk_off first\<rparr>\<rparr>"

definition run_block :: "FDFSTrunkFullInfo \<Rightarrow> FDFSTrunkFullInfo list \<Rightarrow> FDFSTrunkFullInfo" where
  "run_block first run = (if run = [] then first else merged_block first run)"

lemma contig_snoc:
  "contig (x # xs @ [y]) \<longleftrightarrow> contig (x # xs) \<and> FILL_FILE_IDENTIFIER (last (x # xs)) = FILL_FILE_IDENTIFIER y \<and>
     blk_end (last (x # xs)) = blk_off y"
  by (induction xs arbitrary: x) auto

lemma contig_ident: "contig (x # xs) \<Longrightarrow> b \<in> set (x # xs) \<Longrightarrow> FILL_FILE_IDENTIFIER b = FILL_FILE_IDENTIFIER x"
  by (induction xs arbitrary: x) auto

lemma contig_ends:
  assumes "contig (x # xs)" "\<forall>b \<in> set (x # xs). 0 < blk_size b"
  shows "blk_end x \<le> blk_end (last (x # xs))" "blk_off x < blk_end (last (x # xs))"
proof -
  show "blk_end x \<le> blk_end (last (x # xs))"
    using assms
  proof (induction xs arbitrary: x)
    case (Cons y ys)
    then have "blk_end y \<le> blk_end (last (y # ys))" by simp
    with Cons.prems show ?case by simp
  qed simp
  with assms(2) show "blk_off x < blk_end (last (x # xs))" by force
qed

lemma contig_bytes:
  assumes "contig (x # xs)" "\<forall>b \<in> set (x # xs). 0 < blk_size b"
  shows "{FILL_FILE_IDENTIFIER x} \<times> {blk_off x ..< blk_end (last (x # xs))} = (\<Union>b \<in> set (x # xs). blk_bytes b)"
  using assms
proof (induction xs arbitrary: x)
  case Nil
  then show ?case by (simp add: blk_bytes_def)
next
  case (Cons y ys)
  have h: "FILL_FILE_IDENTIFIER x = FILL_FILE_IDENTIFIER y" "blk_end x = blk_off y" "contig (y # ys)"
    "\<forall>b \<in> set (y # ys). 0 < blk_size b" "0 < blk_size x" using Cons.prems by simp_all
  have IH: "{FILL_FILE_IDENTIFIER y} \<times> {blk_off y ..< blk_end (last (y # ys))} = (\<Union>b \<in> set (y # ys). blk_bytes b)"
    by (rule Cons.IH [OF h(3,4)])
  have le: "blk_off y < blk_end (last (y # ys))" by (rule contig_ends(2) [OF h(3,4)])
  have "{blk_off x ..< blk_end (last (x # y # ys))} = {blk_off x ..< blk_end x} \<union> {blk_off y ..< blk_end (last (y # ys))}"
    using h(2,5) le by (simp add: ivl_disj_un_two(3))
  then have "{FILL_FILE_IDENTIFIER x} \<times> {blk_off x ..< blk_end (last (x # y # ys))} =
      blk_bytes x \<union> {FILL_FILE_IDENTIFIER y} \<times> {blk_off y ..< blk_end (last (y # ys))}"
    by (auto simp: blk_bytes_def h(1))
  then show ?case unfolding IH by simp
qed

lemma run_block_bytes:
  assumes "contig (x # xs)" "\<forall>b \<in> set (x # xs). 0 < blk_size b"
  shows "blk_bytes (run_block x xs) = (\<Union>b \<in> set (x # xs). blk_bytes b)" "0 < blk_size (run_block x xs)"
proof -
  show "blk_bytes (run_block x xs) = (\<Union>b \<in> set (x # xs). blk_bytes b)"
    unfolding contig_bytes [OF assms, symmetric]
    by (simp add: run_block_def merged_block_def blk_bytes_def FILL_FILE_IDENTIFIER_def)
  show "0 < blk_size (run_block x xs)"
    using contig_ends(2) [OF assms] assms(2) by (auto simp: run_block_def merged_block_def)
qed

lemma run_block_apart:
  assumes "contig (x # xs)" "\<forall>b \<in> set (x # xs). 0 < blk_size b" "0 < blk_size y" "\<forall>b \<in> set (x # xs). \<not> blk_overlap b y"
  shows "\<not> blk_overlap (run_block x xs) y"
proof -
  have "blk_bytes b \<inter> blk_bytes y = {}" if "b \<in> set (x # xs)" for b
    using assms(2-4) that blk_overlap_bytes [of b y] by auto
  then have "blk_bytes (run_block x xs) \<inter> blk_bytes y = {}" unfolding run_block_bytes [OF assms(1,2)] by blast
  then show ?thesis using blk_overlap_bytes [of "run_block x xs" y] run_block_bytes [OF assms(1,2)] assms(3) by blast
qed

section \<open>Merging a run\<close>

abbreviation delete_run :: "('t, 'u) trunk_env \<Rightarrow> FDFSTrunkFullInfo list \<Rightarrow> ('t, 'u) trunk_state \<Rightarrow> ('t, 'u) trunk_state" where
  "delete_run e run s \<equiv> fold (\<lambda>b s. snd (trunk_delete_space_ex e b False s)) run s"

lemma delete_quiet:
  assumes e: "env_ok e lt" and inv: "trunk_inv e s" and b: "b \<in># free_blocks e s" and x: "ext_all_ok (ext s)"
  defines "s' \<equiv> snd (trunk_delete_space_ex e b False s)"
  shows "trunk_inv e s'" "free_blocks e s' = free_blocks e s - {#b#}" "same_rest s s'" "ext_all_ok (ext s')"
    "log_text (trunk_log s') = log_text (trunk_log s)"
proof -
  obtain r where d: "trunk_delete_space_ex e b False s = (r, s')" unfolding s'_def by (metis prod.collapse)
  have c: "core_inv e s" using inv by (simp add: trunk_inv_def)
  note D = trunk_delete_space_spec [OF e c b d]
  show "trunk_inv e s'" "free_blocks e s' = free_blocks e s - {#b#}" using delete_block_inv [OF e inv b d] by blast+
  show "same_rest s s'" "ext_all_ok (ext s')" "log_text (trunk_log s') = log_text (trunk_log s)" using D x by simp_all
qed

lemma delete_run_spec:
  assumes e: "env_ok e lt" and "trunk_inv e s" "mset run \<subseteq># free_blocks e s" "ext_all_ok (ext s)"
  shows "trunk_inv e (delete_run e run s) \<and> free_blocks e (delete_run e run s) = free_blocks e s - mset run \<and>
    same_rest s (delete_run e run s) \<and> ext_all_ok (ext (delete_run e run s)) \<and>
    log_text (trunk_log (delete_run e run s)) = log_text (trunk_log s)"
  using assms(2-)
proof (induction run arbitrary: s)
  case (Cons b run)
  have b: "b \<in># free_blocks e s" using Cons.prems(2) by (meson list.set_intros(1) mset_subset_eqD set_mset_mset in_multiset_in_set)
  let ?s = "snd (trunk_delete_space_ex e b False s)"
  note D = delete_quiet [OF e Cons.prems(1) b Cons.prems(3)]
  have "mset run \<subseteq># free_blocks e ?s" using Cons.prems(2) D(2) by (simp add: insert_subset_eq_iff)
  from Cons.IH [OF D(1) this D(4)] D same_rest_trans show ?case by (auto simp: D(2))
qed simp

lemma free_quiet:
  assumes e: "env_ok e lt" and inv: "trunk_inv e s" and good: "blk_good e s (b\<lparr>trunk_status := FDFS_TRUNK_STATUS_FREE\<rparr>)"
    and clear: "\<forall>y \<in># free_blocks e s. \<not> blk_overlap b y"
    and ok: "ext_all_ok (ext s)" "avl_total (size_api e)" "avl_total (id_api e)"
  obtains s' where "free_space_by_trunk e b False s = (0, Some (b\<lparr>trunk_status := FDFS_TRUNK_STATUS_FREE\<rparr>), s')"
    "trunk_inv e s'" "free_blocks e s' = add_mset (b\<lparr>trunk_status := FDFS_TRUNK_STATUS_FREE\<rparr>) (free_blocks e s)"
    "same_rest s s'" "ext_all_ok (ext s')" "log_text (trunk_log s') = log_text (trunk_log s)"
proof -
  let ?f = "b\<lparr>trunk_status := FDFS_TRUNK_STATUS_FREE\<rparr>"
  obtain r1 s1 where m: "mblock_alloc s = (r1, s1)" by (metis surj_pair)
  obtain tp where s1: "s1 = s\<lparr>ext := tp\<rparr>" "r1 = 0" "ext_all_ok tp" using mblock_alloc_spec [OF m] ok(1) by metis
  have c1: "core_inv e s1" "free_blocks e s1 = free_blocks e s" "blk_good e s1 ?f"
    using core_inv_same_index [of e s s1] inv s1 good by (simp_all add: trunk_inv_def blk_good_def)
  have ov: "blk_overlap ?f y = blk_overlap b y" for y by (simp add: blk_overlap_def FILL_FILE_IDENTIFIER_def)
  have "\<forall>y \<in># free_blocks e s1. \<not> blk_overlap ?f y" using clear c1(2) ov by simp
  then obtain s' where a: "trunk_add_free_block_ex e ?f False s1 = (0, s')" "ext_all_ok (ext s')"
    using trunk_add_free_block_ok [OF e c1(1,3) _ _ ok(2,3)] s1 by auto
  note A = trunk_add_free_block_spec [OF e c1(1,3) a(1)]
  show thesis
  proof
    show "free_space_by_trunk e b False s = (0, Some ?f, s')" using m s1 a by (simp add: free_space_by_trunk_def Let_def)
    show "trunk_inv e s'" using A inv s1 c1(2) by (simp add: trunk_inv_def)
    show "free_blocks e s' = add_mset ?f (free_blocks e s)" using A c1(2) by simp
    show "same_rest s s'" using A s1 by (simp add: same_rest_def)
    show "ext_all_ok (ext s')" by (rule a(2))
    show "log_text (trunk_log s') = log_text (trunk_log s)" using A s1 by simp
  qed
qed

lemma trunk_merge_spaces_spec:
  assumes e: "env_ok e lt" and inv: "trunk_inv e s" and sub: "mset (x # xs) \<subseteq># free_blocks e s" and cg: "contig (x # xs)"
    and nd: "\<not> g_delete_unused_trunk_files k" and ok: "ext_all_ok (ext s)" "avl_total (size_api e)" "avl_total (id_api e)"
  obtains ms' s' where "trunk_merge_spaces e k x xs ms s = (0, Some (merged_block x xs), ms', s')"
    "trunk_inv e s'" "free_blocks e s' = add_mset (merged_block x xs) (free_blocks e s - mset (x # xs))"
    "same_rest s s'" "ext_all_ok (ext s')" "log_text (trunk_log s') = log_text (trunk_log s)"
proof -
  have c: "core_inv e s" using inv by (simp add: trunk_inv_def)
  obtain M where M: "free_blocks e s = mset (x # xs) + M" using sub by (metis mset_subset_eq_exists_conv)
  let ?s1 = "delete_run e xs s"
  have "mset xs \<subseteq># free_blocks e s" unfolding M by (metis add_mset_add_single mset.simps(2) mset_subset_eq_add_left union_assoc union_commute)
  note D1 = delete_run_spec [OF e inv this ok(1)]
  have f1: "free_blocks e ?s1 = add_mset x M" using D1 M by simp
  have x1: "x \<in># free_blocks e ?s1" unfolding f1 by simp
  have s1: "?s1\<lparr>ext := ext ?s1\<rparr> = ?s1" by simp
  let ?s2 = "snd (trunk_delete_space_ex e x False ?s1)"
  note D2 = delete_quiet [OF e _ x1, OF conjunct1 [OF D1]]
  have x0: "ext_all_ok (ext ?s1)" using D1 by simp
  have "free_blocks e ?s2 = M" unfolding D2(2) [OF x0] f1 by simp
  moreover have "same_rest s ?s2" using D2(3) [OF x0] D1 same_rest_trans by blast
  ultimately have d2: "trunk_inv e ?s2" "free_blocks e ?s2 = M" "same_rest s ?s2" "ext_all_ok (ext ?s2)"
      "log_text (trunk_log ?s2) = log_text (trunk_log s)"
    using D2 [OF x0] D1 by simp_all
  have pos: "\<forall>b \<in># free_blocks e s. 0 < blk_size b" using c e by (auto simp: core_inv_def blk_good_def env_ok_def)
  have ps: "\<forall>b \<in> set (x # xs). 0 < blk_size b" using pos M by auto
  have clear: "\<forall>y \<in># M. \<not> blk_overlap (run_block x xs) y"
  proof
    fix y assume y: "y \<in># M"
    have "\<not> blk_overlap b y" if b: "b \<in> set (x # xs)" for b
    proof -
      obtain N where N: "mset (x # xs) = add_mset b N" using b by (metis in_multiset_in_set mset_add)
      have fb: "free_blocks e s = add_mset b (N + M)" unfolding M N by simp
      have "b \<noteq> y" using free_blocks_once [OF e c fb] y by auto
      then show ?thesis using free_blocks_disjoint [OF e c] b y M by auto
    qed
    then show "\<not> blk_overlap (run_block x xs) y" using run_block_apart [OF cg ps] pos y M by auto
  qed
  let ?m = "x\<lparr>trunk_file := (trunk_file x)\<lparr>trunk_size := blk_off (last (x # xs)) - blk_off x + blk_size (last (x # xs))\<rparr>\<rparr>"
  have mb: "?m\<lparr>trunk_status := FDFS_TRUNK_STATUS_FREE\<rparr> = merged_block x xs" by (simp add: merged_block_def algebra_simps)
  have bm: "blk_overlap ?m y \<longleftrightarrow> blk_overlap (run_block x xs) y" for y
    by (auto simp: blk_overlap_def run_block_def merged_block_def FILL_FILE_IDENTIFIER_def)
  have gx: "blk_good e s x" using c M by (auto simp: core_inv_def)
  have "g_slot_min_size e \<le> blk_end (last (x # xs)) - blk_off x"
    using contig_ends(1) [OF cg ps] gx by (auto simp: blk_good_def)
  then have "blk_good e s (merged_block x xs)"
    using gx by (simp add: blk_good_def merged_block_def trunk_get_full_filename_def trunk_get_full_filename_ex_def)
  then have good: "blk_good e ?s2 (?m\<lparr>trunk_status := FDFS_TRUNK_STATUS_FREE\<rparr>)" using blk_good_rest [OF d2(3)] by (simp only: mb)
  have cl: "\<forall>y \<in># free_blocks e ?s2. \<not> blk_overlap ?m y" using clear bm d2(2) by simp
  obtain s' where F: "free_space_by_trunk e ?m False ?s2 = (0, Some (?m\<lparr>trunk_status := FDFS_TRUNK_STATUS_FREE\<rparr>), s')"
    "trunk_inv e s'" "free_blocks e s' = add_mset (?m\<lparr>trunk_status := FDFS_TRUNK_STATUS_FREE\<rparr>) (free_blocks e ?s2)"
    "same_rest ?s2 s'" "ext_all_ok (ext s')" "log_text (trunk_log s') = log_text (trunk_log ?s2)"
    by (rule free_quiet [OF e d2(1) good cl d2(4) ok(2,3)])
  have "\<exists>ms'. trunk_merge_spaces e k x xs ms s = (0, Some (merged_block x xs), ms', s')"
    using F(1) [unfolded mb] nd
    by (simp add: trunk_merge_spaces_def merge_deletes_file_def Let_def s1 del: fold_simps last.simps)
  moreover have "same_rest s s'" by (rule same_rest_trans [OF d2(3) F(4)])
  moreover have "free_blocks e s' = add_mset (merged_block x xs) (free_blocks e s - mset (x # xs))"
    unfolding F(3) mb d2(2) M by simp
  ultimately show thesis using that F(2,5,6) d2(5) by auto
qed

section \<open>The merging loop\<close>

text \<open>The blocks the loop saves, run by run.\<close>

fun merged_blocks :: "FDFSTrunkFullInfo \<Rightarrow> FDFSTrunkFullInfo list \<Rightarrow> FDFSTrunkFullInfo list \<Rightarrow> FDFSTrunkFullInfo list" where
  "merged_blocks first run [] = [run_block first run]"
| "merged_blocks first run (x # xs) =
     (if trunk_compare_path_and_id (last (first # run)) x = 0 \<and> blk_end (last (first # run)) = blk_off x
      then merged_blocks first (run @ [x]) xs
      else run_block first run # merged_blocks x [] xs)"

lemma path_memcmp_0 [simp]: "path_memcmp p q = 0 \<longleftrightarrow> p = q"
proof
  assume "path_memcmp p q = 0"
  then have "store_path_index p = store_path_index q" "sub_path_high p = sub_path_high q" "sub_path_low p = sub_path_low q"
    by (simp_all add: path_memcmp_def split: if_splits)
  then show "p = q" by simp
qed (simp add: path_memcmp_def)

lemma compare_path_and_id_0: "trunk_compare_path_and_id a b = 0 \<longleftrightarrow> FILL_FILE_IDENTIFIER a = FILL_FILE_IDENTIFIER b"
  by (auto simp: trunk_compare_path_and_id_def FILL_FILE_IDENTIFIER_def Let_def)

lemma writer_append_ok:
  assumes "ext_all_ok (cb_ext a)"
  obtains tp where "writer_append line a = (0, a\<lparr>data_writer := data_writer a @ line, cb_ext := tp\<rparr>)" "ext_all_ok tp"
  using ext_call_ok [OF assms, of EIO] by (auto simp: writer_append_def)

lemma save_run_spec:
  assumes e: "env_ok e lt" and inv: "trunk_inv e s" and sub: "mset (x # xs) \<subseteq># free_blocks e s" and cg: "contig (x # xs)"
    and nd: "\<not> g_delete_unused_trunk_files k" and ok: "ext_all_ok (ext s)" "avl_total (size_api e)" "avl_total (id_api e)"
  obtains ms' a' s' where "save_run e k x xs (ms, a, s) = (0, ms', a', s')"
    "data_writer a' = data_writer a @ trunk_binlog_line (g_current_time s) TRUNK_OP_TYPE_ADD_SPACE (run_block x xs)"
    "trunk_inv e s'" "free_blocks e s' = add_mset (run_block x xs) (free_blocks e s - mset (x # xs))"
    "same_rest s s'" "ext_all_ok (ext s')" "log_text (trunk_log s') = log_text (trunk_log s)"
proof -
  obtain ms' s' where m: "(if xs \<noteq> [] then (case trunk_merge_spaces e k x xs ms s of (_, node, ms', s') \<Rightarrow> (node, ms', s'))
         else (Some x, ms, s)) = (Some (run_block x xs), ms', s')"
    "trunk_inv e s'" "free_blocks e s' = add_mset (run_block x xs) (free_blocks e s - mset (x # xs))"
    "same_rest s s'" "ext_all_ok (ext s')" "log_text (trunk_log s') = log_text (trunk_log s)"
  proof (cases "xs = []")
    case True
    with sub have "free_blocks e s = add_mset x (free_blocks e s - mset [x])" by simp
    with True inv ok that show thesis by (simp add: run_block_def)
  next
    case False
    show thesis
      by (rule trunk_merge_spaces_spec [OF e inv sub cg nd ok, of ms]) (use False that in \<open>simp add: run_block_def\<close>)
  qed
  obtain tp where w: "save_one_trunk (g_current_time s') (run_block x xs) (a\<lparr>cb_ext := ext s'\<rparr>) =
      (0, a\<lparr>data_writer := data_writer a @ trunk_binlog_line (g_current_time s') TRUNK_OP_TYPE_ADD_SPACE (run_block x xs), cb_ext := tp\<rparr>)"
      "ext_all_ok tp"
    using writer_append_ok [of "a\<lparr>cb_ext := ext s'\<rparr>" "trunk_binlog_line (g_current_time s') TRUNK_OP_TYPE_ADD_SPACE (run_block x xs)"] m(5)
    by (auto simp: save_one_trunk_def)
  let ?s = "s'\<lparr>ext := tp\<rparr>"
  have t: "trunk_inv e ?s" "free_blocks e ?s = free_blocks e s'"
    using core_inv_same_index [of e s' ?s] m(2) by (simp_all add: trunk_inv_def)
  show thesis
  proof (rule that)
    show "save_run e k x xs (ms, a, s) = (0, ms',
        a\<lparr>data_writer := data_writer a @ trunk_binlog_line (g_current_time s') TRUNK_OP_TYPE_ADD_SPACE (run_block x xs), cb_ext := tp\<rparr>, ?s)"
      unfolding save_run_def prod.case Let_def m(1) option.case w(1) by simp
  qed (use m w t in \<open>simp_all add: same_rest_def\<close>)
qed

lemma merge_loop_spec:
  assumes e: "env_ok e lt" and nd: "\<not> g_delete_unused_trunk_files k" and tot: "avl_total (size_api e)" "avl_total (id_api e)"
    and "trunk_inv e s" "mset (x # run) + mset xs \<subseteq># free_blocks e s" "contig (x # run)" "ext_all_ok (ext s)"
  shows "\<exists>ms' a' s'. merge_loop e k x run xs (ms, a, s) = (0, ms', a', s') \<and>
    data_writer a' = data_writer a @
      concat (map (trunk_binlog_line (g_current_time s) TRUNK_OP_TYPE_ADD_SPACE) (merged_blocks x run xs)) \<and>
    trunk_inv e s' \<and> free_blocks e s' = mset (merged_blocks x run xs) + (free_blocks e s - (mset (x # run) + mset xs)) \<and>
    same_rest s s' \<and> ext_all_ok (ext s') \<and> log_text (trunk_log s') = log_text (trunk_log s)"
  using assms(5-)
proof (induction xs arbitrary: x run ms a s)
  case Nil
  have "mset (x # run) \<subseteq># free_blocks e s" using Nil.prems(2) by simp
  from save_run_spec [OF e Nil.prems(1) this Nil.prems(3) nd Nil.prems(4) tot, of ms a] show ?case by fastforce
next
  case (Cons y xs)
  show ?case
  proof (cases "trunk_compare_path_and_id (last (x # run)) y = 0 \<and> blk_end (last (x # run)) = blk_off y")
    case True
    have sub: "mset (x # run @ [y]) + mset xs \<subseteq># free_blocks e s" using Cons.prems(2) by (simp add: add_mset_commute)
    have cg: "contig (x # run @ [y])" using True Cons.prems(3) contig_snoc [of x run y] compare_path_and_id_0 by blast
    from Cons.IH [OF Cons.prems(1) sub cg Cons.prems(4), of ms a] True show ?thesis
      by (simp add: add_mset_commute del: last.simps)
  next
    case False
    obtain M where M: "free_blocks e s = mset (x # run) + mset (y # xs) + M" using Cons.prems(2) by (metis mset_subset_eq_exists_conv)
    have "mset (x # run) \<subseteq># free_blocks e s" unfolding M by (simp only: mset_subset_eq_add_left union_assoc)
    then obtain ms1 a1 s1 where S: "save_run e k x run (ms, a, s) = (0, ms1, a1, s1)"
      "data_writer a1 = data_writer a @ trunk_binlog_line (g_current_time s) TRUNK_OP_TYPE_ADD_SPACE (run_block x run)"
      "trunk_inv e s1" "free_blocks e s1 = add_mset (run_block x run) (free_blocks e s - mset (x # run))"
      "same_rest s s1" "ext_all_ok (ext s1)" "log_text (trunk_log s1) = log_text (trunk_log s)"
      using save_run_spec [OF e Cons.prems(1) _ Cons.prems(3) nd Cons.prems(4) tot, of ms a] by blast
    have f1: "free_blocks e s1 = add_mset (run_block x run) (mset (y # xs) + M)" unfolding S(4) M by simp
    have "mset [y] + mset xs \<subseteq># free_blocks e s1" unfolding f1 by (simp add: subset_mset.add_increasing2 add_mset_commute)
    from Cons.IH [OF S(3) this _ S(6), of ms1 a1]
    obtain ms2 a2 s2 where L: "merge_loop e k y [] xs (ms1, a1, s1) = (0, ms2, a2, s2)"
      "data_writer a2 = data_writer a1 @ concat (map (trunk_binlog_line (g_current_time s1) TRUNK_OP_TYPE_ADD_SPACE) (merged_blocks y [] xs))"
      "trunk_inv e s2" "free_blocks e s2 = mset (merged_blocks y [] xs) + (free_blocks e s1 - (mset [y] + mset xs))"
      "same_rest s1 s2" "ext_all_ok (ext s2)" "log_text (trunk_log s2) = log_text (trunk_log s1)" by auto
    have "merge_loop e k x run (y # xs) (ms, a, s) = (0, ms2, a2, s2)" 
      unfolding merge_loop.simps Let_def if_not_P [OF False] S(1) prod.case using L(1) by simp
    moreover have "g_current_time s1 = g_current_time s" using S(5) by (simp add: same_rest_def)
    moreover have mb: "merged_blocks x run (y # xs) = run_block x run # merged_blocks y [] xs"
      unfolding merged_blocks.simps if_not_P [OF False] by (rule refl)
    moreover have "free_blocks e s2 = mset (merged_blocks x run (y # xs)) + M" unfolding L(4) f1 mb by simp
    moreover have "free_blocks e s - (mset (x # run) + mset (y # xs)) = M" unfolding M by simp
    moreover have "same_rest s s2" by (rule same_rest_trans [OF S(5) L(5)])
    ultimately show ?thesis using S(2,7) L(2,3,6,7) by (auto simp del: merged_blocks.simps merge_loop.simps)
  qed
qed

lemma merged_blocks_bytes:
  assumes "contig (x # run)" "\<forall>b \<in> set (x # run @ xs). 0 < blk_size b"
  shows "(\<Union>b \<in> set (merged_blocks x run xs). blk_bytes b) = (\<Union>b \<in> set (x # run @ xs). blk_bytes b)"
  using assms
proof (induction xs arbitrary: x run)
  case Nil
  then show ?case using run_block_bytes [of x run] by simp
next
  case (Cons y xs)
  show ?case
  proof (cases "trunk_compare_path_and_id (last (x # run)) y = 0 \<and> blk_end (last (x # run)) = blk_off y")
    case True
    then have "contig (x # run @ [y])" using Cons.prems(1) contig_snoc [of x run y] compare_path_and_id_0 by blast
    from Cons.IH [OF this] Cons.prems(2)
    have "(\<Union>b \<in> set (merged_blocks x (run @ [y]) xs). blk_bytes b) = (\<Union>b \<in> set (x # run @ y # xs). blk_bytes b)" by simp
    then show ?thesis unfolding merged_blocks.simps if_P [OF True] .
  next
    case False
    have "(\<Union>b \<in> set (merged_blocks y [] xs). blk_bytes b) = (\<Union>b \<in> set (y # xs). blk_bytes b)"
      using Cons.IH [of y "[]"] Cons.prems(2) by simp
    moreover have "blk_bytes (run_block x run) = (\<Union>b \<in> set (x # run). blk_bytes b)"
      by (rule run_block_bytes(1) [OF Cons.prems(1)]) (use Cons.prems(2) in simp)
    moreover have mb: "merged_blocks x run (y # xs) = run_block x run # merged_blocks y [] xs"
      unfolding merged_blocks.simps if_not_P [OF False] by (rule refl)
    ultimately show ?thesis by auto
  qed
qed

section \<open>Merging is complete\<close>

text \<open>
  The order of the files, and of the blocks: one block before another one, and with a gap
  between the two when they are of the same file.
\<close>

definition blk_before :: "FDFSTrunkFullInfo \<Rightarrow> FDFSTrunkFullInfo \<Rightarrow> bool" where
  "blk_before x y \<longleftrightarrow>
     trunk_compare_path_and_id x y < 0 \<or> FILL_FILE_IDENTIFIER x = FILL_FILE_IDENTIFIER y \<and> blk_end x \<le> blk_off y"

definition blk_gap :: "FDFSTrunkFullInfo \<Rightarrow> FDFSTrunkFullInfo \<Rightarrow> bool" where
  "blk_gap x y \<longleftrightarrow>
     trunk_compare_path_and_id x y < 0 \<or> FILL_FILE_IDENTIFIER x = FILL_FILE_IDENTIFIER y \<and> blk_end x < blk_off y"

lemma compare_path_and_id_ident:
  assumes "FILL_FILE_IDENTIFIER x = FILL_FILE_IDENTIFIER x'" "FILL_FILE_IDENTIFIER y = FILL_FILE_IDENTIFIER y'"
  shows "trunk_compare_path_and_id x y = trunk_compare_path_and_id x' y'"
  using assms by (simp add: trunk_compare_path_and_id_def FILL_FILE_IDENTIFIER_def)

lemma path_memcmp_refl [simp]: "path_memcmp p p = 0"
  by simp

lemma path_memcmp_trans: "path_memcmp p q < 0 \<Longrightarrow> path_memcmp q r < 0 \<Longrightarrow> path_memcmp p r < 0"
  by (auto simp: path_memcmp_def split: if_splits)

lemma path_memcmp_sym: "path_memcmp q p = - path_memcmp p q"
  by (auto simp: path_memcmp_def)

lemma compare_path_and_id_trans:
  assumes "trunk_compare_path_and_id x y < 0" "trunk_compare_path_and_id y z < 0"
  shows "trunk_compare_path_and_id x z < 0"
  using assms path_memcmp_trans [of "trunk_path x" "trunk_path y" "trunk_path z"]
  by (cases "path_memcmp (trunk_path x) (trunk_path y) = 0"; cases "path_memcmp (trunk_path y) (trunk_path z) = 0")
    (auto simp: trunk_compare_path_and_id_def Let_def split: if_splits)

lemma blk_gap_trans:
  assumes "blk_gap x y" "blk_gap y z" "0 < blk_size y"
  shows "blk_gap x z"
  using assms compare_path_and_id_trans [of x y z] compare_path_and_id_ident [of x y z z] compare_path_and_id_ident [of x x y z]
  by (auto simp: blk_gap_def)

lemma compare_id_offset_cases:
  "trunk_compare_id_offset x y =
     (if FILL_FILE_IDENTIFIER x = FILL_FILE_IDENTIFIER y then blk_off x - blk_off y else trunk_compare_path_and_id x y)"
  by (auto simp: trunk_compare_id_offset_def trunk_compare_path_and_id_def FILL_FILE_IDENTIFIER_def Let_def)

lemma compare_path_and_id_sym: "trunk_compare_path_and_id y x = - trunk_compare_path_and_id x y"
  using path_memcmp_sym [of "trunk_path x" "trunk_path y"] by (auto simp: trunk_compare_path_and_id_def Let_def)

lemma compare_path_and_id_less: "trunk_compare_path_and_id x y < 0 \<Longrightarrow> FILL_FILE_IDENTIFIER x \<noteq> FILL_FILE_IDENTIFIER y"
  using compare_path_and_id_0 [of x y] by auto

lemma id_offset_sorted: "sorted_wrt (\<lambda>x y. trunk_compare_id_offset x y \<le> 0) (qsort trunk_compare_id_offset xs)"
proof (rule qsort_sorted)
  show "trunk_compare_id_offset x y \<le> 0 \<or> trunk_compare_id_offset y x \<le> 0" for x y
    using compare_path_and_id_sym [of x y] by (auto simp: compare_id_offset_cases)
  show "trunk_compare_id_offset x z \<le> 0" if "trunk_compare_id_offset x y \<le> 0" "trunk_compare_id_offset y z \<le> 0" for x y z
    using that compare_path_and_id_trans [of x y z] compare_path_and_id_0 [of x y] compare_path_and_id_0 [of y z]
      compare_path_and_id_less [of x z] compare_path_and_id_ident [of x y z z] compare_path_and_id_ident [of x x y z]
    by (auto simp: compare_id_offset_cases order_le_less split: if_splits)
qed

lemma sorted_blk_before:
  assumes "sorted_wrt (\<lambda>x y. trunk_compare_id_offset x y \<le> 0) xs" "distinct xs" "\<forall>b \<in> set xs. 0 < blk_size b"
    and "\<forall>x \<in> set xs. \<forall>y \<in> set xs. x \<noteq> y \<longrightarrow> \<not> blk_overlap x y"
  shows "sorted_wrt blk_before xs"
  using assms
proof (induction xs)
  case (Cons x xs)
  have "blk_before x y" if y: "y \<in> set xs" for y
  proof (cases "FILL_FILE_IDENTIFIER x = FILL_FILE_IDENTIFIER y")
    case True
    have "x \<noteq> y" "0 < blk_size x" "0 < blk_size y" "\<not> blk_overlap x y" using Cons.prems y by auto
    moreover have "blk_off x \<le> blk_off y" using Cons.prems(1) y True by (auto simp: compare_id_offset_cases)
    ultimately show ?thesis using True by (auto simp: blk_before_def blk_overlap_def)
  next
    case False
    then have "trunk_compare_path_and_id x y \<le> 0" using Cons.prems(1) y by (force simp: compare_id_offset_cases)
    with False show ?thesis using compare_path_and_id_0 [of x y] by (auto simp: blk_before_def)
  qed
  with Cons show ?case by simp
qed simp

lemma run_block_ends:
  "contig (x # run) \<Longrightarrow> FILL_FILE_IDENTIFIER (run_block x run) = FILL_FILE_IDENTIFIER (last (x # run))"
  "FILL_FILE_IDENTIFIER (run_block x run) = FILL_FILE_IDENTIFIER x" "blk_off (run_block x run) = blk_off x"
  "blk_end (run_block x run) = blk_end (last (x # run))"
proof -
  show "FILL_FILE_IDENTIFIER (run_block x run) = FILL_FILE_IDENTIFIER x" "blk_off (run_block x run) = blk_off x"
    "blk_end (run_block x run) = blk_end (last (x # run))"
    by (simp_all add: run_block_def merged_block_def FILL_FILE_IDENTIFIER_def)
  then show "contig (x # run) \<Longrightarrow> FILL_FILE_IDENTIFIER (run_block x run) = FILL_FILE_IDENTIFIER (last (x # run))"
    using contig_ident [of x run "last (x # run)"] by simp
qed

lemma blk_gap_cong:
  assumes "FILL_FILE_IDENTIFIER x = FILL_FILE_IDENTIFIER x'" "FILL_FILE_IDENTIFIER y = FILL_FILE_IDENTIFIER y'"
    "blk_end x = blk_end x'" "blk_off y = blk_off y'"
  shows "blk_gap x y = blk_gap x' y'"
  using assms compare_path_and_id_ident [OF assms(1,2)] by (simp add: blk_gap_def)

lemma merged_blocks_gaps:
  assumes "contig (x # run)" "sorted_wrt blk_before (last (x # run) # xs)" "\<forall>b \<in> set (x # run @ xs). 0 < blk_size b"
  shows "sorted_wrt blk_gap (merged_blocks x run xs) \<and> (\<forall>z. blk_gap z x \<longrightarrow> (\<forall>b \<in> set (merged_blocks x run xs). blk_gap z b))"
  using assms
proof (induction xs arbitrary: x run)
  case Nil
  have "blk_gap z (run_block x run) = blk_gap z x" for z by (rule blk_gap_cong) (simp_all add: run_block_ends(2,3))
  then show ?case by simp
next
  case (Cons y xs)
  have b: "blk_before (last (x # run)) y" "sorted_wrt blk_before (last (x # run) # xs)" "sorted_wrt blk_before (y # xs)"
    using Cons.prems(2) by simp_all
  show ?case
  proof (cases "trunk_compare_path_and_id (last (x # run)) y = 0 \<and> blk_end (last (x # run)) = blk_off y")
    case True
    then have "contig (x # run @ [y])" using Cons.prems(1) contig_snoc [of x run y] compare_path_and_id_0 by blast
    moreover have "sorted_wrt blk_before (last (x # run @ [y]) # xs)" using b(3) by simp
    ultimately show ?thesis using Cons.IH [of x "run @ [y]"] Cons.prems(3) unfolding merged_blocks.simps if_P [OF True] by simp
  next
    case False
    have mb: "merged_blocks x run (y # xs) = run_block x run # merged_blocks y [] xs"
      unfolding merged_blocks.simps if_not_P [OF False] by (rule refl)
    have IH: "sorted_wrt blk_gap (merged_blocks y [] xs)" "\<And>z b. blk_gap z y \<Longrightarrow> b \<in> set (merged_blocks y [] xs) \<Longrightarrow> blk_gap z b"
      using Cons.IH [of y "[]"] b(3) Cons.prems(3) by auto
    have "blk_gap (last (x # run)) y" using b(1) False compare_path_and_id_0 unfolding blk_gap_def blk_before_def by force
    then have g: "blk_gap (run_block x run) y" using blk_gap_cong [OF run_block_ends(1) [OF Cons.prems(1)] refl run_block_ends(4) refl] by simp
    have pos: "0 < blk_size (run_block x run)" by (rule run_block_bytes(2) [OF Cons.prems(1)]) (use Cons.prems(3) in simp)
    have z: "blk_gap z (run_block x run) = blk_gap z x" for z by (rule blk_gap_cong) (simp_all add: run_block_ends(2,3))
    have "\<forall>b \<in> set (merged_blocks y [] xs). blk_gap (run_block x run) b" using IH(2) [OF g] by blast
    moreover from this have "\<forall>b \<in> set (merged_blocks y [] xs). blk_gap v b" if "blk_gap v x" for v
      using that blk_gap_trans [OF _ _ pos, of v] z [of v] by blast
    ultimately show ?thesis unfolding mb using IH(1) z by simp
  qed
qed

lemma merged_blocks_free:
  "b \<in> set (merged_blocks x run xs) \<Longrightarrow> b \<in> set (x # run @ xs) \<or> trunk_status b = FDFS_TRUNK_STATUS_FREE"
proof (induction x run xs rule: merged_blocks.induct)
  case (1 x run)
  then show ?case by (auto simp: run_block_def merged_block_def)
next
  case (2 x run y xs)
  then show ?case by (cases "b = run_block x run") (auto simp: run_block_def merged_block_def split: if_splits)
qed

section \<open>Collecting the blocks\<close>

lemma walk_loop_collect:
  assumes step: "\<And>x a. P a \<Longrightarrow> \<exists>a'. f x a = (0, a') \<and> P a' \<and> g a' = g a @ h x" and "P a"
  shows "\<exists>a'. walk_loop f xs a = (0, a') \<and> P a' \<and> g a' = g a @ concat (map h xs)"
  using assms(2)
proof (induction xs arbitrary: a)
  case (Cons x xs)
  obtain a1 where a1: "f x a = (0, a1)" "P a1" "g a1 = g a @ h x" using step [OF Cons.prems] by blast
  from Cons.IH [OF a1(2)] a1 show ?case by auto
qed simp

lemma to_list_collects:
  assumes "ext_all_ok (cb_ext a) \<and> data_writer a = w"
  shows "\<exists>a'. tree_walk_callback_to_list slot a = (0, a') \<and> (ext_all_ok (cb_ext a') \<and> data_writer a' = w) \<and>
    trunk_array a' = trunk_array a @ slot_head slot"
proof -
  have step: "\<exists>a'. (case trunk_merge_add_to_array b a of (r, a') \<Rightarrow> if r \<noteq> 0 then (r, a') else (0, add_stats b a')) = (0, a') \<and>
      (ext_all_ok (cb_ext a') \<and> data_writer a' = w) \<and> trunk_array a' = trunk_array a @ [b]"
    if "ext_all_ok (cb_ext a) \<and> data_writer a = w" for b a
    using that ext_call_ok [of "cb_ext a" ENOMEM]
    by (auto simp: trunk_merge_add_to_array_def trunk_alloc_trunk_array_def add_stats_def Let_def)
  from walk_loop_collect [of "\<lambda>a. ext_all_ok (cb_ext a) \<and> data_writer a = w", OF step assms, of "\<lambda>x. x" "slot_head slot"]
  show ?thesis by (simp add: tree_walk_callback_to_list_def)
qed

lemma to_file_collects:
  assumes "ext_all_ok (cb_ext a)"
  shows "\<exists>a'. tree_walk_callback_to_file t slot a = (0, a') \<and> ext_all_ok (cb_ext a') \<and>
    data_writer a' = data_writer a @ concat (map (trunk_binlog_line t TRUNK_OP_TYPE_ADD_SPACE) (slot_head slot))"
proof -
  have step: "\<exists>a'. (case save_one_trunk t b a of (r, a') \<Rightarrow> if r \<noteq> 0 then (r, a') else (0, add_stats b a')) = (0, a') \<and>
      ext_all_ok (cb_ext a') \<and> data_writer a' = data_writer a @ trunk_binlog_line t TRUNK_OP_TYPE_ADD_SPACE b"
    if "ext_all_ok (cb_ext a)" for b a
    using ext_call_ok [OF that, of EIO] by (auto simp: save_one_trunk_def writer_append_def add_stats_def)
  from walk_loop_collect [of "\<lambda>a. ext_all_ok (cb_ext a)", OF step assms, of "\<lambda>x. x" "slot_head slot"]
  show ?thesis by (simp add: tree_walk_callback_to_file_def)
qed

lemma trees_to_list:
  assumes "ext_all_ok (cb_ext a) \<and> data_writer a = w"
  shows "\<exists>a'. walk_loop (\<lambda>t. walk_loop tree_walk_callback_to_list (avl_walk A t)) ts a = (0, a') \<and>
    (ext_all_ok (cb_ext a') \<and> data_writer a' = w) \<and> trunk_array a' = trunk_array a @ concat (map (tree_nodes A) ts)"
proof -
  have "\<exists>a'. walk_loop tree_walk_callback_to_list (avl_walk A t) a = (0, a') \<and>
      (ext_all_ok (cb_ext a') \<and> data_writer a' = w) \<and> trunk_array a' = trunk_array a @ tree_nodes A t"
    if "ext_all_ok (cb_ext a) \<and> data_writer a = w" for t a
    using walk_loop_collect [of "\<lambda>a. ext_all_ok (cb_ext a) \<and> data_writer a = w", OF to_list_collects that, of "\<lambda>x. x" "avl_walk A t"]
    by (simp add: tree_nodes_def)
  from walk_loop_collect [of "\<lambda>a. ext_all_ok (cb_ext a) \<and> data_writer a = w", OF this assms, of "\<lambda>x. x" ts] show ?thesis by simp
qed

lemma concat_map_concat: "concat (map f (concat (map g xs))) = concat (map (\<lambda>x. concat (map f (g x))) xs)"
  by (induction xs) simp_all

lemma trees_to_file:
  assumes "ext_all_ok (cb_ext a)"
  shows "\<exists>a'. walk_loop (\<lambda>t. walk_loop (tree_walk_callback_to_file tm) (avl_walk A t)) ts a = (0, a') \<and> ext_all_ok (cb_ext a') \<and>
    data_writer a' = data_writer a @ concat (map (trunk_binlog_line tm TRUNK_OP_TYPE_ADD_SPACE) (concat (map (tree_nodes A) ts)))"
proof -
  have "\<exists>a'. walk_loop (tree_walk_callback_to_file tm) (avl_walk A t) a = (0, a') \<and> ext_all_ok (cb_ext a') \<and>
      data_writer a' = data_writer a @ concat (map (trunk_binlog_line tm TRUNK_OP_TYPE_ADD_SPACE) (tree_nodes A t))"
    if "ext_all_ok (cb_ext a)" for t a
    using walk_loop_collect [of "\<lambda>a. ext_all_ok (cb_ext a)" "tree_walk_callback_to_file tm" data_writer
        "\<lambda>sl. concat (map (trunk_binlog_line tm TRUNK_OP_TYPE_ADD_SPACE) (slot_head sl))", OF to_file_collects that]
    unfolding tree_nodes_def concat_map_concat by blast
  from walk_loop_collect [of "\<lambda>a. ext_all_ok (cb_ext a)", OF this assms, of "\<lambda>x. x" ts] show ?thesis
    unfolding concat_map_concat by simp
qed

section \<open>What is saved\<close>

abbreviation save_lines :: "('t, 'u) trunk_state \<Rightarrow> FDFSTrunkFullInfo list \<Rightarrow> string" where
  "save_lines s out \<equiv> concat (map (trunk_binlog_line (g_current_time s) TRUNK_OP_TYPE_ADD_SPACE) out)"

text \<open>
  What a save makes of the index: the blocks \<open>out\<close> are the new index, which covers the same
  bytes as the old one; with merging every two blocks of a file have a gap between them,
  and a block that is new is free.
\<close>

definition saved ::
    "('t, 'u) trunk_env \<Rightarrow> save_conf \<Rightarrow> FDFSTrunkFullInfo list \<Rightarrow> ('t, 'u) trunk_state \<Rightarrow> ('t, 'u) trunk_state \<Rightarrow> bool" where
  "saved e k out s s' \<longleftrightarrow>
     trunk_inv e s' \<and> mset out = free_blocks e s' \<and>
     (\<Union>b \<in> set_mset (free_blocks e s'). blk_bytes b) = (\<Union>b \<in> set_mset (free_blocks e s). blk_bytes b) \<and>
     (if g_trunk_free_space_merge k
      then sorted_wrt blk_gap out \<and> (\<forall>b \<in> set out. b \<in># free_blocks e s \<or> trunk_status b = FDFS_TRUNK_STATUS_FREE)
      else free_blocks e s' = free_blocks e s) \<and>
     log_text (trunk_log s') = log_text (trunk_log s)"

lemma free_blocks_distinct:
  assumes "env_ok e lt" "core_inv e s" "mset xs = free_blocks e s"
  shows "distinct xs"
proof (rule ccontr)
  assume "\<not> distinct xs"
  then obtain as y bs cs where "xs = as @ [y] @ bs @ [y] @ cs" using not_distinct_decomp by metis
  then have "free_blocks e s = add_mset y (mset (as @ bs @ [y] @ cs))" using assms(3) by simp
  from free_blocks_once [OF assms(1,2) this] show False by simp
qed

lemma free_blocks_sorted:
  assumes e: "env_ok e lt" and inv: "trunk_inv e s" and arr: "mset xs = free_blocks e s"
  shows "sorted_wrt blk_before (qsort trunk_compare_id_offset xs)" "\<forall>b \<in> set xs. 0 < blk_size b"
proof -
  have c: "core_inv e s" using inv by (simp add: trunk_inv_def)
  have m: "mset (qsort trunk_compare_id_offset xs) = free_blocks e s" using arr by simp
  have st: "b \<in> set (qsort trunk_compare_id_offset xs) \<longleftrightarrow> b \<in># free_blocks e s" "b \<in> set xs \<longleftrightarrow> b \<in># free_blocks e s" for b
    using m arr by (metis set_mset_mset)+
  have pos: "0 < blk_size b" if "b \<in># free_blocks e s" for b
    using c e that by (auto simp: core_inv_def blk_good_def env_ok_def)
  then show "\<forall>b \<in> set xs. 0 < blk_size b" using st by simp
  show "sorted_wrt blk_before (qsort trunk_compare_id_offset xs)"
    by (rule sorted_blk_before [OF id_offset_sorted free_blocks_distinct [OF e c m]])
      (use pos st free_blocks_disjoint [OF e c] in auto)
qed

lemma save_merged_spec:
  assumes e: "env_ok e lt" and inv: "trunk_inv e s" and arr: "mset (trunk_array a) = free_blocks e s"
    and k: "\<not> g_delete_unused_trunk_files k" "g_trunk_free_space_merge k"
    and ok: "ext_all_ok (ext s)" "avl_total (size_api e)" "avl_total (id_api e)"
  shows "\<exists>out a' s'. trunk_save_merged_spaces e k a s = (0, a', s') \<and>
    data_writer a' = data_writer a @ save_lines s out \<and> saved e k out s s' \<and> ext_all_ok (ext s')"
proof (cases "qsort trunk_compare_id_offset (trunk_array a)")
  case Nil
  then have "free_blocks e s = {#}" using arr qsort_mset [of trunk_compare_id_offset "trunk_array a"] by simp
  with Nil inv ok show ?thesis by (intro exI [of _ "[]"]) (simp add: trunk_save_merged_spaces_def saved_def)
next
  case (Cons x xs)
  then have f: "free_blocks e s = mset (x # xs)" using arr qsort_mset [of trunk_compare_id_offset "trunk_array a"] by simp
  let ?ms = "\<lparr>merge_count = 0, merged_trunk_count = 0, deleted_file_count = 0, merged_size = 0, deleted_file_size = 0\<rparr>"
  have so: "sorted_wrt blk_before (x # xs)" using free_blocks_sorted(1) [OF e inv arr] Cons by simp
  have pos: "\<forall>b \<in> set (x # [] @ xs). 0 < blk_size b" using free_blocks_sorted(2) [OF e inv f [symmetric]] by simp
  have "mset [x] + mset xs \<subseteq># free_blocks e s" unfolding f by simp
  then obtain ms' a' s' where L: "merge_loop e k x [] xs (?ms, a, s) = (0, ms', a', s')"
    "data_writer a' = data_writer a @ save_lines s (merged_blocks x [] xs)"
    "trunk_inv e s'" "free_blocks e s' = mset (merged_blocks x [] xs) + (free_blocks e s - (mset [x] + mset xs))"
    "ext_all_ok (ext s')" "log_text (trunk_log s') = log_text (trunk_log s)"
    using merge_loop_spec [OF e k(1) ok(2,3) inv, of x "[]" xs ?ms a] ok(1) by auto
  have out: "free_blocks e s' = mset (merged_blocks x [] xs)" using L(4) f by simp
  have "(\<Union>b \<in> set_mset (free_blocks e s'). blk_bytes b) = (\<Union>b \<in> set_mset (free_blocks e s). blk_bytes b)"
    using merged_blocks_bytes [OF _ pos] unfolding out f by simp
  moreover have "sorted_wrt blk_gap (merged_blocks x [] xs)" using merged_blocks_gaps [OF _ _ pos] so by simp
  moreover have "\<forall>b \<in> set (merged_blocks x [] xs). b \<in># free_blocks e s \<or> trunk_status b = FDFS_TRUNK_STATUS_FREE"
    using merged_blocks_free [of _ x "[]" xs] unfolding f by auto
  ultimately have "saved e k (merged_blocks x [] xs) s s'" using L(3,6) out k(2) by (simp add: saved_def)
  moreover have "trunk_save_merged_spaces e k a s = (0, a', s')" using Cons L(1) by (simp add: trunk_save_merged_spaces_def)
  ultimately show ?thesis using L(2,5) by blast
qed

lemma save_walk_spec:
  assumes e: "env_ok e lt" and inv: "trunk_inv e s" and nd: "\<not> g_delete_unused_trunk_files k"
    and tot: "avl_total (size_api e)" "avl_total (id_api e)" and a: "ext_all_ok (cb_ext a)" "trunk_array a = []"
  obtains a1 out a2 s2 where
    "walk_loop (\<lambda>t. walk_loop (if g_trunk_free_space_merge k then tree_walk_callback_to_list
         else tree_walk_callback_to_file (g_current_time s)) (avl_walk (size_api e) t)) (tree_info_by_sizes s) a = (0, a1)"
    "(if g_trunk_free_space_merge k then trunk_save_merged_spaces e k a1 (with_ext a1 s) else (0, a1, with_ext a1 s)) = (0, a2, s2)"
    "data_writer a2 = data_writer a @ save_lines s out" "saved e k out s s2" "ext_all_ok (ext s2)"
proof -
  let ?nodes = "concat (map (tree_nodes (size_api e)) (tree_info_by_sizes s))"
  have nodes: "mset ?nodes = free_blocks e s" using inv by (simp add: trunk_inv_def core_inv_def size_nodes_def)
  have w: "trunk_inv e (with_ext b s)" "free_blocks e (with_ext b s) = free_blocks e s"
      "g_current_time (with_ext b s) = g_current_time s" "trunk_log (with_ext b s) = trunk_log s" "ext (with_ext b s) = cb_ext b" for b
    using core_inv_same_index [of e s "with_ext b s"] inv by (simp_all add: trunk_inv_def with_ext_def)
  have sv: "saved e k out (with_ext b s) s2 \<longleftrightarrow> saved e k out s s2" for out b s2 by (simp add: saved_def w)
  show thesis
  proof (cases "g_trunk_free_space_merge k")
    case True
    obtain a1 where a1: "walk_loop (\<lambda>t. walk_loop tree_walk_callback_to_list (avl_walk (size_api e) t)) (tree_info_by_sizes s) a = (0, a1)"
      "ext_all_ok (cb_ext a1)" "data_writer a1 = data_writer a" "trunk_array a1 = ?nodes"
      using trees_to_list [OF conjI [OF a(1) refl], of "size_api e" "tree_info_by_sizes s"] unfolding a(2) append_Nil by blast
    have "mset (trunk_array a1) = free_blocks e (with_ext a1 s)" "ext_all_ok (ext (with_ext a1 s))" using a1 nodes w by simp_all
    from save_merged_spec [OF e w(1) this(1) nd True this(2) tot]
    obtain out a2 s2 where m: "trunk_save_merged_spaces e k a1 (with_ext a1 s) = (0, a2, s2)"
      "data_writer a2 = data_writer a1 @ save_lines s out" "saved e k out s s2" "ext_all_ok (ext s2)" unfolding w sv by blast
    show thesis by (rule that [of a1 a2 s2 out]) (simp_all only: if_P [OF True] a1 m)
  next
    case False
    obtain a1 where a1: "walk_loop (\<lambda>t. walk_loop (tree_walk_callback_to_file (g_current_time s)) (avl_walk (size_api e) t)) (tree_info_by_sizes s) a = (0, a1)"
      "ext_all_ok (cb_ext a1)" "data_writer a1 = data_writer a @ save_lines s ?nodes"
      using trees_to_file [OF a(1), of "g_current_time s" "size_api e" "tree_info_by_sizes s"] by blast
    have "saved e k ?nodes s (with_ext a1 s)" using False nodes w by (simp add: saved_def)
    then show thesis by (intro that [of a1 a1 "with_ext a1 s" ?nodes]) (simp_all only: if_not_P [OF False] a1 w)
  qed
qed

lemma flush_all_ok:
  assumes "ext_all_ok tp"
  obtains lg tp' where "trunk_binlog_flush l tp = (0, lg, tp')" "ext_all_ok tp'" "log_file lg = log_text l" "log_text lg = log_text l"
  using flush_ok [OF assms, of l] flush_zero [of l tp] by (metis append_Nil2 log_text_def prod_cases3)

lemma do_save_run:
  assumes "ext_call EIO (ext s) = (0, tp0)" "trunk_binlog_flush (trunk_log s) tp0 = (0, lg, tp1)"
    "ext_pop tp1 = (ExtOk, tp2)"
    "writer_append (fmt_d (int (length (log_file lg))) @ [CHR 0x0A])
       \<lparr>data_writer = [], trunk_array = [], array_alloc = 0, stats_trunk_count = 0, stats_total_size = 0, cb_ext = tp2\<rparr> = (0, a)"
    "walk_loop (\<lambda>t. walk_loop (if g_trunk_free_space_merge k then tree_walk_callback_to_list
         else tree_walk_callback_to_file (g_current_time s)) (avl_walk (size_api e) t)) (tree_info_by_sizes s) a = (0, a1)"
    "(if g_trunk_free_space_merge k
      then trunk_save_merged_spaces e k a1 (with_ext a1 (s\<lparr>trunk_log := lg, ext := tp2\<rparr>))
      else (0, a1, with_ext a1 (s\<lparr>trunk_log := lg, ext := tp2\<rparr>))) = (0, a2, s2)"
    "ext_call EIO (ext s2) = (0, tp3)" "ext_call EIO tp3 = (0, tp4)"
  shows "do_save_trunk_data e k f s = (0, Some (data_writer a2), s2\<lparr>ext := tp4\<rparr>)"
proof -
  have "storage_trunk_get_binlog_size (s\<lparr>trunk_log := lg, ext := tp1\<rparr>) =
      (int (length (log_file lg)), 0, s\<lparr>trunk_log := lg, ext := tp2\<rparr>)"
    using assms(3) by (simp add: storage_trunk_get_binlog_size_def)
  with assms show ?thesis by (simp add: do_save_trunk_data_def del: if_split cong: if_cong)
qed

lemma do_save_spec:
  assumes e: "env_ok e lt" and inv: "trunk_inv e s" and nd: "\<not> g_delete_unused_trunk_files k"
    and ok: "ext_all_ok (ext s)" "avl_total (size_api e)" "avl_total (id_api e)"
  obtains out s' where
    "do_save_trunk_data e k f s = (0, Some (fmt_d (int (length (log_text (trunk_log s)))) @ [CHR 0x0A] @ save_lines s out), s')"
    "saved e k out s s'"
proof -
  obtain tp0 where 0: "ext_call EIO (ext s) = (0, tp0)" "ext_all_ok tp0" using ext_call_ok [OF ok(1)] by blast
  obtain lg tp1 where 1: "trunk_binlog_flush (trunk_log s) tp0 = (0, lg, tp1)" "ext_all_ok tp1"
    "log_file lg = log_text (trunk_log s)" "log_text lg = log_text (trunk_log s)" using flush_all_ok [OF 0(2)] .
  obtain tp2 where 2: "ext_pop tp1 = (ExtOk, tp2)" "ext_all_ok tp2" using ext_pop_ok [OF 1(2)] by blast
  let ?a0 = "\<lparr>data_writer = [], trunk_array = [], array_alloc = 0, stats_trunk_count = 0, stats_total_size = 0, cb_ext = tp2\<rparr>"
  let ?h = "fmt_d (int (length (log_file lg))) @ [CHR 0x0A]"
  obtain tpa where 3: "writer_append ?h ?a0 = (0, ?a0\<lparr>data_writer := ?h, cb_ext := tpa\<rparr>)" "ext_all_ok tpa"
    using writer_append_ok [of ?a0 ?h] 2(2) by auto
  define a where "a = ?a0\<lparr>data_writer := ?h, cb_ext := tpa\<rparr>"
  define s1 where "s1 = s\<lparr>trunk_log := lg, ext := tp2\<rparr>"
  have s1: "trunk_inv e s1" "free_blocks e s1 = free_blocks e s" "log_text (trunk_log s1) = log_text (trunk_log s)"
    "g_current_time s1 = g_current_time s" "tree_info_by_sizes s1 = tree_info_by_sizes s"
    using core_inv_same_index [of e s s1] inv 1(4) by (simp_all add: trunk_inv_def s1_def)
  have a: "ext_all_ok (cb_ext a)" "trunk_array a = []" "data_writer a = ?h" using 3(2) by (simp_all add: a_def)
  obtain a1 out a2 s2 where 4:
    "walk_loop (\<lambda>t. walk_loop (if g_trunk_free_space_merge k then tree_walk_callback_to_list
         else tree_walk_callback_to_file (g_current_time s)) (avl_walk (size_api e) t)) (tree_info_by_sizes s) a = (0, a1)"
    "(if g_trunk_free_space_merge k then trunk_save_merged_spaces e k a1 (with_ext a1 s1) else (0, a1, with_ext a1 s1)) = (0, a2, s2)"
    "data_writer a2 = data_writer a @ save_lines s out" "saved e k out s1 s2" "ext_all_ok (ext s2)"
    by (rule save_walk_spec [OF e s1(1) nd ok(2,3) a(1,2), unfolded s1(4,5)])
  obtain tp3 where 5: "ext_call EIO (ext s2) = (0, tp3)" "ext_all_ok tp3" using ext_call_ok [OF 4(5)] by blast
  obtain tp4 where 6: "ext_call EIO tp3 = (0, tp4)" using ext_call_ok [OF 5(2)] by blast
  have "do_save_trunk_data e k f s = (0, Some (data_writer a2), s2\<lparr>ext := tp4\<rparr>)"
    by (rule do_save_run [OF 0(1) 1(1) 2(1) _ 4(1) 4(2) [unfolded s1_def] 5(1) 6]) (simp add: 3(1) a_def)
  moreover have "trunk_inv e (s2\<lparr>ext := tp4\<rparr>) \<and> free_blocks e (s2\<lparr>ext := tp4\<rparr>) = free_blocks e s2"
    using core_inv_same_index [of e s2 "s2\<lparr>ext := tp4\<rparr>"] 4(4) by (simp add: trunk_inv_def saved_def)
  then have "saved e k out s (s2\<lparr>ext := tp4\<rparr>)" using 4(4) unfolding saved_def s1(2,3) by simp
  ultimately show thesis using that [of out "s2\<lparr>ext := tp4\<rparr>"] 4(3) a(3) 1(3) by simp
qed

lemma sorted_gap_ends:
  assumes "sorted_wrt blk_gap xs" "\<forall>b \<in> set xs. 0 < blk_size b" "b \<in> set xs" "c \<in> set xs"
    "FILL_FILE_IDENTIFIER b = FILL_FILE_IDENTIFIER c"
  shows "blk_end b \<noteq> blk_off c"
  using assms
proof (induction xs)
  case (Cons x xs)
  have no: "\<not> trunk_compare_path_and_id b c < 0" "\<not> trunk_compare_path_and_id c b < 0"
    using Cons.prems(5) compare_path_and_id_less [of b c] compare_path_and_id_less [of c b] by auto
  have g: "blk_gap x y" if "y \<in> set xs" for y using Cons.prems(1) that by simp
  show ?case
  proof (cases "b = x"; cases "c = x")
    assume "b \<noteq> x" "c = x"
    then have "blk_off b > blk_end c" using g [of b] Cons.prems(3) no by (auto simp: blk_gap_def)
    moreover have "0 < blk_size b" "0 < blk_size c" using Cons.prems(2-4) by auto
    ultimately show ?thesis by linarith
  qed (use Cons.prems Cons.IH g [of c] no in \<open>auto simp: blk_gap_def\<close>)
qed simp

lemma saved_gaps:
  assumes e: "env_ok e lt" and s: "saved e k out s s'" and k: "g_trunk_free_space_merge k"
    and bc: "b \<in># free_blocks e s'" "c \<in># free_blocks e s'" "FILL_FILE_IDENTIFIER b = FILL_FILE_IDENTIFIER c"
  shows "blk_end b \<noteq> blk_off c"
proof -
  have o: "mset out = free_blocks e s'" "trunk_inv e s'" "sorted_wrt blk_gap out" using s k by (simp_all add: saved_def)
  have "b \<in> set out" "c \<in> set out" using bc(1,2) unfolding o(1) [symmetric] by simp_all
  then show ?thesis using sorted_gap_ends [OF o(3) free_blocks_sorted(2) [OF e o(2,1)]] bc(3) by blast
qed

section \<open>Properties\<close>

text \<open>
  C10: a save that no call fails writes the index. The data file holds the size of the
  binlog and a line for each block of the index after the save; that index is consistent
  and covers exactly the bytes the index covered before. Without merging it is the index
  as it was; with merging any two of its blocks of one trunk file have used bytes between
  them. (Deleting unused trunk files is off.)
\<close>

theorem trunk_save_writes_index:
  assumes "env_ok e lt" "trunk_inv e s" "\<not> g_delete_unused_trunk_files k"
    and "ext_all_ok (ext s)" "avl_total (size_api e)" "avl_total (id_api e)"
  shows "\<exists>out s'. storage_trunk_do_save e k 0 f s =
      (0, 0, Some (fmt_d (int (length (log_text (trunk_log s)))) @ [CHR 0x0A] @
         concat (map (trunk_binlog_line (g_current_time s) TRUNK_OP_TYPE_ADD_SPACE) out)), s') \<and>
    trunk_inv e s' \<and> mset out = free_blocks e s' \<and>
    (\<Union>b \<in> set_mset (free_blocks e s'). blk_bytes b) = (\<Union>b \<in> set_mset (free_blocks e s). blk_bytes b) \<and>
    (if g_trunk_free_space_merge k
     then \<forall>b c. b \<in># free_blocks e s' \<and> c \<in># free_blocks e s' \<and> FILL_FILE_IDENTIFIER b = FILL_FILE_IDENTIFIER c
       \<longrightarrow> blk_end b \<noteq> blk_off c
     else free_blocks e s' = free_blocks e s)"
proof -
  obtain out s' where d: "do_save_trunk_data e k f s =
      (0, Some (fmt_d (int (length (log_text (trunk_log s)))) @ [CHR 0x0A] @ save_lines s out), s')" "saved e k out s s'"
    using do_save_spec [OF assms] .
  have "storage_trunk_do_save e k 0 f s =
      (0, 0, Some (fmt_d (int (length (log_text (trunk_log s)))) @ [CHR 0x0A] @ save_lines s out), s')"
    using d(1) by (simp add: storage_trunk_do_save_def)
  with saved_gaps [OF assms(1) d(2)] d(2) show ?thesis unfolding saved_def by (intro exI [of _ out] exI [of _ s']) simp
qed

definition sample_save :: save_conf where
  "sample_save = \<lparr>g_trunk_free_space_merge = True, g_delete_unused_trunk_files = False, trunk_stat = (\<lambda>_. Inl ENOENT)\<rparr>"

theorem trunk_save_writes_index_witness:
  "\<exists>out s'. storage_trunk_do_save sample_env sample_save 0 None sample_state =
      (0, 0, Some (fmt_d (int (length (log_text (trunk_log sample_state)))) @ [CHR 0x0A] @
         concat (map (trunk_binlog_line (g_current_time sample_state) TRUNK_OP_TYPE_ADD_SPACE) out)), s') \<and>
    mset out = free_blocks sample_env s'"
proof -
  have "\<not> g_delete_unused_trunk_files sample_save" "ext_all_ok (ext sample_state)"
    by (simp_all add: sample_save_def sample_state_def)
  with trunk_save_writes_index [OF sample_env_ok sample_state_inv _ _ sample_env_total, of sample_save None] show ?thesis
    by blast
qed

lemma neighbours_become_one:
  assumes e: "env_ok e lt" and inv: "trunk_inv e s" and sv: "saved e k out s s'" and k: "g_trunk_free_space_merge k"
    and fh: "f \<in># free_blocks e s" "h \<in># free_blocks e s" "FILL_FILE_IDENTIFIER f = FILL_FILE_IDENTIFIER h" "blk_end f = blk_off h"
  obtains b where "b \<in># free_blocks e s'" "blk_overlap b f" "blk_overlap b h" "trunk_status b = FDFS_TRUNK_STATUS_FREE"
proof -
  have c: "core_inv e s" "core_inv e s'" "trunk_inv e s'" using inv sv by (simp_all add: trunk_inv_def saved_def)
  have pos: "0 < blk_size b" if "b \<in># free_blocks e s \<or> b \<in># free_blocks e s'" for b
    using c(1,2) e that by (auto simp: core_inv_def blk_good_def env_ok_def)
  let ?F = "FILL_FILE_IDENTIFIER h"
  have cov: "(\<Union>b \<in> set_mset (free_blocks e s'). blk_bytes b) = (\<Union>b \<in> set_mset (free_blocks e s). blk_bytes b)"
    using sv by (simp add: saved_def)
  have "(?F, blk_off h - 1) \<in> blk_bytes f" "(?F, blk_off h) \<in> blk_bytes h"
    using pos [of f] pos [of h] fh by (auto simp: blk_bytes_def)
  then have "(?F, blk_off h - 1) \<in> (\<Union>b \<in> set_mset (free_blocks e s'). blk_bytes b)"
    "(?F, blk_off h) \<in> (\<Union>b \<in> set_mset (free_blocks e s'). blk_bytes b)" unfolding cov using fh(1,2) by blast+
  then obtain b d where bd: "b \<in># free_blocks e s'" "d \<in># free_blocks e s'" "(?F, blk_off h - 1) \<in> blk_bytes b" "(?F, blk_off h) \<in> blk_bytes d"
    by blast
  have "b = d"
  proof (rule ccontr)
    assume "b \<noteq> d"
    then have "\<not> blk_overlap b d" using free_blocks_disjoint [OF e c(2) bd(1,2)] by simp
    then have "blk_end b = blk_off d" using bd(3,4) by (auto simp: blk_bytes_def blk_overlap_def)
    with saved_gaps [OF e sv k bd(1,2)] bd(3,4) show False by (auto simp: blk_bytes_def)
  qed
  then have ov: "blk_overlap b f" "blk_overlap b h"
    using bd(3,4) fh(3,4) pos [of f] pos [of h] fh(1,2) by (auto simp: blk_bytes_def blk_overlap_def)
  have "f \<noteq> h" using fh(1,4) pos [of f] by auto
  then have "b \<notin># free_blocks e s" using ov free_blocks_disjoint [OF e c(1)] fh(1,2) by metis
  moreover have "b \<in> set out" using sv bd(1) unfolding saved_def by (metis set_mset_mset)
  ultimately have "trunk_status b = FDFS_TRUNK_STATUS_FREE" using sv k by (auto simp: saved_def)
  with bd(1) ov that show thesis by blast
qed

text \<open>
  C39: merging does not look at the status of the blocks. When a block that an upload holds
  (allocated, not yet confirmed) follows a free one in its trunk file, the save merges the
  two, and the held bytes are in a free block that the next allocation may take.
\<close>

theorem trunk_save_frees_held_block:
  assumes "env_ok e lt" "trunk_inv e s" "\<not> g_delete_unused_trunk_files k" "g_trunk_free_space_merge k"
    and "ext_all_ok (ext s)" "avl_total (size_api e)" "avl_total (id_api e)"
    and "f \<in># free_blocks e s" "h \<in># free_blocks e s" "trunk_status h = FDFS_TRUNK_STATUS_HOLD"
    and "FILL_FILE_IDENTIFIER f = FILL_FILE_IDENTIFIER h" "blk_end f = blk_off h"
  shows "\<exists>txt s' b. storage_trunk_do_save e k 0 old s = (0, 0, Some txt, s') \<and> b \<in># free_blocks e s' \<and>
    trunk_status b = FDFS_TRUNK_STATUS_FREE \<and> blk_overlap b h"
proof -
  obtain out s' where d: "do_save_trunk_data e k old s =
      (0, Some (fmt_d (int (length (log_text (trunk_log s)))) @ [CHR 0x0A] @ save_lines s out), s')" "saved e k out s s'"
    using do_save_spec [OF assms(1-3,5-7)] .
  obtain b where "b \<in># free_blocks e s'" "blk_overlap b h" "trunk_status b = FDFS_TRUNK_STATUS_FREE"
    using neighbours_become_one [OF assms(1,2) d(2) assms(4,8,9,11,12)] .
  with d(1) show ?thesis by (auto simp: storage_trunk_do_save_def)
qed

theorem trunk_save_frees_held_block_witness:
  "\<exists>s txt s' b. hold (sample_block 1 512 256) \<in># free_blocks sample_env s \<and>
     storage_trunk_do_save sample_env sample_save 0 None s = (0, 0, Some txt, s') \<and> b \<in># free_blocks sample_env s' \<and>
     trunk_status b = FDFS_TRUNK_STATUS_FREE \<and> blk_overlap b (hold (sample_block 1 512 256))"
proof -
  obtain s where s: "trunk_inv sample_env s" "ext_all_ok (ext s)"
    "free_blocks sample_env s = {#hold (sample_block 1 512 256), sample_block 1 0 512, sample_block 1 1024 256#}"
    using sample_held_at [of 512] by auto
  let ?f = "sample_block 1 0 512" and ?h = "hold (sample_block 1 512 256)"
  have k: "\<not> g_delete_unused_trunk_files sample_save" "g_trunk_free_space_merge sample_save" by (simp_all add: sample_save_def)
  have fh: "?f \<in># free_blocks sample_env s" "?h \<in># free_blocks sample_env s" "trunk_status ?h = FDFS_TRUNK_STATUS_HOLD"
    "FILL_FILE_IDENTIFIER ?f = FILL_FILE_IDENTIFIER ?h" "blk_end ?f = blk_off ?h"
    by (simp_all add: s(3)) (simp_all add: sample_block_def FILL_FILE_IDENTIFIER_def)
  from trunk_save_frees_held_block [OF sample_env_ok s(1) k s(2) sample_env_total fh, of None] fh(2) show ?thesis by blast
qed

end
