(* ===== verification/Trunk_Compress.thy ===== *)
theory Trunk_Compress
  imports Trunk_Save
begin

text \<open>
  Compressing the trunk binlog (\<open>storage/trunk_mgr/trunk_sync.c\<close>, lines 109 to 165 and 642
  to 1253, and \<open>trunk_mem.c\<close>, lines 864 to 1121): the binlog is set aside, the free blocks
  are saved, and the saved lines followed by the records written meanwhile become the new
  binlog. Five files take part. The stage is written to the file \<open>.data_init_flag\<close>, so that
  a server that stopped in the middle goes back, or forward, when it starts again.

  The state keeps, beside the files, the list of all states of the disk in the order in
  which they came about: a server can stop in any of them. Names of files are short enough
  for \<open>MAX_PATH_SIZE\<close>.
\<close>

section \<open>The files and the process\<close>

abbreviation (input) EBADF :: int where "EBADF \<equiv> 9"

abbreviation (input) STORAGE_TRUNK_COMPRESS_STAGE_NONE :: int where "STORAGE_TRUNK_COMPRESS_STAGE_NONE \<equiv> 0"
abbreviation (input) STORAGE_TRUNK_COMPRESS_STAGE_COMPRESS_BEGIN :: int where "STORAGE_TRUNK_COMPRESS_STAGE_COMPRESS_BEGIN \<equiv> 1"
abbreviation (input) STORAGE_TRUNK_COMPRESS_STAGE_APPLY_DONE :: int where "STORAGE_TRUNK_COMPRESS_STAGE_APPLY_DONE \<equiv> 2"
abbreviation (input) STORAGE_TRUNK_COMPRESS_STAGE_SAVE_DONE :: int where "STORAGE_TRUNK_COMPRESS_STAGE_SAVE_DONE \<equiv> 3"
abbreviation (input) STORAGE_TRUNK_COMPRESS_STAGE_COMMIT_MERGING :: int where "STORAGE_TRUNK_COMPRESS_STAGE_COMMIT_MERGING \<equiv> 4"
abbreviation (input) STORAGE_TRUNK_COMPRESS_STAGE_COMMIT_MERGE_DONE :: int where "STORAGE_TRUNK_COMPRESS_STAGE_COMMIT_MERGE_DONE \<equiv> 5"
abbreviation (input) STORAGE_TRUNK_COMPRESS_STAGE_COMPRESS_SUCCESS :: int where "STORAGE_TRUNK_COMPRESS_STAGE_COMPRESS_SUCCESS \<equiv> 6"
abbreviation (input) STORAGE_TRUNK_COMPRESS_STAGE_ROLLBACK_MERGING :: int where "STORAGE_TRUNK_COMPRESS_STAGE_ROLLBACK_MERGING \<equiv> 7"
abbreviation (input) STORAGE_TRUNK_COMPRESS_STAGE_ROLLBACK_MERGE_DONE :: int where "STORAGE_TRUNK_COMPRESS_STAGE_ROLLBACK_MERGE_DONE \<equiv> 8"
abbreviation (input) STORAGE_TRUNK_COMPRESS_STAGE_FINISHED :: int where "STORAGE_TRUNK_COMPRESS_STAGE_FINISHED \<equiv> 9"

datatype trunk_file_name = Binlog | Binlog_rollback | Binlog_tmp | Data_file | Data_rollback

text \<open>\<open>d_stage\<close> is the stage in the initialisation file, \<open>d_marks\<close> are the mark files.\<close>

record compress_disk =
  d_files :: "trunk_file_name \<Rightarrow> string option"
  d_marks :: "string list"
  d_stage :: int

text \<open>
  \<open>c_stage\<close> is \<open>g_trunk_binlog_compress_stage\<close>, \<open>c_open\<close> says whether \<open>trunk_binlog_fd >= 0\<close>,
  \<open>c_cache\<close> and \<open>c_version\<close> are the write cache and \<open>trunk_binlog_write_version\<close>.
\<close>

record compress_state =
  c_disk :: compress_disk
  c_hist :: "compress_disk list"
  c_stage :: int
  c_open :: bool
  c_cache :: string
  c_version :: int
  c_ext :: ext_tape

abbreviation c_file :: "compress_state \<Rightarrow> trunk_file_name \<Rightarrow> string option" where
  "c_file c f \<equiv> d_files (c_disk c) f"

definition text_of :: "string option \<Rightarrow> string" where
  "text_of x = (case x of None \<Rightarrow> [] | Some t \<Rightarrow> t)"

section \<open>System calls on the files\<close>

definition c_call :: "int \<Rightarrow> compress_state \<Rightarrow> int \<times> compress_state" where
  "c_call dflt c = (case ext_call dflt (c_ext c) of (r, tp) \<Rightarrow> (r, c\<lparr>c_ext := tp\<rparr>))"

definition put_disk :: "compress_disk \<Rightarrow> compress_state \<Rightarrow> compress_state" where
  "put_disk d c = c\<lparr>c_disk := d, c_hist := c_hist c @ [d]\<rparr>"

definition set_file :: "trunk_file_name \<Rightarrow> string option \<Rightarrow> compress_disk \<Rightarrow> compress_disk" where
  "set_file f x d = d\<lparr>d_files := (d_files d)(f := x)\<rparr>"

definition put_file :: "trunk_file_name \<Rightarrow> string option \<Rightarrow> compress_state \<Rightarrow> compress_state" where
  "put_file f x c = put_disk (set_file f x (c_disk c)) c"

text \<open>\<open>access\<close>, \<open>stat\<close> or \<open>open\<close> of an existing file; \<open>unlink\<close>; \<open>rename\<close>.\<close>

definition c_access :: "int \<Rightarrow> trunk_file_name \<Rightarrow> compress_state \<Rightarrow> int \<times> compress_state" where
  "c_access dflt f c = (if c_file c f = None then (ENOENT, c) else c_call dflt c)"

definition c_unlink :: "int \<Rightarrow> trunk_file_name \<Rightarrow> compress_state \<Rightarrow> int \<times> compress_state" where
  "c_unlink dflt f c =
     (case c_access dflt f c of (r, c') \<Rightarrow> if r \<noteq> 0 then (r, c') else (0, put_file f None c'))"

definition c_rename :: "int \<Rightarrow> trunk_file_name \<Rightarrow> trunk_file_name \<Rightarrow> compress_state \<Rightarrow> int \<times> compress_state" where
  "c_rename dflt f g c =
     (case c_access dflt f c of
        (r, c') \<Rightarrow>
          if r \<noteq> 0 then (r, c')
          else (0, put_disk (set_file f None (set_file g (c_file c' f) (c_disk c'))) c'))"

text \<open>
  \<open>storage_write_to_sync_ini_file\<close> as far as the stage is concerned: the file is replaced
  as a whole.
\<close>

definition storage_write_to_sync_ini_file :: "compress_state \<Rightarrow> int \<times> compress_state" where
  "storage_write_to_sync_ini_file c =
     (case c_call EIO c of
        (r, c') \<Rightarrow> if r \<noteq> 0 then (r, c') else (0, put_disk ((c_disk c')\<lparr>d_stage := c_stage c'\<rparr>) c'))"

definition enter_stage :: "int \<Rightarrow> compress_state \<Rightarrow> compress_state" where
  "enter_stage n c = snd (storage_write_to_sync_ini_file (c\<lparr>c_stage := n\<rparr>))"

section \<open>The writer\<close>

definition c_log :: "compress_state \<Rightarrow> trunk_binlog" where
  "c_log c = \<lparr>log_file = text_of (c_file c Binlog), log_cache = c_cache c, log_version = c_version c\<rparr>"

definition set_log :: "trunk_binlog \<Rightarrow> compress_state \<Rightarrow> compress_state" where
  "set_log lg c = (put_file Binlog (Some (log_file lg)) c)\<lparr>c_cache := log_cache lg, c_version := log_version lg\<rparr>"

text \<open>\<open>trunk_binlog_fsync\<close>; a write to the descriptor \<open>-1\<close> fails.\<close>

definition trunk_binlog_fsync :: "compress_state \<Rightarrow> int \<times> compress_state" where
  "trunk_binlog_fsync c =
     (if c_cache c \<noteq> [] \<and> \<not> c_open c then (EBADF, c)
      else (case trunk_binlog_flush (c_log c) (c_ext c) of (r, lg, tp) \<Rightarrow> (r, set_log lg (c\<lparr>c_ext := tp\<rparr>))))"

definition trunk_binlog_open_writer :: "compress_state \<Rightarrow> int \<times> compress_state" where
  "trunk_binlog_open_writer c =
     (case c_call EACCES c of
        (r, c') \<Rightarrow>
          if r \<noteq> 0 then (r, c'\<lparr>c_open := False\<rparr>)
          else (0, (if c_file c' Binlog = None then put_file Binlog (Some []) c' else c')\<lparr>c_open := True\<rparr>))"

definition trunk_binlog_close_writer :: "compress_state \<Rightarrow> int \<times> compress_state" where
  "trunk_binlog_close_writer c =
     (case (if c_cache c \<noteq> [] then trunk_binlog_fsync c else (0, c)) of
        (r, c') \<Rightarrow> if r \<noteq> 0 then (r, c') else (0, c'\<lparr>c_open := False\<rparr>))"

text \<open>The callers of \<open>trunk_binlog_close_writer\<close> below do not look at its result.\<close>

definition close_if_open :: "bool \<Rightarrow> compress_state \<Rightarrow> compress_state" where
  "close_if_open need_open_binlog c = (if need_open_binlog then snd (trunk_binlog_close_writer c) else c)"

section \<open>Deleting and renaming\<close>

definition trunk_binlog_delete_rollback_file :: "trunk_file_name \<Rightarrow> compress_state \<Rightarrow> int \<times> compress_state" where
  "trunk_binlog_delete_rollback_file f c =
     (case c_access EPERM f c of
        (r, c1) \<Rightarrow>
          if r = 0 then
            (case c_unlink EPERM f c1 of (r, c2) \<Rightarrow> if r \<noteq> 0 \<and> r \<noteq> ENOENT then (r, c2) else (0, c2))
          else if r \<noteq> ENOENT then (r, c1)
          else (0, c1))"

definition trunk_binlog_compress_delete_binlog_rollback_file :: "compress_state \<Rightarrow> int \<times> compress_state" where
  "trunk_binlog_compress_delete_binlog_rollback_file c = trunk_binlog_delete_rollback_file Binlog_rollback c"

definition trunk_binlog_compress_delete_rollback_files :: "compress_state \<Rightarrow> int \<times> compress_state" where
  "trunk_binlog_compress_delete_rollback_files c =
     (case trunk_binlog_compress_delete_binlog_rollback_file c of
        (r, c1) \<Rightarrow> if r \<noteq> 0 then (r, c1) else trunk_binlog_delete_rollback_file Data_rollback c1)"

definition trunk_binlog_rename_file :: "trunk_file_name \<Rightarrow> trunk_file_name \<Rightarrow> compress_state \<Rightarrow> int \<times> compress_state" where
  "trunk_binlog_rename_file src dest c =
     (case c_access EIO src c of (r, c1) \<Rightarrow> if r \<noteq> 0 then (r, c1) else c_rename EIO src dest c1)"

fun unlink_marks :: "string list \<Rightarrow> compress_state \<Rightarrow> int \<times> compress_state" where
  "unlink_marks [] c = (0, c)"
| "unlink_marks (m # ms) c =
     (case c_call EPERM c of
        (r, c1) \<Rightarrow>
          if r = 0 then unlink_marks ms (put_disk ((c_disk c1)\<lparr>d_marks := removeAll m (d_marks (c_disk c1))\<rparr>) c1)
          else if r = ENOENT then unlink_marks ms c1
          else (r, c1))"

definition trunk_unlink_all_mark_files :: "compress_state \<Rightarrow> int \<times> compress_state" where
  "trunk_unlink_all_mark_files c =
     (case c_call EPERM c of (r, c1) \<Rightarrow> if r \<noteq> 0 then (r, c1) else unlink_marks (d_marks (c_disk c1)) c1)"

section \<open>Merging two files\<close>

text \<open>
  The loop that copies the rest \<open>src\<close> of an open file to the temporary file, with a buffer
  of 64 KB. A failed read ends the loop like the end of the file.
\<close>

function copy_loop :: "string \<Rightarrow> compress_state \<Rightarrow> int \<times> compress_state" where
  "copy_loop src c =
     (case ext_pop (c_ext c) of
        (ExtOk, tp) \<Rightarrow>
          if src = [] then (0, c\<lparr>c_ext := tp\<rparr>)
          else
            (case safe_write (text_of (c_file c Binlog_tmp)) (take 65536 src) tp of
               (ok, e, txt, tp') \<Rightarrow>
                 let c' = put_file Binlog_tmp (Some txt) (c\<lparr>c_ext := tp'\<rparr>) in
                 if \<not> ok then (errno_or e EACCES, c') else copy_loop (drop 65536 src) c')
      | (_, tp) \<Rightarrow> (0, c\<lparr>c_ext := tp\<rparr>))"
  by pat_completeness auto
termination
  by (relation "measure (\<lambda>(src, c). length src)") auto

declare copy_loop.simps [simp del]

definition trunk_binlog_merge_file :: "string \<Rightarrow> int \<Rightarrow> compress_state \<Rightarrow> int \<times> compress_state" where
  "trunk_binlog_merge_file old stage c =
     (case c_call EACCES c of
        (r, c1) \<Rightarrow>
          if r \<noteq> 0 then (r, c1)
          else
            (case copy_loop old (put_file Binlog_tmp (Some []) c1) of
               (r, c2) \<Rightarrow>
                 if r \<noteq> 0 then (r, c2)
                 else
                   (case (case c_access EPERM Binlog c2 of
                            (r, c3) \<Rightarrow>
                              if r \<noteq> 0 then (0, c3)
                              else
                                (case c_access EPERM Binlog c3 of
                                   (r, c4) \<Rightarrow> if r \<noteq> 0 then (r, c4) else copy_loop (text_of (c_file c4 Binlog)) c4)) of
                      (r, c5) \<Rightarrow>
                        if r \<noteq> 0 then (r, c5)
                        else
                          (case c_call EIO c5 of
                             (r, c6) \<Rightarrow>
                               if r \<noteq> 0 then (r, c6) else c_rename EPERM Binlog_tmp Binlog (enter_stage stage c6)))))"

section \<open>Rolling back\<close>

definition trunk_compress_rollback_data_file :: "compress_state \<Rightarrow> int \<times> compress_state" where
  "trunk_compress_rollback_data_file c =
     (case c_access EPERM Data_rollback c of
        (r, c1) \<Rightarrow>
          if r \<noteq> 0 then (if r = ENOENT then 0 else r, c1)
          else
            let st_sz = length (text_of (c_file c1 Data_rollback)) in
            (case c_unlink EPERM Data_file c1 of
               (r, c2) \<Rightarrow>
                 if r \<noteq> 0 \<and> r \<noteq> ENOENT then (r, c2)
                 else if st_sz = 0 then (0, snd (c_unlink EPERM Data_rollback c2))
                 else
                   (case c_rename EPERM Data_rollback Data_file c2 of
                      (r, c3) \<Rightarrow> (if r = ENOENT then 0 else r, c3))))"

definition trunk_compress_rollback_binlog_file :: "compress_state \<Rightarrow> int \<times> compress_state" where
  "trunk_compress_rollback_binlog_file c =
     (case c_access ENOENT Binlog_rollback c of
        (r, c1) \<Rightarrow>
          if r \<noteq> 0 then (if r = ENOENT then 0 else r, c1)
          else if text_of (c_file c1 Binlog_rollback) = [] then (0, snd (c_unlink EPERM Binlog_rollback c1))
          else
            (case c_access EPERM Binlog c1 of
               (r, c2) \<Rightarrow>
                 if r = ENOENT then
                   (case c_rename EPERM Binlog_rollback Binlog c2 of
                      (r, c3) \<Rightarrow> if r \<noteq> 0 \<and> r \<noteq> ENOENT then (r, c3) else (0, c3))
                 else if r \<noteq> 0 then (r, c2)
                 else
                   (case c_access EPERM Binlog_rollback c2 of
                      (r, c3) \<Rightarrow>
                        if r \<noteq> 0 then (if r = ENOENT then 0 else r, c3)
                        else
                          (case trunk_binlog_merge_file (text_of (c_file c3 Binlog_rollback))
                                  STORAGE_TRUNK_COMPRESS_STAGE_ROLLBACK_MERGING c3 of
                             (result, c4) \<Rightarrow>
                               (result, snd (c_unlink EPERM Binlog_rollback
                                  (enter_stage STORAGE_TRUNK_COMPRESS_STAGE_ROLLBACK_MERGE_DONE c4)))))))"

definition do_compress_rollback :: "compress_state \<Rightarrow> int \<times> compress_state" where
  "do_compress_rollback c =
     (let need_open_binlog = c_open c in
      case trunk_compress_rollback_binlog_file (close_if_open need_open_binlog c) of
        (r, c1) \<Rightarrow>
          if r \<noteq> 0 then (r, c1)
          else
            (case trunk_compress_rollback_data_file c1 of
               (r, c2) \<Rightarrow>
                 if r \<noteq> 0 then (r, c2)
                 else if need_open_binlog then trunk_binlog_open_writer c2
                 else (0, c2)))"

definition trunk_binlog_compress_rollback :: "compress_state \<Rightarrow> int \<times> compress_state" where
  "trunk_binlog_compress_rollback c =
     (case do_compress_rollback c of
        (r, c1) \<Rightarrow> if r \<noteq> 0 then (r, c1) else (0, enter_stage STORAGE_TRUNK_COMPRESS_STAGE_FINISHED c1))"

section \<open>Setting aside and committing\<close>

definition trunk_binlog_compress_delete_temp_files_after_commit :: "compress_state \<Rightarrow> int \<times> compress_state" where
  "trunk_binlog_compress_delete_temp_files_after_commit c =
     (case c_unlink ENOENT Data_file c of
        (r, c1) \<Rightarrow> if r \<noteq> 0 \<and> r \<noteq> ENOENT then (r, c1) else trunk_binlog_compress_delete_rollback_files c1)"

text \<open>\<open>writeToFile(data_rollback_filename, "", 0)\<close> makes an empty file.\<close>

definition set_aside :: "compress_state \<Rightarrow> int \<times> compress_state" where
  "set_aside c =
     (case trunk_binlog_rename_file Data_file Data_rollback c of
        (r, c1) \<Rightarrow>
          (case (if r = ENOENT
                 then (case c_call EIO c1 of (r, c2) \<Rightarrow> if r \<noteq> 0 then (r, c2) else (0, put_file Data_rollback (Some []) c2))
                 else (r, c1)) of
             (r, c2) \<Rightarrow>
               if r \<noteq> 0 then (r, c2)
               else
                 (case trunk_binlog_rename_file Binlog Binlog_rollback c2 of
                    (r, c3) \<Rightarrow> if r \<noteq> 0 then (r, snd (trunk_compress_rollback_data_file c3)) else (0, c3))))"

definition trunk_binlog_compress_apply :: "compress_state \<Rightarrow> int \<times> compress_state" where
  "trunk_binlog_compress_apply c =
     (case c_access EPERM Binlog c of
        (r, c0) \<Rightarrow>
          if r \<noteq> 0 then (r, c0)
          else
            let need_open_binlog = c_open c0 in
            (case set_aside (close_if_open need_open_binlog c0) of
               (result, c1) \<Rightarrow>
                 if need_open_binlog then
                   (case trunk_binlog_open_writer c1 of
                      (open_res, c2) \<Rightarrow>
                        if open_res \<noteq> 0 then
                          (if result = 0 then open_res else result,
                           snd (trunk_compress_rollback_data_file (snd (trunk_binlog_rename_file Binlog_rollback Binlog c2))))
                        else (result, c2))
                 else (result, c1)))"

text \<open>
  \<open>fd_gets\<close> of libfastcommon, which skips the first line of the data file, is a parameter:
  what is left to read after it.
\<close>

definition trunk_binlog_compress_commit :: "(string \<Rightarrow> string) \<Rightarrow> compress_state \<Rightarrow> int \<times> compress_state" where
  "trunk_binlog_compress_commit skip_line c =
     (let need_open_binlog = c_open c in
      case c_access ENOENT Data_file c of
        (r, c1) \<Rightarrow>
          if r \<noteq> 0 then (r, c1)
          else
            let data_fd = skip_line (text_of (c_file c1 Data_file)) in
            (case trunk_binlog_merge_file data_fd STORAGE_TRUNK_COMPRESS_STAGE_COMMIT_MERGING (close_if_open need_open_binlog c1) of
               (r, c2) \<Rightarrow>
                 if r \<noteq> 0 then (r, c2)
                 else
                   (case trunk_binlog_compress_delete_temp_files_after_commit
                           (enter_stage STORAGE_TRUNK_COMPRESS_STAGE_COMMIT_MERGE_DONE c2) of
                      (r, c3) \<Rightarrow>
                        if r \<noteq> 0 then (r, c3)
                        else
                          let c4 = enter_stage STORAGE_TRUNK_COMPRESS_STAGE_COMPRESS_SUCCESS c3
                          in if need_open_binlog then trunk_binlog_open_writer c4 else (0, c4))))"

section \<open>Recovery at the start\<close>

definition finish_compress :: "compress_state \<Rightarrow> int \<times> compress_state" where
  "finish_compress c =
     (case trunk_unlink_all_mark_files c of
        (r, c1) \<Rightarrow>
          if r \<noteq> 0 then (r, c1)
          else storage_write_to_sync_ini_file (c1\<lparr>c_stage := STORAGE_TRUNK_COMPRESS_STAGE_FINISHED\<rparr>))"

text \<open>Whether a merge that was interrupted had renamed its temporary file.\<close>

definition merge_was_done :: "compress_state \<Rightarrow> compress_state" where
  "merge_was_done c =
     (if c_stage c = STORAGE_TRUNK_COMPRESS_STAGE_COMMIT_MERGING \<or> c_stage c = STORAGE_TRUNK_COMPRESS_STAGE_ROLLBACK_MERGING
      then (case c_access 0 Binlog_tmp c of
              (r, c1) \<Rightarrow>
                if r = ENOENT
                then c1\<lparr>c_stage :=
                  (if c_stage c = STORAGE_TRUNK_COMPRESS_STAGE_COMMIT_MERGING
                   then STORAGE_TRUNK_COMPRESS_STAGE_COMMIT_MERGE_DONE else STORAGE_TRUNK_COMPRESS_STAGE_ROLLBACK_MERGE_DONE)\<rparr>
                else c1)
      else c)"

definition storage_trunk_binlog_compress_check_recovery :: "compress_state \<Rightarrow> int \<times> compress_state" where
  "storage_trunk_binlog_compress_check_recovery c =
     (if c_stage c = STORAGE_TRUNK_COMPRESS_STAGE_NONE \<or> c_stage c = STORAGE_TRUNK_COMPRESS_STAGE_FINISHED then (0, c)
      else
        let c1 = merge_was_done c; st = c_stage c1 in
        if st \<in> {STORAGE_TRUNK_COMPRESS_STAGE_COMPRESS_BEGIN, STORAGE_TRUNK_COMPRESS_STAGE_APPLY_DONE,
                STORAGE_TRUNK_COMPRESS_STAGE_SAVE_DONE, STORAGE_TRUNK_COMPRESS_STAGE_COMMIT_MERGING,
                STORAGE_TRUNK_COMPRESS_STAGE_ROLLBACK_MERGING}
        then trunk_binlog_compress_rollback c1
        else if st = STORAGE_TRUNK_COMPRESS_STAGE_ROLLBACK_MERGE_DONE then
          (case trunk_binlog_compress_delete_binlog_rollback_file c1 of
             (r, c2) \<Rightarrow> if r \<noteq> 0 then (r, c2) else trunk_binlog_compress_rollback c2)
        else if st = STORAGE_TRUNK_COMPRESS_STAGE_COMMIT_MERGE_DONE then
          (case trunk_binlog_compress_delete_temp_files_after_commit c1 of
             (r, c2) \<Rightarrow> if r \<noteq> 0 then (r, c2) else finish_compress c2)
        else if st = STORAGE_TRUNK_COMPRESS_STAGE_COMPRESS_SUCCESS then finish_compress c1
        else (0, c1))"

text \<open>
  A server that starts on a disk: the stage is what the initialisation file says, and the
  binlog has been opened for writing when the group uses trunk files.
\<close>

definition restart :: "bool \<Rightarrow> compress_disk \<Rightarrow> compress_state" where
  "restart use_trunk d =
     (let c = \<lparr>c_disk = d, c_hist = [d], c_stage = d_stage d, c_open = False, c_cache = [], c_version = 1, c_ext = []\<rparr>
      in if use_trunk then snd (trunk_binlog_open_writer c) else c)"

section \<open>The compression\<close>

text \<open>
  \<open>ct_now\<close> is \<open>g_current_time\<close>, \<open>ct_last_version\<close> the static variable \<open>last_write_version\<close>,
  \<open>ct_in_progress\<close> is \<open>trunk_binlog_compress_in_progress\<close>.
\<close>

record compress_ctl =
  ct_now :: int
  g_up_time :: int
  ct_last_version :: int
  ct_in_progress :: int
  g_trunk_last_compress_time :: int
  g_trunk_compress_binlog_min_interval :: int

text \<open>
  The two operations of the trunk allocator that the compression calls are arguments, over
  the allocator's own state: \<open>save\<close> is \<open>storage_trunk_do_save\<close>; \<open>stop\<close> gives up being the
  trunk server. They are supplied below. \<open>storage_trunk_compress\<close> gives the result, the
  control variables and both states.
\<close>

type_synonym 's saver = "compress_state \<Rightarrow> 's \<Rightarrow> int \<times> compress_state \<times> 's"

definition compress_end ::
    "('s \<Rightarrow> 's) \<Rightarrow> int \<Rightarrow> compress_ctl \<Rightarrow> compress_state \<Rightarrow> 's \<Rightarrow> int \<times> compress_ctl \<times> compress_state \<times> 's" where
  "compress_end stop result ctl c s =
     (result, ctl, c, if result \<noteq> 0 \<and> c_stage c \<noteq> STORAGE_TRUNK_COMPRESS_STAGE_FINISHED then stop s else s)"

definition compress_run ::
    "'s saver \<Rightarrow> (string \<Rightarrow> string) \<Rightarrow> ('s \<Rightarrow> 's) \<Rightarrow> compress_ctl \<Rightarrow> compress_state \<Rightarrow> 's
     \<Rightarrow> int \<times> compress_ctl \<times> compress_state \<times> 's" where
  "compress_run save skip_line stop ctl c s =
     (let current_write_version = c_version c in
      case trunk_binlog_compress_delete_rollback_files c of
        (r, c1) \<Rightarrow>
          if r \<noteq> 0 then compress_end stop r ctl c1 s
          else
            (case trunk_binlog_compress_apply (enter_stage STORAGE_TRUNK_COMPRESS_STAGE_COMPRESS_BEGIN c1) of
               (r, c2) \<Rightarrow>
                 if r \<noteq> 0 then compress_end stop r ctl c2 s
                 else
                   (case save (enter_stage STORAGE_TRUNK_COMPRESS_STAGE_APPLY_DONE c2) s of
                      (r, c3, s1) \<Rightarrow>
                        if r \<noteq> 0 then compress_end stop r ctl (snd (trunk_binlog_compress_rollback c3)) s1
                        else
                          (case trunk_binlog_compress_commit skip_line (enter_stage STORAGE_TRUNK_COMPRESS_STAGE_SAVE_DONE c3) of
                             (r, c4) \<Rightarrow>
                               if r \<noteq> 0 then compress_end stop r ctl (snd (trunk_binlog_compress_rollback c4)) s1
                               else
                                 (case trunk_unlink_all_mark_files c4 of
                                    (r, c5) \<Rightarrow>
                                      compress_end stop r
                                        (ctl\<lparr>g_trunk_last_compress_time := ct_now ctl, ct_last_version := current_write_version\<rparr>) c5 s1)))))"

definition storage_trunk_compress ::
    "'s saver \<Rightarrow> (string \<Rightarrow> string) \<Rightarrow> ('s \<Rightarrow> 's) \<Rightarrow> compress_ctl \<Rightarrow> compress_state \<Rightarrow> 's
     \<Rightarrow> int \<times> compress_ctl \<times> compress_state \<times> 's" where
  "storage_trunk_compress save skip_line stop ctl c s =
     (if c_stage c \<noteq> STORAGE_TRUNK_COMPRESS_STAGE_NONE \<and> c_stage c \<noteq> STORAGE_TRUNK_COMPRESS_STAGE_FINISHED then (EAGAIN, ctl, c, s)
      else if ct_now ctl - g_up_time ctl < 600 then (EAGAIN, ctl, c, s)
      else if c_version c = ct_last_version ctl then (EALREADY, ctl, c, s)
      else if ct_in_progress ctl + 1 \<noteq> 1 then (EINPROGRESS, ctl, c, s)
      else compress_run save skip_line stop ctl c s)"

definition storage_trunk_save ::
    "'s saver \<Rightarrow> (string \<Rightarrow> string) \<Rightarrow> ('s \<Rightarrow> 's) \<Rightarrow> compress_ctl \<Rightarrow> compress_state \<Rightarrow> 's
     \<Rightarrow> int \<times> compress_ctl \<times> compress_state \<times> 's" where
  "storage_trunk_save save skip_line stop ctl c s =
     (if \<not> (g_trunk_compress_binlog_min_interval ctl > 0 \<and>
            ct_now ctl - g_trunk_last_compress_time ctl > g_trunk_compress_binlog_min_interval ctl)
      then (if ct_in_progress ctl = 0 then (case save c s of (r, c', s') \<Rightarrow> (r, ctl, c', s')) else (0, ctl, c, s))
      else
        (case storage_trunk_compress save skip_line stop ctl c s of
           (r, ctl', c', s') \<Rightarrow>
             if r = 0
             then (case storage_write_to_sync_ini_file (c'\<lparr>c_stage := STORAGE_TRUNK_COMPRESS_STAGE_FINISHED\<rparr>) of
                     (r, c'') \<Rightarrow> (r, ctl', c'', s'))
             else (if r = EAGAIN \<or> r = EALREADY \<or> r = EINPROGRESS then 0 else r, ctl', c', s')))"

text \<open>
  The scheduled task. The threads that send the binlog are told to start from its beginning
  (\<open>trunk_sync_notify_thread_reset_offset\<close>), which does not concern this state; \<open>self\<close>
  reads \<open>g_if_trunker_self\<close>.
\<close>

definition trunk_binlog_compress_func ::
    "'s saver \<Rightarrow> (string \<Rightarrow> string) \<Rightarrow> ('s \<Rightarrow> 's) \<Rightarrow> ('s \<Rightarrow> bool) \<Rightarrow> compress_ctl \<Rightarrow> compress_state \<Rightarrow> 's
     \<Rightarrow> int \<times> compress_ctl \<times> compress_state \<times> 's" where
  "trunk_binlog_compress_func save skip_line stop self ctl c s =
     (if \<not> self s then (0, ctl, c, s)
      else
        (case storage_trunk_compress save skip_line stop ctl c s of
           (r, ctl', c', s') \<Rightarrow>
             if r \<noteq> 0 then (r, ctl', c', s')
             else
               (case storage_write_to_sync_ini_file (c'\<lparr>c_stage := STORAGE_TRUNK_COMPRESS_STAGE_FINISHED\<rparr>) of
                  (r, c'') \<Rightarrow> (r, ctl', c'', s'))))"

section \<open>What a disk recovers to\<close>

text \<open>
  The binlog and the data file that a disk stands for. While a rollback is still possible
  they are the files that were set aside, with the records written since; after the new
  binlog is in place they are the new binlog and no data file.
\<close>

definition committed :: "compress_disk \<Rightarrow> bool" where
  "committed d \<longleftrightarrow>
     d_stage d \<in> {STORAGE_TRUNK_COMPRESS_STAGE_COMMIT_MERGE_DONE, STORAGE_TRUNK_COMPRESS_STAGE_COMPRESS_SUCCESS} \<or>
     d_stage d = STORAGE_TRUNK_COMPRESS_STAGE_COMMIT_MERGING \<and> d_files d Binlog_tmp = None"

definition log_restored :: "compress_disk \<Rightarrow> bool" where
  "log_restored d \<longleftrightarrow>
     d_stage d \<in> {STORAGE_TRUNK_COMPRESS_STAGE_NONE, STORAGE_TRUNK_COMPRESS_STAGE_FINISHED,
       STORAGE_TRUNK_COMPRESS_STAGE_ROLLBACK_MERGE_DONE} \<or>
     d_stage d = STORAGE_TRUNK_COMPRESS_STAGE_ROLLBACK_MERGING \<and> d_files d Binlog_tmp = None \<or> committed d"

definition stands_for_log :: "compress_disk \<Rightarrow> string" where
  "stands_for_log d =
     (if log_restored d then text_of (d_files d Binlog)
      else text_of (d_files d Binlog_rollback) @ text_of (d_files d Binlog))"

definition stands_for_data :: "compress_disk \<Rightarrow> string option" where
  "stands_for_data d =
     (if d_stage d \<in> {STORAGE_TRUNK_COMPRESS_STAGE_NONE, STORAGE_TRUNK_COMPRESS_STAGE_FINISHED} then d_files d Data_file
      else if committed d then None
      else if d_files d Data_rollback = None then d_files d Data_file
      else if d_files d Data_rollback = Some [] then None
      else d_files d Data_rollback)"

abbreviation stands_for :: "compress_disk \<Rightarrow> string \<times> string option" where
  "stands_for d \<equiv> (stands_for_log d, stands_for_data d)"

definition all_hist :: "(compress_disk \<Rightarrow> bool) \<Rightarrow> compress_state \<Rightarrow> bool" where
  "all_hist P c \<longleftrightarrow> (\<forall>d \<in> set (c_hist c). P d)"

section \<open>Runs without failures\<close>

named_theorems quiet "calls that do not fail"

lemma c_ext_idem [simp]: "c_ext c = [] \<Longrightarrow> c\<lparr>c_ext := []\<rparr> = c"
  by simp

lemma c_stage_idem [simp]: "c_stage c = n \<Longrightarrow> c\<lparr>c_stage := n\<rparr> = c"
  by auto

lemma c_call_quiet [quiet]: "c_ext c = [] \<Longrightarrow> c_call d c = (0, c)"
  by (simp add: c_call_def)

lemma set_file_simps [simp]:
  "d_files (set_file f x d) g = (if g = f then x else d_files d g)" "d_stage (set_file f x d) = d_stage d"
  "d_marks (set_file f x d) = d_marks d" "set_file f x (set_file f y d) = set_file f x d"
  "(set_file f x d)\<lparr>d_stage := n\<rparr> = set_file f x (d\<lparr>d_stage := n\<rparr>)"
  by (simp_all add: set_file_def)

lemma set_file_same [simp]: "d_files d f = x \<Longrightarrow> set_file f x d = d"
  by (auto simp: set_file_def)

lemma put_disk_simps [simp]:
  "c_disk (put_disk d c) = d" "c_stage (put_disk d c) = c_stage c" "c_open (put_disk d c) = c_open c"
  "c_cache (put_disk d c) = c_cache c" "c_ext (put_disk d c) = c_ext c" "c_version (put_disk d c) = c_version c"
  by (simp_all add: put_disk_def)

lemma all_hist_put_disk [simp]: "all_hist P (put_disk d c) \<longleftrightarrow> P d \<and> all_hist P c"
  by (auto simp: all_hist_def put_disk_def)

lemma all_hist_fields [simp]:
  "all_hist P (c\<lparr>c_stage := n\<rparr>) = all_hist P c" "all_hist P (c\<lparr>c_open := b\<rparr>) = all_hist P c"
  "all_hist P (c\<lparr>c_ext := tp\<rparr>) = all_hist P c" "all_hist P (c\<lparr>c_cache := x\<rparr>) = all_hist P c"
  "all_hist P (c\<lparr>c_version := v\<rparr>) = all_hist P c"
  by (simp_all add: all_hist_def)

lemma put_file_simps [simp]:
  "c_disk (put_file f x c) = set_file f x (c_disk c)"
  "c_stage (put_file f x c) = c_stage c" "c_open (put_file f x c) = c_open c" "c_cache (put_file f x c) = c_cache c"
  "c_ext (put_file f x c) = c_ext c" "c_version (put_file f x c) = c_version c"
  by (simp_all add: put_file_def)

lemma all_hist_put_file [simp]:
  "all_hist P (put_file f x c) \<longleftrightarrow> P (set_file f x (c_disk c)) \<and> all_hist P c"
  by (simp add: put_file_def)

lemma c_access_quiet [quiet]: "c_ext c = [] \<Longrightarrow> c_access d f c = (if c_file c f = None then ENOENT else 0, c)"
  by (simp add: c_access_def quiet)

lemma c_unlink_quiet [quiet]:
  "c_ext c = [] \<Longrightarrow> c_unlink d f c = (if c_file c f = None then (ENOENT, c) else (0, put_file f None c))"
  by (simp add: c_unlink_def quiet)

lemma c_rename_quiet [quiet]:
  "c_ext c = [] \<Longrightarrow> c_rename d f g c =
     (if c_file c f = None then (ENOENT, c)
      else (0, put_disk (set_file f None (set_file g (c_file c f) (c_disk c))) c))"
  by (simp add: c_rename_def quiet)

lemma enter_stage_quiet [quiet]:
  "c_ext c = [] \<Longrightarrow> enter_stage n c = put_disk ((c_disk c)\<lparr>d_stage := n\<rparr>) (c\<lparr>c_stage := n\<rparr>)"
  by (simp add: enter_stage_def storage_write_to_sync_ini_file_def quiet)

lemma open_writer_quiet [quiet]:
  "c_ext c = [] \<Longrightarrow> trunk_binlog_open_writer c =
     (0, (if c_file c Binlog = None then put_file Binlog (Some []) c else c)\<lparr>c_open := True\<rparr>)"
  by (simp add: trunk_binlog_open_writer_def quiet)

lemma rename_file_quiet [quiet]:
  "c_ext c = [] \<Longrightarrow> trunk_binlog_rename_file f g c =
     (if c_file c f = None then (ENOENT, c)
      else (0, put_disk (set_file f None (set_file g (c_file c f) (c_disk c))) c))"
  by (simp add: trunk_binlog_rename_file_def quiet)

lemma delete_rollback_file_quiet [quiet]:
  "c_ext c = [] \<Longrightarrow> trunk_binlog_delete_rollback_file f c = (0, if c_file c f = None then c else put_file f None c)"
  by (simp add: trunk_binlog_delete_rollback_file_def quiet)

lemma copy_loop_quiet:
  assumes "c_ext c = []" "c_file c Binlog_tmp = Some t"
  obtains h where "copy_loop src c = (0, c\<lparr>c_disk := set_file Binlog_tmp (Some (t @ src)) (c_disk c), c_hist := h\<rparr>)"
    "\<And>P. all_hist P c \<Longrightarrow> (\<And>u. P (set_file Binlog_tmp (Some u) (c_disk c))) \<Longrightarrow> \<forall>d \<in> set h. P d"
proof -
  have "\<exists>h. copy_loop src c = (0, c\<lparr>c_disk := set_file Binlog_tmp (Some (t @ src)) (c_disk c), c_hist := h\<rparr>) \<and>
     (\<forall>P. all_hist P c \<longrightarrow> (\<forall>u. P (set_file Binlog_tmp (Some u) (c_disk c))) \<longrightarrow> (\<forall>d \<in> set h. P d))"
    using assms
  proof (induction src arbitrary: c t rule: length_induct)
    case (1 src)
    show ?case
    proof (cases "src = []")
      case True
      have "set_file Binlog_tmp (Some t) (c_disk c) = c_disk c" "c\<lparr>c_ext := []\<rparr> = c" using 1(2,3) by simp_all
      then show ?thesis using 1(2) True by (subst copy_loop.simps) (auto simp: all_hist_def intro!: exI [of _ "c_hist c"])
    next
      case False
      let ?c = "put_file Binlog_tmp (Some (t @ take 65536 src)) c"
      have l: "length (drop 65536 src) < length src" using False by simp
      have "copy_loop src c = copy_loop (drop 65536 src) (put_file Binlog_tmp (Some (t @ take 65536 src)) (c\<lparr>c_ext := []\<rparr>))"
        using False 1(2,3) by (subst copy_loop.simps) (simp add: safe_write_def text_of_def Let_def)
      moreover have "c\<lparr>c_ext := []\<rparr> = c" using 1(2) by simp
      ultimately have e: "copy_loop src c = copy_loop (drop 65536 src) ?c" by simp
      obtain h where h: "copy_loop (drop 65536 src) ?c =
          (0, ?c\<lparr>c_disk := set_file Binlog_tmp (Some ((t @ take 65536 src) @ drop 65536 src)) (c_disk ?c), c_hist := h\<rparr>)"
        "\<And>P. all_hist P ?c \<Longrightarrow> (\<forall>u. P (set_file Binlog_tmp (Some u) (c_disk ?c))) \<Longrightarrow> \<forall>d \<in> set h. P d"
        using 1(1) [rule_format, OF l, of ?c "t @ take 65536 src"] 1(2) by auto
      have "\<forall>P. all_hist P c \<longrightarrow> (\<forall>u. P (set_file Binlog_tmp (Some u) (c_disk c))) \<longrightarrow> (\<forall>d \<in> set h. P d)"
        using h(2) by auto
      moreover have "copy_loop src c = (0, c\<lparr>c_disk := set_file Binlog_tmp (Some (t @ src)) (c_disk c), c_hist := h\<rparr>)"
        unfolding e h(1) by (simp add: put_file_def put_disk_def)
      ultimately show ?thesis by blast
    qed
  qed
  then show thesis using that by blast
qed

lemma close_if_open_quiet:
  assumes "c_ext c = []" "c_open c"
  shows "close_if_open True c = (if c_cache c = [] then c else
      (put_file Binlog (Some (text_of (c_file c Binlog) @ c_cache c)) c)\<lparr>c_cache := [], c_version := c_version c + 1\<rparr>)\<lparr>c_open := False\<rparr>"
  using assms
  by (simp add: close_if_open_def trunk_binlog_close_writer_def trunk_binlog_fsync_def trunk_binlog_flush_def
      trunk_binlog_fsync_ex_def safe_write_def c_log_def set_log_def Let_def)

lemma merge_file_quiet:
  assumes x: "c_ext c = []"
  obtains c' where "trunk_binlog_merge_file old st c = (0, c')"
    "c_ext c' = []" "c_stage c' = st" "c_open c' = c_open c" "c_cache c' = c_cache c" "c_version c' = c_version c"
    "c_disk c' = (set_file Binlog_tmp None (set_file Binlog (Some (old @ text_of (c_file c Binlog))) (c_disk c)))\<lparr>d_stage := st\<rparr>"
    "\<forall>P. all_hist P c \<longrightarrow> (\<forall>u. P (set_file Binlog_tmp (Some u) (c_disk c))) \<longrightarrow>
       (\<forall>u. P ((set_file Binlog_tmp (Some u) (c_disk c))\<lparr>d_stage := st\<rparr>)) \<longrightarrow> P (c_disk c') \<longrightarrow> all_hist P c'"
proof -
  let ?c1 = "put_file Binlog_tmp (Some []) c"
  obtain h2 where h2: "copy_loop old ?c1 = (0, ?c1\<lparr>c_disk := set_file Binlog_tmp (Some ([] @ old)) (c_disk ?c1), c_hist := h2\<rparr>)"
    "\<And>P. all_hist P ?c1 \<Longrightarrow> (\<And>u. P (set_file Binlog_tmp (Some u) (c_disk ?c1))) \<Longrightarrow> \<forall>d \<in> set h2. P d"
    using copy_loop_quiet [of ?c1 "[]" old] x by auto
  let ?c2 = "?c1\<lparr>c_disk := set_file Binlog_tmp (Some ([] @ old)) (c_disk ?c1), c_hist := h2\<rparr>"
  define h5 where "h5 = (if c_file c Binlog = None then h2 else c_hist (snd (copy_loop (text_of (c_file ?c2 Binlog)) ?c2)))"
  have 5: "(case c_access EPERM Binlog ?c2 of (r, c3) \<Rightarrow> if r \<noteq> 0 then (0, c3) else
          (case c_access EPERM Binlog c3 of (r, c4) \<Rightarrow> if r \<noteq> 0 then (r, c4) else copy_loop (text_of (c_file c4 Binlog)) c4))
      = (0, c\<lparr>c_disk := set_file Binlog_tmp (Some (old @ text_of (c_file c Binlog))) (c_disk c), c_hist := h5\<rparr>)"
    "\<And>P. all_hist P c \<Longrightarrow> (\<And>u. P (set_file Binlog_tmp (Some u) (c_disk c))) \<Longrightarrow> \<forall>d \<in> set h5. P d"
  proof -
    have P2: "\<forall>d \<in> set h2. P d" if "all_hist P c" "\<And>u. P (set_file Binlog_tmp (Some u) (c_disk c))" for P
      using h2(2) [of P] that by simp
    have "?c2 = c\<lparr>c_disk := set_file Binlog_tmp (Some old) (c_disk c), c_hist := h2\<rparr>" by (simp add: put_file_def put_disk_def)
    note c2 = this
    obtain h where h: "copy_loop (text_of (c_file ?c2 Binlog)) ?c2 = (0, ?c2\<lparr>c_disk := set_file Binlog_tmp (Some (old @ text_of (c_file ?c2 Binlog))) (c_disk ?c2), c_hist := h\<rparr>)"
      "\<And>P. all_hist P ?c2 \<Longrightarrow> (\<And>u. P (set_file Binlog_tmp (Some u) (c_disk ?c2))) \<Longrightarrow> \<forall>d \<in> set h. P d"
      using copy_loop_quiet [of ?c2 old "text_of (c_file ?c2 Binlog)"] x by simp blast
    show "(case c_access EPERM Binlog ?c2 of (r, c3) \<Rightarrow> if r \<noteq> 0 then (0, c3) else
          (case c_access EPERM Binlog c3 of (r, c4) \<Rightarrow> if r \<noteq> 0 then (r, c4) else copy_loop (text_of (c_file c4 Binlog)) c4))
      = (0, c\<lparr>c_disk := set_file Binlog_tmp (Some (old @ text_of (c_file c Binlog))) (c_disk c), c_hist := h5\<rparr>)"
      using x h(1) unfolding h5_def c2 by (simp add: quiet text_of_def)
    show "\<forall>d \<in> set h5. P d" if "all_hist P c" "\<And>u. P (set_file Binlog_tmp (Some u) (c_disk c))" for P
    proof -
      have "\<forall>d \<in> set h. P d" using h(2) [of P] P2 [OF that] that(2) by (simp add: all_hist_def)
      then show ?thesis using P2 [OF that] h(1) unfolding h5_def c2 by simp
    qed
  qed
  let ?d = "(set_file Binlog_tmp (Some (old @ text_of (c_file c Binlog))) (c_disk c))\<lparr>d_stage := st\<rparr>"
  let ?d' = "(set_file Binlog_tmp None (set_file Binlog (Some (old @ text_of (c_file c Binlog))) (c_disk c)))\<lparr>d_stage := st\<rparr>"
  have "trunk_binlog_merge_file old st c = (0, c\<lparr>c_stage := st, c_hist := h5 @ [?d, ?d'], c_disk := ?d'\<rparr>)"
    unfolding trunk_binlog_merge_file_def c_call_quiet [OF x] prod.case h2(1) 5(1)
    using x 5(1) by (simp add: quiet put_disk_def set_file_def)
  then show thesis
  proof (rule that)
    let ?c' = "c\<lparr>c_stage := st, c_hist := h5 @ [?d, ?d'], c_disk := ?d'\<rparr>"
    show "\<forall>P. all_hist P c \<longrightarrow> (\<forall>u. P (set_file Binlog_tmp (Some u) (c_disk c))) \<longrightarrow>
       (\<forall>u. P ((set_file Binlog_tmp (Some u) (c_disk c))\<lparr>d_stage := st\<rparr>)) \<longrightarrow> P (c_disk ?c') \<longrightarrow> all_hist P ?c'"
      using 5(2) by (auto simp: all_hist_def)
  qed (use x in simp_all)
qed

section \<open>Recovery restores what the disk stands for\<close>

lemmas stands = stands_for_log_def stands_for_data_def log_restored_def committed_def

lemma text_of_simps [simp]: "text_of None = []" "text_of (Some t) = t"
  by (simp_all add: text_of_def)

text \<open>A state in the middle of a rollback: the data file is still to be put back.\<close>

definition rolling :: "compress_disk \<Rightarrow> bool" where
  "rolling d \<longleftrightarrow> d_stage d \<notin> {STORAGE_TRUNK_COMPRESS_STAGE_NONE, STORAGE_TRUNK_COMPRESS_STAGE_FINISHED} \<and> \<not> committed d"

text \<open>A disk with a known stage that stands for one of the pairs in \<open>V\<close>.\<close>

definition passes :: "(string \<times> string option) set \<Rightarrow> compress_disk \<Rightarrow> bool" where
  "passes V d \<longleftrightarrow> stands_for d \<in> V \<and> d_stage d \<in> {0 .. 9} \<and>
     (d_stage d = STORAGE_TRUNK_COMPRESS_STAGE_COMPRESS_SUCCESS \<longrightarrow> d_files d Data_file = None)"

lemma committed_set_file [simp]: "f \<noteq> Binlog_tmp \<Longrightarrow> committed (set_file f x d) = committed d"
  by (simp add: committed_def)

lemma rolling_set_file [simp]: "f \<noteq> Binlog_tmp \<Longrightarrow> rolling (set_file f x d) = rolling d"
  by (simp add: rolling_def)

lemma log_restored_set_file [simp]: "f \<noteq> Binlog_tmp \<Longrightarrow> log_restored (set_file f x d) = log_restored d"
  by (simp add: log_restored_def)

lemma stands_for_log_data [simp]:
  "stands_for_log (set_file Data_file x d) = stands_for_log d" "stands_for_log (set_file Data_rollback x d) = stands_for_log d"
  by (simp_all add: stands_for_log_def)

lemma stands_for_data_log [simp]:
  "stands_for_data (set_file Binlog x d) = stands_for_data d" "stands_for_data (set_file Binlog_rollback x d) = stands_for_data d"
  by (simp_all add: stands_for_data_def)

lemma rolling_data:
  "rolling d \<Longrightarrow> stands_for_data d =
     (if d_files d Data_rollback = None then d_files d Data_file
      else if d_files d Data_rollback = Some [] then None else d_files d Data_rollback)"
  by (auto simp: stands_for_data_def rolling_def)

lemma passes_rolling: "rolling d \<Longrightarrow> passes V d \<longleftrightarrow> stands_for d \<in> V \<and> 0 \<le> d_stage d \<and> d_stage d \<le> 9"
  by (auto simp: passes_def rolling_def committed_def)

lemma rollback_data_quiet:
  assumes x: "c_ext c = []" and r: "rolling (c_disk c)" and h: "all_hist (passes {R}) c" and R: "passes {R} (c_disk c)"
  obtains c' where "trunk_compress_rollback_data_file c = (0, c')" "c_ext c' = []" "c_open c' = c_open c"
    "rolling (c_disk c')" "all_hist (passes {R}) c'" "passes {R} (c_disk c')"
    "c_file c' Binlog = c_file c Binlog" "c_file c' Data_file = snd R"
proof (cases "c_file c Data_rollback")
  case None
  then have "trunk_compress_rollback_data_file c = (0, c)" using x by (simp add: trunk_compress_rollback_data_file_def quiet)
  with None x r h R that show thesis by (auto simp: rolling_data passes_rolling)
next
  case (Some t)
  let ?c2 = "if c_file c Data_file = None then c else put_file Data_file None c"
  let ?c3 = "if t = [] then put_file Data_rollback None ?c2
    else put_disk (set_file Data_rollback None (set_file Data_file (Some t) (c_disk ?c2))) ?c2"
  have "trunk_compress_rollback_data_file c = (0, ?c3)"
    using x Some by (simp add: trunk_compress_rollback_data_file_def quiet Let_def)
  moreover have "c_ext ?c3 = []" "c_open ?c3 = c_open c" "rolling (c_disk ?c3)" using r x by simp_all
  moreover have "all_hist (passes {R}) ?c3" "passes {R} (c_disk ?c3)"
    using r h R Some by (auto simp: rolling_data passes_rolling)
  moreover have "c_file ?c3 Binlog = c_file c Binlog" "c_file ?c3 Data_file = snd R" using r R Some by (auto simp: rolling_data passes_rolling)
  ultimately show thesis by (rule that)
qed

text \<open>Putting the binlog back.\<close>

lemma stands_for_stage:
  "rolling d \<Longrightarrow> \<not> log_restored d \<Longrightarrow>
     stands_for ((set_file Binlog_tmp (Some u) d)\<lparr>d_stage := STORAGE_TRUNK_COMPRESS_STAGE_ROLLBACK_MERGING\<rparr>) = stands_for d"
  "rolling d \<Longrightarrow> \<not> log_restored d \<Longrightarrow> stands_for (set_file Binlog_tmp (Some u) d) = stands_for d"
  by (auto simp: stands rolling_def)

lemma rollback_binlog_quiet:
  assumes x: "c_ext c = []" and r: "rolling (c_disk c)" "\<not> log_restored (c_disk c)"
    and h: "all_hist (passes {R}) c" and R: "passes {R} (c_disk c)"
  obtains c' where "trunk_compress_rollback_binlog_file c = (0, c')" "c_ext c' = []" "c_open c' = c_open c"
    "rolling (c_disk c')" "all_hist (passes {R}) c'" "passes {R} (c_disk c')" "text_of (c_file c' Binlog) = fst R"
proof -
  have l: "fst R = text_of (c_file c Binlog_rollback) @ text_of (c_file c Binlog)" using R r by (auto simp: stands_for_log_def passes_rolling)
  consider (none) "c_file c Binlog_rollback = None" | (empty) "c_file c Binlog_rollback = Some []"
    | (move) t where "c_file c Binlog_rollback = Some t" "t \<noteq> []" "c_file c Binlog = None"
    | (merge) t u where "c_file c Binlog_rollback = Some t" "t \<noteq> []" "c_file c Binlog = Some u" by (metis option.exhaust)
  then show thesis
  proof cases
    case none
    then have "trunk_compress_rollback_binlog_file c = (0, c)" using x by (simp add: trunk_compress_rollback_binlog_file_def quiet)
    with none x r h R l that show thesis by simp
  next
    case empty
    let ?c = "put_file Binlog_rollback None c"
    have "trunk_compress_rollback_binlog_file c = (0, ?c)" using x empty by (simp add: trunk_compress_rollback_binlog_file_def quiet)
    moreover have "passes {R} (c_disk ?c)" using R r empty by (auto simp: stands_for_log_def passes_rolling)
    ultimately show thesis using that [of ?c] empty x r h l by simp
  next
    case (move t)
    let ?d = "set_file Binlog_rollback None (set_file Binlog (Some t) (c_disk c))"
    have "trunk_compress_rollback_binlog_file c = (0, put_disk ?d c)" using x move by (simp add: trunk_compress_rollback_binlog_file_def quiet)
    moreover have "passes {R} ?d" using R r move by (auto simp: stands_for_log_def passes_rolling)
    ultimately show thesis using that [of "put_disk ?d c"] move x r h l by simp
  next
    case (merge t u)
    obtain c1 where m: "trunk_binlog_merge_file t STORAGE_TRUNK_COMPRESS_STAGE_ROLLBACK_MERGING c = (0, c1)"
      "c_ext c1 = []" "c_stage c1 = STORAGE_TRUNK_COMPRESS_STAGE_ROLLBACK_MERGING" "c_open c1 = c_open c"
      "c_cache c1 = c_cache c" "c_version c1 = c_version c" "c_disk c1 = (set_file Binlog_tmp None (set_file Binlog (Some (t @ u)) (c_disk c)))\<lparr>d_stage := STORAGE_TRUNK_COMPRESS_STAGE_ROLLBACK_MERGING\<rparr>"
      "\<forall>P. all_hist P c \<longrightarrow> (\<forall>u. P (set_file Binlog_tmp (Some u) (c_disk c))) \<longrightarrow>
         (\<forall>u. P ((set_file Binlog_tmp (Some u) (c_disk c))\<lparr>d_stage := STORAGE_TRUNK_COMPRESS_STAGE_ROLLBACK_MERGING\<rparr>)) \<longrightarrow> P (c_disk c1) \<longrightarrow> all_hist P c1"
      by (rule merge_file_quiet [OF x, of t STORAGE_TRUNK_COMPRESS_STAGE_ROLLBACK_MERGING, unfolded merge(3) text_of_simps])
    let ?c2 = "put_disk ((c_disk c1)\<lparr>d_stage := STORAGE_TRUNK_COMPRESS_STAGE_ROLLBACK_MERGE_DONE\<rparr>)
      (c1\<lparr>c_stage := STORAGE_TRUNK_COMPRESS_STAGE_ROLLBACK_MERGE_DONE\<rparr>)"
    let ?c3 = "put_file Binlog_rollback None ?c2"
    have run: "trunk_compress_rollback_binlog_file c = (0, ?c3)"
      using x merge m(1,2,7) by (simp add: trunk_compress_rollback_binlog_file_def quiet)
    have data: "stands_for_data (c_disk c) = snd R" using R by (auto simp: passes_def)
    have sf: "passes {R} (c_disk c1)" "passes {R} (c_disk ?c2)" "passes {R} (c_disk ?c3)"
      using l data r(1) merge unfolding m(7) by (auto simp: stands rolling_def prod_eq_iff passes_def)
    have "all_hist (passes {R}) c1"
      by (rule m(8) [rule_format, OF h]) (use stands_for_stage [OF r] R sf(1) in \<open>auto simp: passes_def\<close>)
    then show thesis using that [OF run] sf m(2,4,7) l merge by (simp add: rolling_def committed_def)
  qed
qed

lemma close_nothing:
  assumes "c_ext c = []" "c_cache c = []"
  shows "close_if_open (c_open c) c = c\<lparr>c_open := False\<rparr>"
  using assms close_if_open_quiet [of c] by (cases "c_open c") (simp_all add: close_if_open_def)

lemma open_again:
  assumes "c_ext c = []" "rolling (c_disk c)" "all_hist (passes {R}) c" "passes {R} (c_disk c)"
    "text_of (c_file c Binlog) = l" "c_file c Data_file = t"
  obtains c' where "(if b then trunk_binlog_open_writer c else (0, c)) = (0, c')" "c_ext c' = []" "rolling (c_disk c')"
    "all_hist (passes {R}) c'" "passes {R} (c_disk c')" "text_of (c_file c' Binlog) = l" "c_file c' Data_file = t"
proof -
  let ?c = "if b then (if c_file c Binlog = None then put_file Binlog (Some []) c else c)\<lparr>c_open := True\<rparr> else c"
  have "(if b then trunk_binlog_open_writer c else (0, c)) = (0, ?c)" using assms(1) by (simp add: quiet)
  moreover have "c_ext ?c = []" "rolling (c_disk ?c)" using assms(1,2) by simp_all
  moreover have "all_hist (passes {R}) ?c" "passes {R} (c_disk ?c)" "text_of (c_file ?c Binlog) = l" "c_file ?c Data_file = t"
    using assms(2-) by (auto simp: stands_for_log_def passes_rolling)
  ultimately show thesis by (rule that)
qed

text \<open>A run that ends in a stage without work left, on a disk for the same binlog and data file.\<close>

definition recovers :: "string \<times> string option \<Rightarrow> int \<times> compress_state \<Rightarrow> bool" where
  "recovers R r \<longleftrightarrow> fst r = 0 \<and> passes {R} (c_disk (snd r)) \<and> all_hist (passes {R}) (snd r) \<and>
     d_stage (c_disk (snd r)) \<in> {STORAGE_TRUNK_COMPRESS_STAGE_NONE, STORAGE_TRUNK_COMPRESS_STAGE_FINISHED}"

lemma compress_rollback_quiet:
  assumes x: "c_ext c = []" "c_cache c = []" and r: "rolling (c_disk c)"
    and h: "all_hist (passes {R}) c" and R: "passes {R} (c_disk c)"
    and l: "log_restored (c_disk c) \<Longrightarrow> c_file c Binlog_rollback = None"
  shows "recovers R (trunk_binlog_compress_rollback c)"
proof -
  let ?c0 = "c\<lparr>c_open := False\<rparr>"
  have c0: "close_if_open (c_open c) c = ?c0" by (rule close_nothing [OF x])
  obtain c1 where c1: "trunk_compress_rollback_binlog_file ?c0 = (0, c1)" "c_ext c1 = []" "rolling (c_disk c1)"
    "all_hist (passes {R}) c1" "passes {R} (c_disk c1)" "text_of (c_file c1 Binlog) = fst R"
  proof (cases "log_restored (c_disk c)")
    case True
    then have "trunk_compress_rollback_binlog_file ?c0 = (0, ?c0)" "text_of (c_file c Binlog) = fst R"
      using l x R by (auto simp: trunk_compress_rollback_binlog_file_def quiet stands_for_log_def passes_def)
    with x r h R that [of ?c0] show thesis by simp
  next
    case False
    with rollback_binlog_quiet [of ?c0 R] x r h R that show thesis by (auto elim: meta_impE)
  qed
  obtain c2 where c2: "trunk_compress_rollback_data_file c1 = (0, c2)" "c_ext c2 = []" "c_open c2 = c_open c1"
    "rolling (c_disk c2)" "all_hist (passes {R}) c2" "passes {R} (c_disk c2)"
    "c_file c2 Binlog = c_file c1 Binlog" "c_file c2 Data_file = snd R" by (rule rollback_data_quiet [OF c1(2-5)])
  have "text_of (c_file c2 Binlog) = fst R" using c1(6) c2(7) by simp
  then obtain c3 where c3: "(if c_open c then trunk_binlog_open_writer c2 else (0, c2)) = (0, c3)" "c_ext c3 = []" "rolling (c_disk c3)"
    "all_hist (passes {R}) c3" "passes {R} (c_disk c3)" "text_of (c_file c3 Binlog) = fst R" "c_file c3 Data_file = snd R"
    by (rule open_again [OF c2(2,4,5,6) _ c2(8)])
  have "do_compress_rollback c = (0, c3)" using c0 c1(1) c2(1) c3(1) by (simp add: do_compress_rollback_def Let_def)
  then have "trunk_binlog_compress_rollback c = (0, enter_stage STORAGE_TRUNK_COMPRESS_STAGE_FINISHED c3)"
    by (simp add: trunk_binlog_compress_rollback_def)
  moreover have "passes {R} ((c_disk c3)\<lparr>d_stage := STORAGE_TRUNK_COMPRESS_STAGE_FINISHED\<rparr>)" using c3(6,7) by (simp add: stands prod_eq_iff passes_def)
  ultimately show ?thesis using c3(2,4) by (simp add: quiet recovers_def)
qed

lemma stands_for_marks [simp]:
  "stands_for_log (d\<lparr>d_marks := ms\<rparr>) = stands_for_log d" "stands_for_data (d\<lparr>d_marks := ms\<rparr>) = stands_for_data d"
  by (simp_all add: stands)

lemma unlink_marks_quiet:
  assumes "c_ext c = []" "all_hist Q c" "\<forall>ms. Q ((c_disk c)\<lparr>d_marks := ms\<rparr>)"
  shows "\<exists>c' ms'. unlink_marks ms c = (0, c') \<and> c_ext c' = [] \<and> c_disk c' = (c_disk c)\<lparr>d_marks := ms'\<rparr> \<and>
    c_stage c' = c_stage c \<and> all_hist Q c'"
  using assms
proof (induction ms arbitrary: c)
  case Nil
  then show ?case by (auto intro!: exI [of _ "d_marks (c_disk c)"])
next
  case (Cons m ms)
  let ?c = "put_disk ((c_disk c)\<lparr>d_marks := removeAll m (d_marks (c_disk c))\<rparr>) c"
  have "unlink_marks (m # ms) c = unlink_marks ms ?c" using Cons.prems(1) by (simp add: quiet)
  moreover have "\<exists>c' ms'. unlink_marks ms ?c = (0, c') \<and> c_ext c' = [] \<and> c_disk c' = (c_disk ?c)\<lparr>d_marks := ms'\<rparr> \<and>
      c_stage c' = c_stage ?c \<and> all_hist Q c'"
    by (rule Cons.IH) (use Cons.prems in auto)
  ultimately show ?case by simp
qed

lemma finish_compress_quiet:
  assumes x: "c_ext c = []" and h: "all_hist (passes {R}) c" and R: "passes {R} (c_disk c)"
    and c: "committed (c_disk c)" "c_file c Data_file = None"
  shows "recovers R (finish_compress c)"
proof -
  obtain c1 ms where c1: "unlink_marks (d_marks (c_disk c)) c = (0, c1)" "c_ext c1 = []" "c_disk c1 = (c_disk c)\<lparr>d_marks := ms\<rparr>"
    "all_hist (passes {R}) c1"
  proof -
    have "\<forall>ms. passes {R} ((c_disk c)\<lparr>d_marks := ms\<rparr>)" using R by (simp add: passes_def)
    from unlink_marks_quiet [OF x h this, of "d_marks (c_disk c)"] that show thesis by blast
  qed
  let ?d = "(c_disk c1)\<lparr>d_stage := STORAGE_TRUNK_COMPRESS_STAGE_FINISHED\<rparr>"
  have "finish_compress c = (0, put_disk ?d (c1\<lparr>c_stage := STORAGE_TRUNK_COMPRESS_STAGE_FINISHED\<rparr>))"
    using x c1(1,2) by (simp add: finish_compress_def trunk_unlink_all_mark_files_def storage_write_to_sync_ini_file_def quiet)
  moreover have "passes {R} ?d" using R c by (auto simp: c1(3) stands passes_def)
  ultimately show ?thesis using c1(4) by (simp add: recovers_def)
qed

lemma delete_temp_files_quiet:
  assumes x: "c_ext c = []" and h: "all_hist Q c" and R: "stands_for (c_disk c) = R" and c: "committed (c_disk c)"
    and Q: "\<And>d. d_stage d = d_stage (c_disk c) \<Longrightarrow> stands_for d = R \<Longrightarrow> Q d"
  obtains c' where "trunk_binlog_compress_delete_temp_files_after_commit c = (0, c')" "c_ext c' = []" "c_stage c' = c_stage c"
    "c_open c' = c_open c" "c_cache c' = c_cache c" "committed (c_disk c')" "c_file c' Data_file = None" "c_file c' Binlog = c_file c Binlog"
    "all_hist Q c'" "stands_for (c_disk c') = R" "d_stage (c_disk c') = d_stage (c_disk c)"
proof -
  have d: "d_stage (c_disk c) \<notin> {STORAGE_TRUNK_COMPRESS_STAGE_NONE, STORAGE_TRUNK_COMPRESS_STAGE_FINISHED}" using c by (auto simp: committed_def)
  let ?c1 = "if c_file c Data_file = None then c else put_file Data_file None c"
  let ?c2 = "if c_file c Binlog_rollback = None then ?c1 else put_file Binlog_rollback None ?c1"
  let ?c3 = "if c_file c Data_rollback = None then ?c2 else put_file Data_rollback None ?c2"
  have "trunk_binlog_compress_delete_temp_files_after_commit c = (0, ?c3)"
    using x by (auto simp: trunk_binlog_compress_delete_temp_files_after_commit_def trunk_binlog_compress_delete_rollback_files_def
        trunk_binlog_compress_delete_binlog_rollback_file_def quiet)
  moreover have "c_ext ?c3 = []" "c_stage ?c3 = c_stage c" "c_open ?c3 = c_open c" "c_cache ?c3 = c_cache c" using x by simp_all
  moreover have "committed (c_disk ?c3)" "c_file ?c3 Data_file = None" "c_file ?c3 Binlog = c_file c Binlog" using c by simp_all
  moreover have sf: "stands_for (set_file f y d') = R" if "committed d'" "d_stage d' = d_stage (c_disk c)" "stands_for d' = R"
      "f \<in> {Data_file, Binlog_rollback, Data_rollback}" for f y d'
    using that d by (auto simp: stands_for_log_def stands_for_data_def log_restored_def)
  have "all_hist Q ?c3" "stands_for (c_disk ?c3) = R" "d_stage (c_disk ?c3) = d_stage (c_disk c)" using h R c sf by (auto intro!: Q)
  ultimately show thesis by (intro that)
qed

lemma restart_facts:
  assumes "c = restart w d" "passes {stands_for d} d"
  shows "c_ext c = []" "c_cache c = []" "c_stage c = d_stage d" "all_hist (passes {stands_for d}) c"
    "passes {stands_for d} (c_disk c)" "d_stage (c_disk c) = d_stage d" "c_file c Binlog_tmp = d_files d Binlog_tmp"
    "c_file c Data_file = d_files d Data_file" "c_file c Binlog_rollback = d_files d Binlog_rollback"
    "rolling (c_disk c) = rolling d" "log_restored (c_disk c) = log_restored d" "committed (c_disk c) = committed d"
  using assms(2) unfolding assms(1) by (auto simp: restart_def quiet Let_def all_hist_def put_file_def put_disk_def stands_for_log_def passes_def)

text \<open>
  Starting on any disk: the recovery succeeds, and every state of the disk it passes through
  stands for the same binlog and data file.
\<close>

lemma check_recovery_quiet:
  assumes p: "passes {stands_for d} d"
  shows "recovers (stands_for d) (storage_trunk_binlog_compress_check_recovery (restart w d))"
proof -
  define c where "c = restart w d"
  note f = restart_facts [OF c_def p]
  have st: "d_stage d \<in> {0 .. 9}" and v: "d_stage d = STORAGE_TRUNK_COMPRESS_STAGE_COMPRESS_SUCCESS \<Longrightarrow> d_files d Data_file = None"
    using p by (simp_all add: passes_def)
  have st10: "d_stage d = 0 \<or> d_stage d = 1 \<or> d_stage d = 2 \<or> d_stage d = 3 \<or> d_stage d = 4 \<or>
      d_stage d = 5 \<or> d_stage d = 6 \<or> d_stage d = 7 \<or> d_stage d = 8 \<or> d_stage d = 9"
    using st unfolding atLeastAtMost_iff by presburger
  consider (idle) "d_stage d \<in> {0, 9}" | (rolled) "d_stage d \<in> {1, 2, 3} \<or> d_stage d \<in> {4, 7} \<and> d_files d Binlog_tmp \<noteq> None"
    | (merged) "d_stage d = 8 \<or> d_stage d = 7 \<and> d_files d Binlog_tmp = None"
    | (forward) "d_stage d = 5 \<or> d_stage d = 4 \<and> d_files d Binlog_tmp = None" | (success) "d_stage d = 6"
    using st10 by (cases "d_files d Binlog_tmp = None") auto
  then have "recovers (stands_for d) (storage_trunk_binlog_compress_check_recovery c)"
  proof cases
    case idle
    then have "storage_trunk_binlog_compress_check_recovery c = (0, c)"
      using f(3) by (auto simp: storage_trunk_binlog_compress_check_recovery_def)
    with f(4,5,6) idle show ?thesis by (auto simp: recovers_def)
  next
    case rolled
    have "rolling d" "\<not> log_restored d" using rolled by (auto simp: rolling_def log_restored_def committed_def)
    then have "recovers (stands_for d) (trunk_binlog_compress_rollback c)"
      using compress_rollback_quiet [OF f(1,2) _ f(4,5)] f(10,11) by blast
    moreover have "storage_trunk_binlog_compress_check_recovery c = trunk_binlog_compress_rollback c"
      using rolled f(1,3,7) by (auto simp: storage_trunk_binlog_compress_check_recovery_def merge_was_done_def quiet Let_def)
    ultimately show ?thesis by simp
  next
    case merged
    let ?c1 = "c\<lparr>c_stage := STORAGE_TRUNK_COMPRESS_STAGE_ROLLBACK_MERGE_DONE\<rparr>"
    let ?c2 = "if c_file c Binlog_rollback = None then ?c1 else put_file Binlog_rollback None ?c1"
    have rl: "rolling d" "log_restored d" using merged by (auto simp: rolling_def log_restored_def committed_def)
    have "storage_trunk_binlog_compress_check_recovery c = trunk_binlog_compress_rollback ?c2"
      using merged f(1,3,7) by (auto simp: storage_trunk_binlog_compress_check_recovery_def merge_was_done_def quiet Let_def
          trunk_binlog_compress_delete_binlog_rollback_file_def)
    moreover have "recovers (stands_for d) (trunk_binlog_compress_rollback ?c2)"
    proof (rule compress_rollback_quiet)
      show "c_ext ?c2 = []" "c_cache ?c2 = []" "c_file ?c2 Binlog_rollback = None" using f(1,2) by simp_all
      show "rolling (c_disk ?c2)" using rl f(10) by simp
      have "passes {stands_for d} (set_file Binlog_rollback None (c_disk c))" using rl f(5,11) by (simp add: stands_for_log_def passes_def)
      then show "all_hist (passes {stands_for d}) ?c2" "passes {stands_for d} (c_disk ?c2)" using f(4,5) by simp_all
    qed
    ultimately show ?thesis by simp
  next
    case forward
    let ?c1 = "c\<lparr>c_stage := STORAGE_TRUNK_COMPRESS_STAGE_COMMIT_MERGE_DONE\<rparr>"
    have cm: "committed (c_disk ?c1)" using forward f(12) by (auto simp: committed_def)
    have "c_ext ?c1 = []" "all_hist (passes {stands_for d}) ?c1" "stands_for (c_disk ?c1) = stands_for d"
      using f(1,4,5) by (simp_all add: passes_def)
    moreover have "passes {stands_for d} d'" if "d_stage d' = d_stage (c_disk ?c1)" "stands_for d' = stands_for d" for d'
      using that forward f(6) by (auto simp: passes_def)
    ultimately obtain c2 where c2: "trunk_binlog_compress_delete_temp_files_after_commit ?c1 = (0, c2)" "c_ext c2 = []" "c_stage c2 = c_stage ?c1"
      "c_open c2 = c_open ?c1" "c_cache c2 = c_cache ?c1" "committed (c_disk c2)" "c_file c2 Data_file = None" "c_file c2 Binlog = c_file ?c1 Binlog"
      "all_hist (passes {stands_for d}) c2" "stands_for (c_disk c2) = stands_for d"
      "d_stage (c_disk c2) = d_stage (c_disk ?c1)" by (rule delete_temp_files_quiet [OF _ _ _ cm])
    have "storage_trunk_binlog_compress_check_recovery c = finish_compress c2"
      using forward f(1,3,7) c2(1)
      by (auto simp: storage_trunk_binlog_compress_check_recovery_def merge_was_done_def quiet Let_def)
    moreover have "passes {stands_for d} (c_disk c2)" using c2(7,10,11) f(6) st by (simp add: passes_def)
    ultimately show ?thesis using finish_compress_quiet [OF c2(2,9) _ c2(6,7)] by simp
  next
    case success
    have "storage_trunk_binlog_compress_check_recovery c = finish_compress c"
      using success f(3) by (simp add: storage_trunk_binlog_compress_check_recovery_def merge_was_done_def Let_def)
    moreover have "committed (c_disk c)" "c_file c Data_file = None" using success f(8,12) v by (simp_all add: committed_def)
    ultimately show ?thesis using finish_compress_quiet [OF f(1,4,5)] by simp
  qed
  then show ?thesis by (simp add: c_def)
qed

section \<open>A compression can stop anywhere\<close>

lemma passes_early:
  assumes "d_stage d \<in> {1, 2, 3}"
  shows "passes V d \<longleftrightarrow> (text_of (d_files d Binlog_rollback) @ text_of (d_files d Binlog),
     if d_files d Data_rollback = None then d_files d Data_file
     else if d_files d Data_rollback = Some [] then None else d_files d Data_rollback) \<in> V"
  using assms by (auto simp: passes_def stands)

lemma passes_mono: "all_hist (passes V) c \<Longrightarrow> V \<subseteq> W \<Longrightarrow> all_hist (passes W) c"
  by (auto simp: all_hist_def passes_def)

lemma begin_quiet:
  assumes x: "c_ext c = []" and f: "c_file c Binlog = Some L" and h: "c_hist c = []" and V: "(L, c_file c Data_file) \<in> V"
    and st: "d_stage (c_disk c) \<in> {STORAGE_TRUNK_COMPRESS_STAGE_NONE, STORAGE_TRUNK_COMPRESS_STAGE_FINISHED}"
  obtains c1 c2 where "trunk_binlog_compress_delete_rollback_files c = (0, c1)" "c2 = enter_stage STORAGE_TRUNK_COMPRESS_STAGE_COMPRESS_BEGIN c1"
    "c_ext c2 = []" "c_open c2 = c_open c" "c_cache c2 = c_cache c" "c_file c2 Binlog = Some L" "c_file c2 Binlog_rollback = None"
    "c_file c2 Data_rollback = None" "c_file c2 Data_file = c_file c Data_file" "d_stage (c_disk c2) = STORAGE_TRUNK_COMPRESS_STAGE_COMPRESS_BEGIN"
    "all_hist (passes V) c2"
proof -
  define c0 where "c0 = (if c_file c Binlog_rollback = None then c else put_file Binlog_rollback None c)"
  define c1 where "c1 = (if c_file c Data_rollback = None then c0 else put_file Data_rollback None c0)"
  have d: "trunk_binlog_compress_delete_rollback_files c = (0, c1)"
    using x by (auto simp: trunk_binlog_compress_delete_rollback_files_def trunk_binlog_compress_delete_binlog_rollback_file_def
        c0_def c1_def quiet)
  have c1: "c_ext c1 = []" "c_open c1 = c_open c" "c_cache c1 = c_cache c" "c_file c1 Binlog = Some L" "c_file c1 Binlog_rollback = None"
    "c_file c1 Data_rollback = None" "c_file c1 Data_file = c_file c Data_file" using x f by (auto simp: c0_def c1_def)
  have "all_hist (passes V) c0" using h V f st by (auto simp: c0_def all_hist_def put_file_def put_disk_def passes_def stands)
  then have h1: "all_hist (passes V) c1" using V f st by (auto simp: c0_def c1_def passes_def stands)
  show thesis
    by (rule that [OF d refl]) (use c1 h1 V in \<open>auto simp: quiet passes_early\<close>)
qed

lemma apply_quiet:
  assumes x: "c_ext c = []" "c_open c" and f: "c_file c Binlog = Some L" "c_file c Binlog_rollback = None" "c_file c Data_rollback = None"
    and D: "c_file c Data_file \<noteq> Some []" and st: "d_stage (c_disk c) = STORAGE_TRUNK_COMPRESS_STAGE_COMPRESS_BEGIN"
    and h: "all_hist (passes V) c" and V: "(L, c_file c Data_file) \<in> V" "(L @ c_cache c, c_file c Data_file) \<in> V"
  obtains c' where "trunk_binlog_compress_apply c = (0, c')" "c_ext c' = []" "c_open c'" "c_cache c' = []" "c_stage c' = c_stage c"
    "d_stage (c_disk c') = STORAGE_TRUNK_COMPRESS_STAGE_COMPRESS_BEGIN" "c_file c' Binlog = Some []"
    "c_file c' Binlog_rollback = Some (L @ c_cache c)" "c_file c' Data_file = None"
    "c_file c' Data_rollback = Some (text_of (c_file c Data_file))" "all_hist (passes V) c'"
proof -
  let ?L = "L @ c_cache c"
  define c1 where "c1 = close_if_open True c"
  have c1: "c_ext c1 = []" "c_cache c1 = []" "c_stage c1 = c_stage c" "c_file c1 Binlog = Some ?L" "c_file c1 Binlog_rollback = None"
    "c_file c1 Data_rollback = None" "c_file c1 Data_file = c_file c Data_file" "d_stage (c_disk c1) = STORAGE_TRUNK_COMPRESS_STAGE_COMPRESS_BEGIN"
    using x f st by (simp_all add: c1_def close_if_open_quiet)
  have h1: "all_hist (passes V) c1" using x f st h V by (auto simp: c1_def close_if_open_quiet passes_early)
  define c2 where "c2 = (if c_file c Data_file = None then put_file Data_rollback (Some []) c1
    else put_disk (set_file Data_file None (set_file Data_rollback (c_file c Data_file) (c_disk c1))) c1)"
  have c2: "c_ext c2 = []" "c_cache c2 = []" "c_stage c2 = c_stage c" "c_file c2 Binlog = Some ?L" "c_file c2 Binlog_rollback = None"
    "c_file c2 Data_rollback = Some (text_of (c_file c Data_file))" "c_file c2 Data_file = None" "d_stage (c_disk c2) = STORAGE_TRUNK_COMPRESS_STAGE_COMPRESS_BEGIN"
    "all_hist (passes V) c2"
    using c1 h1 V D by (auto simp: passes_early c2_def)
  have VD: "(?L, if text_of (c_file c Data_file) = [] then None else Some (text_of (c_file c Data_file))) \<in> V"
    using V(2) D by (cases "c_file c Data_file") auto
  let ?c3 = "put_disk (set_file Binlog None (set_file Binlog_rollback (Some ?L) (c_disk c2))) c2"
  have "set_aside c1 = (0, ?c3)"
    using c1 c2(1,4) by (simp add: set_aside_def quiet c2_def)
  moreover have "all_hist (passes V) ?c3" using c2 VD by (auto simp: passes_early split: if_splits)
  moreover have "trunk_binlog_compress_apply c = (case set_aside c1 of (result, c1) \<Rightarrow>
      (case trunk_binlog_open_writer c1 of (open_res, c2) \<Rightarrow>
         if open_res \<noteq> 0 then (if result = 0 then open_res else result,
            snd (trunk_compress_rollback_data_file (snd (trunk_binlog_rename_file Binlog_rollback Binlog c2)))) else (result, c2)))"
    using x f(1) by (simp add: trunk_binlog_compress_apply_def quiet c1_def)
  ultimately have "trunk_binlog_compress_apply c = (0, (put_file Binlog (Some []) ?c3)\<lparr>c_open := True\<rparr>)" "all_hist (passes V) (put_file Binlog (Some []) ?c3)"
    using c2 VD by (auto simp: quiet passes_early split: if_splits)
  then show thesis using c2 by (intro that [of "(put_file Binlog (Some []) ?c3)\<lparr>c_open := True\<rparr>"]) simp_all
qed

lemma commit_quiet:
  assumes x: "c_ext c = []" "c_open c" "c_cache c = []" and f: "c_file c Binlog = Some []" "c_file c Data_file = Some t"
    and st: "d_stage (c_disk c) = STORAGE_TRUNK_COMPRESS_STAGE_SAVE_DONE"
    and h: "all_hist (passes V) c" and V: "stands_for (c_disk c) \<in> V" "(skip_line t, None) \<in> V"
  obtains c' where "trunk_binlog_compress_commit skip_line c = (0, c')" "c_ext c' = []" "c_stage c' = STORAGE_TRUNK_COMPRESS_STAGE_COMPRESS_SUCCESS"
    "stands_for (c_disk c') = (skip_line t, None)" "all_hist (passes V) c'" "c_open c'" "c_file c' Data_file = None"
    "d_stage (c_disk c') = STORAGE_TRUNK_COMPRESS_STAGE_COMPRESS_SUCCESS"
proof -
  let ?R = "(skip_line t, None :: string option)"
  let ?c0 = "c\<lparr>c_open := False\<rparr>"
  have c0: "close_if_open True c = ?c0" using x by (simp add: close_if_open_quiet)
  have "c_ext ?c0 = []" using x by simp
  then obtain c1 where m: "trunk_binlog_merge_file (skip_line t) STORAGE_TRUNK_COMPRESS_STAGE_COMMIT_MERGING ?c0 = (0, c1)"
    "c_ext c1 = []" "c_stage c1 = STORAGE_TRUNK_COMPRESS_STAGE_COMMIT_MERGING" "c_open c1 = c_open ?c0" "c_cache c1 = c_cache ?c0" "c_version c1 = c_version ?c0"
    "c_disk c1 = (set_file Binlog_tmp None (set_file Binlog (Some (skip_line t @ text_of (c_file ?c0 Binlog))) (c_disk ?c0)))\<lparr>d_stage := STORAGE_TRUNK_COMPRESS_STAGE_COMMIT_MERGING\<rparr>"
    "\<forall>P. all_hist P ?c0 \<longrightarrow> (\<forall>u. P (set_file Binlog_tmp (Some u) (c_disk ?c0))) \<longrightarrow>
       (\<forall>u. P ((set_file Binlog_tmp (Some u) (c_disk ?c0))\<lparr>d_stage := STORAGE_TRUNK_COMPRESS_STAGE_COMMIT_MERGING\<rparr>)) \<longrightarrow> P (c_disk c1) \<longrightarrow> all_hist P c1"
    by (rule merge_file_quiet)
  have d1: "c_disk c1 = (set_file Binlog_tmp None (set_file Binlog (Some (skip_line t)) (c_disk c)))\<lparr>d_stage := STORAGE_TRUNK_COMPRESS_STAGE_COMMIT_MERGING\<rparr>"
    using m(7) f by simp
  have sf: "stands_for (c_disk c1) = ?R" "committed (c_disk c1)" by (auto simp: d1 stands)
  have h1: "all_hist (passes V) c1"
  proof (rule m(8) [rule_format])
    show "all_hist (passes V) ?c0" using h by simp
    show "passes V (set_file Binlog_tmp (Some u) (c_disk ?c0))" for u using V(1) st by (auto simp: passes_def stands)
    show "passes V ((set_file Binlog_tmp (Some u) (c_disk ?c0))\<lparr>d_stage := STORAGE_TRUNK_COMPRESS_STAGE_COMMIT_MERGING\<rparr>)" for u
      using V(1) st by (auto simp: passes_def stands)
    show "passes V (c_disk c1)" using V(2) sf unfolding passes_def by (simp add: d1)
  qed
  let ?c2 = "enter_stage STORAGE_TRUNK_COMPRESS_STAGE_COMMIT_MERGE_DONE c1"
  have c2: "c_ext ?c2 = []" "committed (c_disk ?c2)" "stands_for (c_disk ?c2) = ?R"
    using m(2) by (auto simp: quiet d1 stands)
  have h2: "all_hist (passes V) ?c2" using h1 V(2) c2(3) m(2) by (auto simp: quiet passes_def d1)
  have Q: "passes V d" if "d_stage d = d_stage (c_disk ?c2)" "stands_for d = ?R" for d
    using that V(2) m(2) by (auto simp: passes_def quiet)
  obtain c3 where c3: "trunk_binlog_compress_delete_temp_files_after_commit ?c2 = (0, c3)" "c_ext c3 = []" "c_stage c3 = c_stage ?c2"
    "c_open c3 = c_open ?c2" "c_cache c3 = c_cache ?c2" "committed (c_disk c3)" "c_file c3 Data_file = None" "c_file c3 Binlog = c_file ?c2 Binlog"
    "all_hist (passes V) c3" "stands_for (c_disk c3) = ?R" "d_stage (c_disk c3) = d_stage (c_disk ?c2)"
    by (rule delete_temp_files_quiet [OF c2(1) h2 c2(3,2) Q])
  let ?c4 = "enter_stage STORAGE_TRUNK_COMPRESS_STAGE_COMPRESS_SUCCESS c3"
  have b: "c_file c3 Binlog = Some (skip_line t)" using c3(8) m(2) by (simp add: quiet d1)
  have c4: "c_ext ?c4 = []" "c_file ?c4 Binlog = Some (skip_line t)" "c_stage ?c4 = STORAGE_TRUNK_COMPRESS_STAGE_COMPRESS_SUCCESS"
    "stands_for (c_disk ?c4) = ?R" "c_file ?c4 Data_file = None" "d_stage (c_disk ?c4) = STORAGE_TRUNK_COMPRESS_STAGE_COMPRESS_SUCCESS"
    using c3(2,7) b by (auto simp: quiet stands)
  have h4: "all_hist (passes V) ?c4" using c3(2,9) c4(4,5) V(2) by (auto simp: quiet passes_def)
  have "trunk_binlog_compress_commit skip_line c = (0, ?c4\<lparr>c_open := True\<rparr>)"
    using x f m(1) c0 c3(1) c4(1,2) by (simp add: trunk_binlog_compress_commit_def c_access_quiet open_writer_quiet Let_def)
  then show thesis using that [of "?c4\<lparr>c_open := True\<rparr>"] c4 h4 by simp
qed

text \<open>
  What the compression relies on when it saves the free blocks to the data file, right after
  the binlog was set aside: a first line with a number, and the lines of the blocks. The
  other files stay as they are.
\<close>

locale data_saver =
  fixes save :: "'s saver" and ready :: "'s \<Rightarrow> bool" and lines_of :: "'s \<Rightarrow> 's \<Rightarrow> string \<Rightarrow> bool"
  assumes save_quiet: "c_ext c = [] \<Longrightarrow> c_open c \<Longrightarrow> c_cache c = [] \<Longrightarrow> c_file c Binlog = Some [] \<Longrightarrow> ready s \<Longrightarrow>
    \<exists>c' s' hdr ls. save c s = (0, c', s') \<and> c_ext c' = [] \<and> c_open c' \<and> c_cache c' = [] \<and>
      c_disk c' = set_file Data_file (Some (hdr @ [CHR 0x0A] @ ls)) (c_disk c) \<and> CHR 0x0A \<notin> set hdr \<and> length hdr < 31 \<and>
      lines_of s s' ls \<and> (\<forall>P. all_hist P c \<and> P (c_disk c) \<and> P (c_disk c') \<longrightarrow> all_hist P c')"
begin

text \<open>
  A compression that no call fails ends with the saved lines as the binlog, and wherever
  it stops before, the disk stands for the old files or for the new binlog.
\<close>

lemma compress_run_quiet:
  assumes x: "c_ext c = []" "c_open c" and f: "c_file c Binlog = Some L" and D: "c_file c Data_file \<noteq> Some []"
    and st: "d_stage (c_disk c) \<in> {STORAGE_TRUNK_COMPRESS_STAGE_NONE, STORAGE_TRUNK_COMPRESS_STAGE_FINISHED}"
    and h: "c_hist c = []" and s: "ready s"
    and skip: "\<And>hdr ls. CHR 0x0A \<notin> set hdr \<Longrightarrow> length hdr < 31 \<Longrightarrow> skip_line (hdr @ [CHR 0x0A] @ ls) = ls"
  shows "\<exists>ctl' c' s' ls. compress_run save skip_line stop ctl c s = (0, ctl', c', s') \<and> lines_of s s' ls \<and>
     stands_for (c_disk c') = (ls, None) \<and> c_stage c' = STORAGE_TRUNK_COMPRESS_STAGE_COMPRESS_SUCCESS \<and>
     all_hist (passes {(L, c_file c Data_file), (L @ c_cache c, c_file c Data_file), (ls, None)}) c'"
proof -
  let ?D = "c_file c Data_file" and ?L = "L @ c_cache c"
  let ?V = "{(L, ?D), (?L, ?D)}"
  have V: "(L, ?D) \<in> ?V" by simp
  obtain c1 c2 where 1: "trunk_binlog_compress_delete_rollback_files c = (0, c1)" "c2 = enter_stage STORAGE_TRUNK_COMPRESS_STAGE_COMPRESS_BEGIN c1"
    "c_ext c2 = []" "c_open c2 = c_open c" "c_cache c2 = c_cache c" "c_file c2 Binlog = Some L" "c_file c2 Binlog_rollback = None"
    "c_file c2 Data_rollback = None" "c_file c2 Data_file = ?D" "d_stage (c_disk c2) = STORAGE_TRUNK_COMPRESS_STAGE_COMPRESS_BEGIN"
    "all_hist (passes ?V) c2" by (rule begin_quiet [OF x(1) f h V st])
  have o: "c_open c2" "c_file c2 Data_file \<noteq> Some []" "(L, c_file c2 Data_file) \<in> ?V" "(L @ c_cache c2, c_file c2 Data_file) \<in> ?V"
    using 1 x D by simp_all
  obtain c3 where 3: "trunk_binlog_compress_apply c2 = (0, c3)" "c_ext c3 = []" "c_open c3" "c_cache c3 = []" "c_stage c3 = c_stage c2"
    "d_stage (c_disk c3) = STORAGE_TRUNK_COMPRESS_STAGE_COMPRESS_BEGIN" "c_file c3 Binlog = Some []"
    "c_file c3 Binlog_rollback = Some (L @ c_cache c2)" "c_file c3 Data_file = None"
    "c_file c3 Data_rollback = Some (text_of (c_file c2 Data_file))" "all_hist (passes ?V) c3"
    by (rule apply_quiet [OF 1(3) o(1) 1(6-8) o(2) 1(10,11) o(3,4)])
  define c4 where "c4 = enter_stage STORAGE_TRUNK_COMPRESS_STAGE_APPLY_DONE c3"
  have 4: "c_ext c4 = []" "c_open c4" "c_cache c4 = []" "c_file c4 Binlog = Some []" "c_file c4 Binlog_rollback = Some ?L"
    "c_file c4 Data_rollback = Some (text_of ?D)" "d_stage (c_disk c4) = STORAGE_TRUNK_COMPRESS_STAGE_APPLY_DONE"
    using 3 1(5,9) by (simp_all add: c4_def quiet)
  have VD: "(?L, if text_of ?D = [] then None else Some (text_of ?D)) \<in> ?V" using D by (cases ?D) auto
  have roll: "passes ?V d" if "d_stage d \<in> {2, 3}" "d_files d Binlog = Some []" "d_files d Binlog_rollback = Some ?L"
    "d_files d Data_rollback = Some (text_of ?D)" for d
    using that VD passes_early [of d ?V] by (auto split: if_splits)
  have h4: "all_hist (passes ?V) c4" using 3(2,11) roll [of "c_disk c4"] 4 by (simp add: c4_def quiet)
  from save_quiet [OF 4(1-4) s] obtain c5 s' hdr ls where 5: "save c4 s = (0, c5, s')" "c_ext c5 = []" "c_open c5" "c_cache c5 = []"
    "c_disk c5 = set_file Data_file (Some (hdr @ [CHR 0x0A] @ ls)) (c_disk c4)" "CHR 0x0A \<notin> set hdr" "length hdr < 31" "lines_of s s' ls"
    "\<forall>P. all_hist P c4 \<and> P (c_disk c4) \<and> P (c_disk c5) \<longrightarrow> all_hist P c5" by blast
  have h5: "all_hist (passes ?V) c5" using 5(9) h4 roll [of "c_disk c4"] roll [of "c_disk c5"] 4 by (simp add: 5(5))
  let ?W = "insert (ls, None) ?V"
  define c6 where "c6 = enter_stage STORAGE_TRUNK_COMPRESS_STAGE_SAVE_DONE c5"
  have 6: "c_ext c6 = []" "c_open c6" "c_cache c6 = []" "c_file c6 Binlog = Some []" "c_file c6 Data_file = Some (hdr @ [CHR 0x0A] @ ls)"
    "d_stage (c_disk c6) = STORAGE_TRUNK_COMPRESS_STAGE_SAVE_DONE" "c_file c6 Binlog_rollback = Some ?L"
    "c_file c6 Data_rollback = Some (text_of ?D)"
    using 5(2-5) 4 by (simp_all add: c6_def quiet)
  have p6: "passes ?V (c_disk c6)" using roll 6 by simp
  have h6: "all_hist (passes ?V) c6" using h5 p6 5(2) by (simp add: c6_def quiet)
  have sk: "skip_line (hdr @ [CHR 0x0A] @ ls) = ls" by (rule skip [OF 5(6,7)])
  have W: "all_hist (passes ?W) c6" "stands_for (c_disk c6) \<in> ?W" "(skip_line (hdr @ [CHR 0x0A] @ ls), None) \<in> ?W"
    subgoal by (rule passes_mono [OF h6]) blast
    subgoal using p6 unfolding passes_def by blast
    subgoal unfolding sk by simp
    done
  obtain c7 where 7: "trunk_binlog_compress_commit skip_line c6 = (0, c7)" "c_ext c7 = []" "c_stage c7 = STORAGE_TRUNK_COMPRESS_STAGE_COMPRESS_SUCCESS"
    "stands_for (c_disk c7) = (skip_line (hdr @ [CHR 0x0A] @ ls), None)" "all_hist (passes ?W) c7" "c_open c7" "c_file c7 Data_file = None"
    "d_stage (c_disk c7) = STORAGE_TRUNK_COMPRESS_STAGE_COMPRESS_SUCCESS"
    by (rule commit_quiet [where skip_line = skip_line, OF 6(1-6) W])
  have "\<forall>ms. passes ?W ((c_disk c7)\<lparr>d_marks := ms\<rparr>)" using 7(4,7,8) unfolding passes_def sk by simp
  then obtain c8 ms where 8: "unlink_marks (d_marks (c_disk c7)) c7 = (0, c8)" "c_disk c8 = (c_disk c7)\<lparr>d_marks := ms\<rparr>" "c_stage c8 = c_stage c7"
    "all_hist (passes ?W) c8" using unlink_marks_quiet [OF 7(2,5)] by blast
  have "compress_run save skip_line stop ctl c s =
      (0, ctl\<lparr>g_trunk_last_compress_time := ct_now ctl, ct_last_version := c_version c\<rparr>, c8, s')"
    using 1(1,2) 3(1) 5(1) 7(1,2) 8(1)
    by (simp add: compress_run_def Let_def c4_def [symmetric] c6_def [symmetric] trunk_unlink_all_mark_files_def c_call_quiet compress_end_def)
  moreover have "stands_for (c_disk c8) = (ls, None)" using 7(4) 8(2) unfolding sk by simp
  moreover have "all_hist (passes {(L, ?D), (?L, ?D), (ls, None)}) c8" by (rule passes_mono [OF 8(4)]) auto
  ultimately show ?thesis using 5(8) 7(3) 8(3) by auto
qed

end

section \<open>Saving the free blocks during the compression\<close>

text \<open>
  \<open>storage_trunk_do_save\<close> on the two states together: the binlog of the allocator's state
  is the file and the cache of the writer. Its calls take their outcomes from the list of
  the allocator's state. While the writer is closed the flush inside the save fails, which
  the save ignores, and the cache stays as it is.
\<close>

type_synonym ('t, 'u) save_ctx = "('t, 'u) trunk_env \<times> save_conf \<times> ('t, 'u) trunk_state"

definition save_step :: "compress_state \<Rightarrow> ('t, 'u) save_ctx \<Rightarrow> int \<times> compress_state \<times> ('t, 'u) save_ctx" where
  "save_step c = (\<lambda>(e, k, s).
     let blocked = (c_cache c \<noteq> [] \<and> \<not> c_open c);
         lg = (if blocked then (c_log c)\<lparr>log_cache := []\<rparr> else c_log c)
     in (case storage_trunk_do_save e k 0 (c_file c Data_file) (s\<lparr>trunk_log := lg\<rparr>) of
           (r, _, data, s') \<Rightarrow>
             let lg' = trunk_log s';
                 c1 = (if log_file lg' = log_file lg then c else put_file Binlog (Some (log_file lg')) c);
                 c2 = (if data = c_file c Data_file then c1 else put_file Data_file data c1)
             in (r, c2\<lparr>c_cache := (if blocked then c_cache c else log_cache lg'),
                     c_version := (if blocked then c_version c else log_version lg')\<rparr>, (e, k, s'))))"

text \<open>\<open>g_if_trunker_self = false\<close> and \<open>storage_trunk_destroy_ex(true, false)\<close>.\<close>

definition trunk_stop :: "('t, 'u) save_ctx \<Rightarrow> ('t, 'u) save_ctx" where
  "trunk_stop = (\<lambda>(e, k, s).
     let s1 = s\<lparr>g_if_trunker_self := False\<rparr> in
     (e, k,
      if trunk_init_flag s1 \<noteq> STORAGE_TRUNK_INIT_FLAG_DONE then s1
      else s1\<lparr>tree_info_by_sizes := [], tree_info_by_id := trunk_free_block_checker_destroy (id_api e) (tree_info_by_id s1),
             trunk_init_flag := STORAGE_TRUNK_INIT_FLAG_NONE\<rparr>))"

definition saver_ready :: "('t, 'u) save_ctx \<Rightarrow> bool" where
  "saver_ready = (\<lambda>(e, k, s).
     (\<exists>lt. env_ok e lt) \<and> avl_total (size_api e) \<and> avl_total (id_api e) \<and> \<not> g_delete_unused_trunk_files k \<and>
     trunk_inv e s \<and> ext_all_ok (ext s))"

definition saved_lines :: "('t, 'u) save_ctx \<Rightarrow> ('t, 'u) save_ctx \<Rightarrow> string \<Rightarrow> bool" where
  "saved_lines = (\<lambda>(e, k, s) (e', k', s') ls.
     \<exists>out. ls = save_lines s out \<and> mset out = free_blocks e s' \<and> trunk_inv e s' \<and> e' = e \<and>
       (\<Union>b \<in> set_mset (free_blocks e s'). blk_bytes b) = (\<Union>b \<in> set_mset (free_blocks e s). blk_bytes b))"

lemma save_step_quiet:
  assumes "c_ext c = []" "c_open c" "c_cache c = []" "c_file c Binlog = Some []" "saver_ready x"
  shows "\<exists>c' x' hdr ls. save_step c x = (0, c', x') \<and> c_ext c' = [] \<and> c_open c' \<and> c_cache c' = [] \<and>
    c_disk c' = set_file Data_file (Some (hdr @ [CHR 0x0A] @ ls)) (c_disk c) \<and> CHR 0x0A \<notin> set hdr \<and> length hdr < 31 \<and>
    saved_lines x x' ls \<and> (\<forall>P. all_hist P c \<and> P (c_disk c) \<and> P (c_disk c') \<longrightarrow> all_hist P c')"
proof -
  obtain e k s where x: "x = (e, k, s)" by (metis prod_cases3)
  obtain lt where e: "env_ok e lt" "avl_total (size_api e)" "avl_total (id_api e)" "\<not> g_delete_unused_trunk_files k" "trunk_inv e s" "ext_all_ok (ext s)"
    using assms(5) by (auto simp: saver_ready_def x)
  have lg: "c_log c = \<lparr>log_file = [], log_cache = [], log_version = c_version c\<rparr>" using assms(3,4) by (simp add: c_log_def)
  let ?s = "s\<lparr>trunk_log := c_log c\<rparr>"
  have s: "trunk_inv e ?s" "free_blocks e ?s = free_blocks e s" "ext_all_ok (ext ?s)" "log_text (trunk_log ?s) = []" "g_current_time ?s = g_current_time s"
    using core_inv_same_index [of e s ?s] e(5,6) by (simp_all add: trunk_inv_def lg log_text_def)
  obtain out s' where d: "do_save_trunk_data e k (c_file c Data_file) ?s =
      (0, Some (fmt_d (int (length (log_text (trunk_log ?s)))) @ [CHR 0x0A] @ save_lines ?s out), s')" "saved e k out ?s s'"
    by (rule do_save_spec [OF e(1) s(1) e(4) s(3) e(2,3)])
  have sv: "trunk_inv e s'" "mset out = free_blocks e s'" "log_text (trunk_log s') = []"
    "(\<Union>b \<in> set_mset (free_blocks e s'). blk_bytes b) = (\<Union>b \<in> set_mset (free_blocks e s). blk_bytes b)"
    using d(2) s(2,4) by (simp_all add: saved_def)
  let ?t = "''0'' @ [CHR 0x0A] @ save_lines s out"
  have lf: "log_file (trunk_log s') = []" "log_cache (trunk_log s') = []" using sv(3) by (simp_all add: log_text_def)
  have "log_text (c_log c) = []" by (simp add: lg log_text_def)
  moreover have "fmt_d 0 = ''0''" by (simp add: fmt_d_def fmt_base.simps) code_simp
  ultimately have do: "storage_trunk_do_save e k 0 (c_file c Data_file) ?s = (0, 0, Some ?t, s')"
    using d(1) by (simp add: storage_trunk_do_save_def)
  define c' where "c' = (if Some ?t = c_file c Data_file then c else put_file Data_file (Some ?t) c)
      \<lparr>c_cache := [], c_version := log_version (trunk_log s')\<rparr>"
  have "save_step c x = (0, c', (e, k, s'))" using do assms(3) lf by (simp add: save_step_def x lg c'_def)
  moreover have "saved_lines x (e, k, s') (save_lines s out)" using sv(1,2,4) by (auto simp: saved_lines_def x)
  moreover have "c_ext c' = []" "c_open c'" "c_cache c' = []" "c_disk c' = set_file Data_file (Some ?t) (c_disk c)"
    "\<forall>P. all_hist P c \<and> P (c_disk c) \<and> P (c_disk c') \<longrightarrow> all_hist P c'"
    using assms(1,2) by (auto simp: c'_def)
  ultimately show ?thesis
    by (intro exI [of _ c'] exI [of _ "(e, k, s')"] exI [of _ "''0''"] exI [of _ "save_lines s out"]) simp
qed

interpretation trunk_saver: data_saver save_step saver_ready saved_lines
  by unfold_locales (rule save_step_quiet)

section \<open>Properties\<close>

text \<open>
  Stopping again and again: the server starts on a disk, and stops in one of the states the
  recovery passes through.
\<close>

inductive stops :: "compress_disk \<Rightarrow> compress_disk \<Rightarrow> bool" where
  never: "stops d d"
| again: "stops d d1 \<Longrightarrow> d2 \<in> set (c_hist (snd (storage_trunk_binlog_compress_check_recovery (restart w d1)))) \<Longrightarrow> stops d d2"

lemma stops_passes: "stops d d' \<Longrightarrow> passes {R} d \<Longrightarrow> passes {R} d'"
proof (induction rule: stops.induct)
  case (again d d1 d2 w)
  then have "passes {R} d1" by simp
  then have "passes {stands_for d1} d1" "stands_for d1 = R" by (simp_all add: passes_def)
  with check_recovery_quiet [of d1 w] again.hyps(2) show ?case by (auto simp: recovers_def all_hist_def)
qed simp

lemma recovers_outcome:
  assumes "passes V d" "stops d d'"
  shows "\<exists>c2. storage_trunk_binlog_compress_check_recovery (restart w d') = (0, c2) \<and>
    d_stage (c_disk c2) \<in> {STORAGE_TRUNK_COMPRESS_STAGE_NONE, STORAGE_TRUNK_COMPRESS_STAGE_FINISHED} \<and>
    (text_of (c_file c2 Binlog), c_file c2 Data_file) \<in> V"
proof -
  have "passes {stands_for d} d" "stands_for d \<in> V" using assms(1) by (simp_all add: passes_def)
  moreover from this have "passes {stands_for d} d'" using stops_passes [OF assms(2)] by blast
  ultimately have "recovers (stands_for d) (storage_trunk_binlog_compress_check_recovery (restart w d'))"
    using check_recovery_quiet [of d' w] by (simp add: passes_def)
  with \<open>stands_for d \<in> V\<close> show ?thesis
    by (cases "storage_trunk_binlog_compress_check_recovery (restart w d')") (auto simp: recovers_def passes_def stands)
qed

text \<open>
  C4: compressing the binlog is safe against stopping anywhere. A compression in which no
  call fails succeeds; and from every state of the disk it passes through, even when the
  recovery after it is stopped again any number of times, the next start recovers, and the
  binlog and the data file are then either the old ones (the binlog with or without the
  records that were still in the cache), or the lines of the free blocks and no data file.
\<close>

theorem trunk_compress_crash_safe:
  assumes "saver_ready (e, k, s)" "c_ext c = []" "c_open c" "c_hist c = []" "c_file c Binlog = Some L" "c_file c Data_file \<noteq> Some []"
    and "c_stage c \<in> {STORAGE_TRUNK_COMPRESS_STAGE_NONE, STORAGE_TRUNK_COMPRESS_STAGE_FINISHED}"
    and "d_stage (c_disk c) \<in> {STORAGE_TRUNK_COMPRESS_STAGE_NONE, STORAGE_TRUNK_COMPRESS_STAGE_FINISHED}"
    and "600 \<le> ct_now ctl - g_up_time ctl" "c_version c \<noteq> ct_last_version ctl" "ct_in_progress ctl = 0"
    and "\<And>hdr ls. CHR 0x0A \<notin> set hdr \<Longrightarrow> length hdr < 31 \<Longrightarrow> skip_line (hdr @ [CHR 0x0A] @ ls) = ls"
  shows "\<exists>ctl' c' k' s' out. storage_trunk_compress save_step skip_line trunk_stop ctl c (e, k, s) = (0, ctl', c', (e, k', s')) \<and>
    trunk_inv e s' \<and> mset out = free_blocks e s' \<and>
    (\<forall>d d' w. d \<in> set (c_hist c') \<and> stops d d' \<longrightarrow>
       (\<exists>c2. storage_trunk_binlog_compress_check_recovery (restart w d') = (0, c2) \<and>
          d_stage (c_disk c2) \<in> {STORAGE_TRUNK_COMPRESS_STAGE_NONE, STORAGE_TRUNK_COMPRESS_STAGE_FINISHED} \<and>
          (text_of (c_file c2 Binlog), c_file c2 Data_file) \<in>
            {(L, c_file c Data_file), (L @ c_cache c, c_file c Data_file),
             (concat (map (trunk_binlog_line (g_current_time s) TRUNK_OP_TYPE_ADD_SPACE) out), None)}))"
proof -
  obtain ctl' c' x' ls where r: "compress_run save_step skip_line trunk_stop ctl c (e, k, s) = (0, ctl', c', x')" "saved_lines (e, k, s) x' ls"
    "all_hist (passes {(L, c_file c Data_file), (L @ c_cache c, c_file c Data_file), (ls, None)}) c'"
    using trunk_saver.compress_run_quiet [OF assms(2,3,5,6,8,4,1,12)] by blast
  obtain k' s' out where x: "x' = (e, k', s')" "ls = save_lines s out" "mset out = free_blocks e s'" "trunk_inv e s'"
    using r(2) by (cases x') (auto simp: saved_lines_def)
  have "storage_trunk_compress save_step skip_line trunk_stop ctl c (e, k, s) = (0, ctl', c', (e, k', s'))"
    using assms(7,9-11) r(1) x(1) by (auto simp: storage_trunk_compress_def)
  moreover have "\<exists>c2. storage_trunk_binlog_compress_check_recovery (restart w d') = (0, c2) \<and>
      d_stage (c_disk c2) \<in> {STORAGE_TRUNK_COMPRESS_STAGE_NONE, STORAGE_TRUNK_COMPRESS_STAGE_FINISHED} \<and>
      (text_of (c_file c2 Binlog), c_file c2 Data_file) \<in>
        {(L, c_file c Data_file), (L @ c_cache c, c_file c Data_file), (save_lines s out, None)}"
    if "d \<in> set (c_hist c')" "stops d d'" for d d' w
    by (rule recovers_outcome [OF _ that(2)]) (use r(3) that(1) in \<open>simp add: all_hist_def x(2)\<close>)
  ultimately show ?thesis using x(3,4) by blast
qed

definition sample_disk :: compress_disk where
  "sample_disk = \<lparr>d_files = (\<lambda>_. None)(Binlog := Some ''0 A 0 3 7 1 0 512''), d_marks = [''0.0.0.0.mark''], d_stage = 0\<rparr>"

definition sample_compress :: compress_state where
  "sample_compress = \<lparr>c_disk = sample_disk, c_hist = [], c_stage = 0, c_open = True, c_cache = [], c_version = 2, c_ext = []\<rparr>"

definition sample_ctl :: compress_ctl where
  "sample_ctl = \<lparr>ct_now = 1000, g_up_time = 0, ct_last_version = 0, ct_in_progress = 0, g_trunk_last_compress_time = 0,
     g_trunk_compress_binlog_min_interval = 0\<rparr>"

definition skip_first :: "string \<Rightarrow> string" where
  "skip_first t = tl (dropWhile (\<lambda>ch. ch \<noteq> CHR 0x0A) t)"

lemma skip_first_line: "CHR 0x0A \<notin> set hdr \<Longrightarrow> skip_first (hdr @ [CHR 0x0A] @ ls) = ls"
  by (induction hdr) (auto simp: skip_first_def)

lemma sample_saver_ready: "saver_ready (sample_env, sample_save, sample_state)"
  using sample_env_ok sample_env_total sample_state_inv
  by (auto simp: saver_ready_def sample_save_def sample_state_def)

theorem trunk_compress_crash_safe_witness:
  "\<exists>ctl' c' k' s'. storage_trunk_compress save_step skip_first trunk_stop sample_ctl sample_compress (sample_env, sample_save, sample_state) =
     (0, ctl', c', (sample_env, k', s')) \<and> trunk_inv sample_env s'"
proof -
  have "c_file sample_compress Binlog = Some ''0 A 0 3 7 1 0 512''" "c_file sample_compress Data_file \<noteq> Some []"
    "c_ext sample_compress = []" "c_open sample_compress" "c_hist sample_compress = []" "c_stage sample_compress \<in> {0, 9}"
    "d_stage (c_disk sample_compress) \<in> {0, 9}" "600 \<le> ct_now sample_ctl - g_up_time sample_ctl"
    "c_version sample_compress \<noteq> ct_last_version sample_ctl" "ct_in_progress sample_ctl = 0"
    by (simp_all add: sample_compress_def sample_disk_def sample_ctl_def)
  from trunk_compress_crash_safe [OF sample_saver_ready this(3-5) this(1,2) this(6-10) skip_first_line] show ?thesis by blast
qed

lemma merge_open_fails:
  assumes "c_ext c = [ExtFail EIO]"
  shows "trunk_binlog_merge_file old st c = (EIO, c\<lparr>c_ext := []\<rparr>)"
  using assms by (simp add: trunk_binlog_merge_file_def c_call_def ext_call_def errno_or_def)

lemma merge_read_fails:
  assumes "c_ext c = [ExtOk, ExtFail EIO]" "c_file c Binlog = Some u"
  obtains c' where "trunk_binlog_merge_file old st c = (0, c')" "c_ext c' = []" "c_file c' Binlog = Some u"
    "c_file c' Binlog_rollback = c_file c Binlog_rollback"
proof -
  let ?c1 = "(put_file Binlog_tmp (Some []) c)\<lparr>c_ext := []\<rparr>"
  have 1: "c_call EACCES c = (0, c\<lparr>c_ext := [ExtFail EIO]\<rparr>)" using assms(1) by (simp add: c_call_def ext_call_def)
  have "copy_loop old (put_file Binlog_tmp (Some []) (c\<lparr>c_ext := [ExtFail EIO]\<rparr>)) =
      (0, (put_file Binlog_tmp (Some []) (c\<lparr>c_ext := [ExtFail EIO]\<rparr>))\<lparr>c_ext := []\<rparr>)"
    by (subst copy_loop.simps) simp
  also have "(put_file Binlog_tmp (Some []) (c\<lparr>c_ext := [ExtFail EIO]\<rparr>))\<lparr>c_ext := []\<rparr> = ?c1"
    by (simp add: put_file_def put_disk_def)
  finally have 2: "copy_loop old (put_file Binlog_tmp (Some []) (c\<lparr>c_ext := [ExtFail EIO]\<rparr>)) = (0, ?c1)" .
  have "c_ext ?c1 = []" "c_file ?c1 Binlog_tmp = Some []" by simp_all
  then obtain h where 3: "copy_loop u ?c1 = (0, ?c1\<lparr>c_disk := set_file Binlog_tmp (Some ([] @ u)) (c_disk ?c1), c_hist := h\<rparr>)"
    using copy_loop_quiet [of ?c1 "[]" u] by blast
  have "c_access EPERM Binlog ?c1 = (0, ?c1)" using assms(2) by (simp add: c_access_quiet)
  with 1 2 3 assms(2) that show thesis
    by (simp add: trunk_binlog_merge_file_def quiet)
qed

text \<open>
  C29: a failure while the binlog is put back loses it. When the temporary file cannot be
  opened, or the first read of the binlog that was set aside fails (the copy loop takes
  that for its end), the file is removed all the same, and the binlog is left with only
  the records written since. In the second case not even an error is reported.
\<close>

theorem trunk_rollback_failure_loses_log:
  assumes "c_file c Binlog_rollback = Some t" "t \<noteq> []" "c_file c Binlog = Some u"
  shows "(\<exists>c'. trunk_compress_rollback_binlog_file (c\<lparr>c_ext := [ExtOk, ExtOk, ExtOk, ExtFail EIO]\<rparr>) = (EIO, c') \<and>
      c_file c' Binlog_rollback = None \<and> c_file c' Binlog = Some u) \<and>
    (\<exists>c'. trunk_compress_rollback_binlog_file (c\<lparr>c_ext := [ExtOk, ExtOk, ExtOk, ExtOk, ExtFail EIO]\<rparr>) = (0, c') \<and>
      c_file c' Binlog_rollback = None \<and> c_file c' Binlog = Some u)"
proof
  let ?c = "c\<lparr>c_ext := [ExtFail EIO]\<rparr>"
  have "trunk_binlog_merge_file t STORAGE_TRUNK_COMPRESS_STAGE_ROLLBACK_MERGING ?c = (EIO, c\<lparr>c_ext := []\<rparr>)"
    using merge_open_fails [of ?c] by simp
  with assms show "\<exists>c'. trunk_compress_rollback_binlog_file (c\<lparr>c_ext := [ExtOk, ExtOk, ExtOk, ExtFail EIO]\<rparr>) = (EIO, c') \<and>
      c_file c' Binlog_rollback = None \<and> c_file c' Binlog = Some u"
    by (simp add: trunk_compress_rollback_binlog_file_def c_access_def c_call_def ext_call_def enter_stage_quiet c_unlink_quiet)
next
  let ?c = "c\<lparr>c_ext := [ExtOk, ExtFail EIO]\<rparr>"
  obtain c' where c': "trunk_binlog_merge_file t STORAGE_TRUNK_COMPRESS_STAGE_ROLLBACK_MERGING ?c = (0, c')" "c_ext c' = []"
    "c_file c' Binlog = Some u" "c_file c' Binlog_rollback = c_file ?c Binlog_rollback"
    by (rule merge_read_fails [of ?c u]) (use assms in simp_all)
  with assms show "\<exists>c'. trunk_compress_rollback_binlog_file (c\<lparr>c_ext := [ExtOk, ExtOk, ExtOk, ExtOk, ExtFail EIO]\<rparr>) = (0, c') \<and>
      c_file c' Binlog_rollback = None \<and> c_file c' Binlog = Some u"
    by (simp add: trunk_compress_rollback_binlog_file_def c_access_def c_call_def ext_call_def enter_stage_quiet c_unlink_quiet)
qed

definition sample_halfway :: compress_state where
  "sample_halfway = sample_compress\<lparr>c_disk := sample_disk\<lparr>d_files := (\<lambda>_. None)
     (Binlog := Some [], Binlog_rollback := Some ''0 A 0 3 7 1 0 512'', Data_file := Some ''0'', Data_rollback := Some []), d_stage := 3\<rparr>, c_stage := 3\<rparr>"

theorem trunk_rollback_failure_loses_log_witness:
  "\<exists>c'. trunk_compress_rollback_binlog_file (sample_halfway\<lparr>c_ext := [ExtOk, ExtOk, ExtOk, ExtOk, ExtFail EIO]\<rparr>) = (0, c') \<and>
     c_file c' Binlog_rollback = None \<and> c_file c' Binlog = Some []"
  using trunk_rollback_failure_loses_log [of sample_halfway "''0 A 0 3 7 1 0 512''" "[]"]
  by (simp add: sample_halfway_def)



end
