(* ===== verification/Sort_Search.thy ===== *)
theory Sort_Search
  imports Fdfs_Prelude
begin

text \<open>
  The part of the C library with which the servers keep sorted tables: \<open>strcmp\<close>,
  \<open>qsort\<close> and \<open>bsearch\<close>. The interface \<open>comparison\<close> says what a comparison function
  must promise, on the elements it is used for; under it sorting gives a sorted array with
  the same elements and searching a sorted array is exact.
\<close>

section \<open>strcmp\<close>

text \<open>\<open>strcmp\<close>: the difference of the first two characters that differ.\<close>

fun strcmp :: "string \<Rightarrow> string \<Rightarrow> int" where
  "strcmp [] [] = 0"
| "strcmp [] (b # bs) = - int (of_char b) - 1"
| "strcmp (a # as) [] = int (of_char a) + 1"
| "strcmp (a # as) (b # bs) = (if a = b then strcmp as bs else int (of_char a) - int (of_char b))"

lemma strcmp_0 [simp]: "strcmp s t = 0 \<longleftrightarrow> s = t"
  by (induction s t rule: strcmp.induct) auto

lemma strcmp_refl [simp]: "strcmp s s = 0"
  by simp

lemma strcmp_swap: "strcmp t s = - strcmp s t"
  by (induction s t rule: strcmp.induct) auto

lemma strcmp_trans: "strcmp s t < 0 \<Longrightarrow> strcmp t u < 0 \<Longrightarrow> strcmp s u < 0"
proof (induction s t arbitrary: u rule: strcmp.induct)
  case (2 b bs)
  then show ?case by (cases u) auto
next
  case (4 a as b bs)
  then show ?case by (cases u) (auto split: if_splits)
qed auto


lemma strcmp_le_trans: "strcmp s t \<le> 0 \<Longrightarrow> strcmp t u \<le> 0 \<Longrightarrow> strcmp s u \<le> 0"
  using strcmp_trans [of s t u] strcmp_0 [of s t] strcmp_0 [of t u] by (metis order_le_less)

lemma strcmp_sign: "strcmp s t < 0 \<longleftrightarrow> strcmp t s > 0"
  using strcmp_swap [of s t] by simp

lemma strcmp_less: "s \<noteq> t \<Longrightarrow> \<not> strcmp s t > 0 \<Longrightarrow> strcmp s t < 0"
  by (metis strcmp_0 linorder_neqE)

lemma strcmp_antisym: "strcmp s t \<le> 0 \<Longrightarrow> strcmp t s \<le> 0 \<Longrightarrow> s = t"
  using strcmp_swap [of s t] strcmp_0 [of s t] by simp

section \<open>qsort and bsearch\<close>

text \<open>
  \<open>qsort\<close> with a comparison function. (The C standard leaves the order of elements that
  compare equal open; here they keep their order.)
\<close>

fun insort_by :: "('a \<Rightarrow> 'a \<Rightarrow> int) \<Rightarrow> 'a \<Rightarrow> 'a list \<Rightarrow> 'a list" where
  "insort_by cmp x [] = [x]"
| "insort_by cmp x (y # ys) = (if cmp x y \<le> 0 then x # y # ys else y # insort_by cmp x ys)"

definition qsort_by :: "('a \<Rightarrow> 'a \<Rightarrow> int) \<Rightarrow> 'a list \<Rightarrow> 'a list" where
  "qsort_by cmp xs = foldr (insort_by cmp) xs []"

lemma set_insort_by [simp]: "set (insort_by cmp x xs) = insert x (set xs)"
  by (induction xs) auto

lemma set_qsort_by [simp]: "set (qsort_by cmp xs) = set xs"
  by (induction xs) (auto simp: qsort_by_def)

lemma qsort_by_Nil [simp]: "qsort_by cmp xs = [] \<longleftrightarrow> xs = []"
  using set_qsort_by [of cmp xs] by (metis set_empty)

function bsearch_loop :: "('a \<Rightarrow> 'a \<Rightarrow> int) \<Rightarrow> 'a \<Rightarrow> 'a list \<Rightarrow> nat \<Rightarrow> nat \<Rightarrow> nat option" where
  "bsearch_loop cmp key xs l u =
     (if l < u then
        let idx = (l + u) div 2; c = cmp key (xs ! idx) in
        if c < 0 then bsearch_loop cmp key xs l idx
        else if c > 0 then bsearch_loop cmp key xs (Suc idx) u
        else Some idx
      else None)"
  by pat_completeness auto
termination
  by (relation "measure (\<lambda>(cmp, key, xs, l, u). u - l)") auto

declare bsearch_loop.simps [simp del]

text \<open>\<open>bsearch\<close> returns the position of an element that compares equal, \<open>None\<close> for \<open>NULL\<close>.\<close>

definition bsearch :: "('a \<Rightarrow> 'a \<Rightarrow> int) \<Rightarrow> 'a \<Rightarrow> 'a list \<Rightarrow> nat option" where
  "bsearch cmp key xs = bsearch_loop cmp key xs 0 (length xs)"

lemma bsearch_loop_Some:
  "bsearch_loop cmp key xs l u = Some i \<Longrightarrow> l \<le> i \<and> i < u \<and> cmp key (xs ! i) = 0"
proof (induction cmp key xs l u rule: bsearch_loop.induct)
  case (1 cmp key xs l u)
  define idx where "idx = (l + u) div 2"
  have lu: "l < u" using "1.prems" by (auto simp: bsearch_loop.simps [of _ _ _ l u] split: if_splits)
  then have idx: "l \<le> idx" "idx < u" by (auto simp: idx_def)
  consider "cmp key (xs ! idx) < 0" | "cmp key (xs ! idx) > 0" | "cmp key (xs ! idx) = 0" by linarith
  then show ?case
  proof cases
    case 1
    with lu "1.prems" have "bsearch_loop cmp key xs l idx = Some i"
      by (simp add: bsearch_loop.simps [of _ _ _ l u] idx_def Let_def)
    from "1.IH"(1) [OF lu idx_def refl 1 this] idx show ?thesis by linarith
  next
    case 2
    with lu "1.prems" have "bsearch_loop cmp key xs (Suc idx) u = Some i"
      by (simp add: bsearch_loop.simps [of _ _ _ l u] idx_def Let_def)
    from "1.IH"(2) [OF lu idx_def refl _ 2 this] 2 idx show ?thesis by linarith
  next
    case 3
    with lu "1.prems" idx show ?thesis by (simp add: bsearch_loop.simps [of _ _ _ l u] idx_def Let_def)
  qed
qed

lemma bsearch_SomeD: "bsearch cmp key xs = Some i \<Longrightarrow> i < length xs \<and> cmp key (xs ! i) = 0"
  using bsearch_loop_Some [of cmp key xs 0 "length xs" i] by (simp add: bsearch_def)

section \<open>Comparison functions\<close>

locale comparison =
  fixes cmp :: "'a \<Rightarrow> 'a \<Rightarrow> int" and ok :: "'a \<Rightarrow> bool"
  assumes cmp_swap: "ok x \<Longrightarrow> ok y \<Longrightarrow> cmp x y < 0 \<longleftrightarrow> cmp y x > 0"
    and cmp_trans: "ok x \<Longrightarrow> ok y \<Longrightarrow> ok z \<Longrightarrow> cmp x y \<le> 0 \<Longrightarrow> cmp y z \<le> 0 \<Longrightarrow> cmp x z \<le> 0"
begin

definition in_order :: "'a list \<Rightarrow> bool" where
  "in_order xs \<longleftrightarrow> sorted_wrt (\<lambda>x y. cmp x y \<le> 0) xs"

lemma cmp_le_total: "ok x \<Longrightarrow> ok y \<Longrightarrow> \<not> cmp x y \<le> 0 \<Longrightarrow> cmp y x \<le> 0"
  using cmp_swap [of y x] by linarith

lemma insort_in_order:
  "\<forall>y \<in> set xs. ok y \<Longrightarrow> ok x \<Longrightarrow> in_order xs \<Longrightarrow> in_order (insort_by cmp x xs)"
proof (induction xs)
  case (Cons y ys)
  have "cmp x z \<le> 0" if "cmp x y \<le> 0" "z \<in> set ys" for z
    using cmp_trans [of x y z] Cons.prems that by (auto simp: in_order_def)
  moreover have "cmp y x \<le> 0" if "\<not> cmp x y \<le> 0" using cmp_le_total [of x y] Cons.prems that by simp
  moreover have "in_order (insort_by cmp x ys)" using Cons by (simp add: in_order_def)
  ultimately show ?case using Cons.prems(3) by (simp add: in_order_def)
qed (simp add: in_order_def)

lemma qsort_in_order: "\<forall>x \<in> set xs. ok x \<Longrightarrow> in_order (qsort_by cmp xs)"
proof (induction xs)
  case (Cons x xs)
  then have "in_order (insort_by cmp x (qsort_by cmp xs))" by (intro insort_in_order) auto
  then show ?case by (simp add: qsort_by_def)
qed (simp add: qsort_by_def in_order_def)

lemma bsearch_loop_None:
  assumes "in_order xs" "\<forall>x \<in> set xs. ok x" "ok key"
  shows "u \<le> length xs \<Longrightarrow> bsearch_loop cmp key xs l u = None \<Longrightarrow> l \<le> i \<Longrightarrow> i < u \<Longrightarrow> cmp key (xs ! i) \<noteq> 0"
proof (induction "u - l" arbitrary: l u rule: less_induct)
  case less
  define idx where "idx = (l + u) div 2"
  have idx: "l \<le> idx" "idx < u" "idx < length xs" using less.prems by (auto simp: idx_def)
  have oks: "ok (xs ! j)" if "j < u" for j using assms(2) less.prems(1) that by simp
  have mono: "cmp (xs ! j) (xs ! k) \<le> 0" if "j < k" "k < u" for j k
    using assms(1) that less.prems(1) unfolding in_order_def sorted_wrt_iff_nth_less by simp
  have step: "(if cmp key (xs ! idx) < 0 then bsearch_loop cmp key xs l idx
      else if cmp key (xs ! idx) > 0 then bsearch_loop cmp key xs (Suc idx) u else Some idx) = None"
    using less.prems(2-4) bsearch_loop.simps [of cmp key xs l u] by (auto simp: idx_def Let_def split: if_splits)
  show ?case
  proof (cases "cmp key (xs ! idx) < 0")
    case True
    show ?thesis
    proof (cases "i < idx")
      case True
      then show ?thesis using less.hyps [of idx l] less.prems idx step \<open>cmp key (xs ! idx) < 0\<close> by simp
    next
      case False
      then have "i = idx \<or> cmp (xs ! idx) (xs ! i) \<le> 0" using mono [of idx i] less.prems by linarith
      moreover have "cmp key (xs ! i) \<noteq> 0" if "cmp (xs ! idx) (xs ! i) \<le> 0"
      proof
        assume "cmp key (xs ! i) = 0"
        then have "cmp (xs ! i) key \<le> 0" using cmp_swap [OF assms(3) oks [OF less.prems(4)]] by linarith
        with that have "cmp (xs ! idx) key \<le> 0"
          using cmp_trans oks [OF idx(2)] oks [OF less.prems(4)] assms(3) by blast
        with True cmp_swap [OF assms(3) oks [OF idx(2)]] show False by linarith
      qed
      ultimately show ?thesis using True by auto
    qed
  next
    case False
    with step have gt: "cmp key (xs ! idx) > 0" by (simp split: if_splits)
    show ?thesis
    proof (cases "idx < i")
      case True
      then show ?thesis using less.hyps [of u "Suc idx"] less.prems idx step gt by simp
    next
      case False
      then have "i = idx \<or> cmp (xs ! i) (xs ! idx) \<le> 0" using mono [of i idx] idx by linarith
      moreover have "cmp key (xs ! i) \<noteq> 0" if "cmp (xs ! i) (xs ! idx) \<le> 0"
        using cmp_trans [OF assms(3) oks [OF less.prems(4)] oks [OF idx(2)] _ that] gt by linarith
      ultimately show ?thesis using gt by auto
    qed
  qed
qed

lemma bsearch_None:
  assumes "in_order xs" "\<forall>x \<in> set xs. ok x" "ok key" "bsearch cmp key xs = None" "x \<in> set xs"
  shows "cmp key x \<noteq> 0"
proof -
  obtain i where "i < length xs" "x = xs ! i" using assms(5) by (metis in_set_conv_nth)
  with bsearch_loop_None [OF assms(1-3), of "length xs" 0 i] assms(4) show ?thesis by (simp add: bsearch_def)
qed

text \<open>The last element of a sorted array is a greatest one.\<close>

lemma qsort_last:
  assumes "\<forall>x \<in> set xs. ok x" "x \<in> set xs"
  shows "cmp x (last (qsort_by cmp xs)) \<le> 0 \<or> x = last (qsort_by cmp xs)"
proof -
  let ?s = "qsort_by cmp xs"
  have ne: "?s \<noteq> []" using assms(2) by auto
  then have s: "?s = butlast ?s @ [last ?s]" by simp
  have "in_order (butlast ?s @ [last ?s])" using qsort_in_order [OF assms(1)] s by simp
  then have "\<forall>y \<in> set (butlast ?s). cmp y (last ?s) \<le> 0" by (auto simp: in_order_def sorted_wrt_append)
  moreover have "x \<in> set (butlast ?s @ [last ?s])" using assms(2) s by simp
  ultimately show ?thesis by auto
qed

end

text \<open>Comparison functions for records: by one field, and by a second one when the first is equal.\<close>

lemma comparison_key_int: "comparison (\<lambda>x y. k x - k y) (\<lambda>_. True)"
  by unfold_locales auto

lemma comparison_key_int_down: "comparison (\<lambda>x y. k y - k x) (\<lambda>_. True)"
  by unfold_locales auto

lemma comparison_key_str: "comparison (\<lambda>x y. strcmp (k x) (k y)) (\<lambda>_. True)"
  by unfold_locales (auto simp: strcmp_sign intro: strcmp_le_trans)

definition lex_cmp :: "('a \<Rightarrow> 'a \<Rightarrow> int) \<Rightarrow> ('a \<Rightarrow> 'a \<Rightarrow> int) \<Rightarrow> 'a \<Rightarrow> 'a \<Rightarrow> int" where
  "lex_cmp f g x y = (if f x y \<noteq> 0 then f x y else g x y)"

lemma comparison_lex:
  assumes "comparison f ok" "comparison g ok"
  shows "comparison (lex_cmp f g) ok"
proof (unfold lex_cmp_def, unfold_locales)
  fix x y assume "ok x" "ok y"
  then show "(if f x y \<noteq> 0 then f x y else g x y) < 0 \<longleftrightarrow> (if f y x \<noteq> 0 then f y x else g y x) > 0"
    using comparison.cmp_swap [OF assms(1), of x y] comparison.cmp_swap [OF assms(1), of y x] comparison.cmp_swap [OF assms(2), of x y]
    by auto
next
  fix x y z assume ok: "ok x" "ok y" "ok z"
    and xy: "(if f x y \<noteq> 0 then f x y else g x y) \<le> 0" and yz: "(if f y z \<noteq> 0 then f y z else g y z) \<le> 0"
  note sw = comparison.cmp_swap [OF assms(1)] and tr = comparison.cmp_trans [OF assms(1)]
  have f: "f x y \<le> 0" "f y z \<le> 0" using xy yz by (auto split: if_splits)
  then have "f x z \<le> 0" using tr ok by blast
  moreover have "f x y = 0 \<and> f y z = 0" if "f x z = 0"
  proof -
    have zx: "f z x \<le> 0" using that sw [of x z] sw [of z x] ok by auto
    then have "f z y \<le> 0" "f y x \<le> 0" using tr f ok by blast+
    then show ?thesis using f sw [of x y] sw [of y z] ok by auto
  qed
  ultimately show "(if f x z \<noteq> 0 then f x z else g x z) \<le> 0"
    using xy yz comparison.cmp_trans [OF assms(2) ok] by auto
qed

lemma comparison_on:
  assumes "comparison f (\<lambda>_. True)" "\<And>x y. ok x \<Longrightarrow> ok y \<Longrightarrow> g x y = f x y"
  shows "comparison g ok"
  using comparison.cmp_swap [OF assms(1)] comparison.cmp_trans [OF assms(1)] assms(2) by unfold_locales auto

end
