(* ===== verification/Tracker_Proto.thy ===== *)
theory Tracker_Proto
  imports Fastcommon_Api Shared_Func Sort_Search
begin

text \<open>
  \<open>tracker/tracker_proto.c\<close>: receiving the header and the body of a response, connecting
  to a server that has more than one address, the characters allowed in names, and the
  meta data of a file as text (records separated by \<open>0x01\<close>, name and value by \<open>0x02\<close>).

  What arrives from the other side is an argument; the network calls of libfastcommon take
  their outcomes from a tape. \<open>getOccurCount\<close> and \<open>splitEx\<close> of libfastcommon are
  parameters. Left out: the requests for the parameters of the tracker, which read an
  initialisation file from the network.

  Shown here: the meta data reads back from its text.
\<close>

section \<open>Responses\<close>

text \<open>A header as it arrives; \<open>hdr_pkg_len\<close> is the value of the eight bytes of \<open>pkg_len\<close>.\<close>

record TrackerHeader =
  hdr_pkg_len :: int
  hdr_status :: int

definition fdfs_recv_header_ex :: "TrackerHeader \<Rightarrow> ext_tape \<Rightarrow> int \<times> int \<times> ext_tape" where
  "fdfs_recv_header_ex resp tp =
     (case ext_call EIO tp of
        (result, tp1) \<Rightarrow>
          if result \<noteq> 0 then (result, 0, tp1)
          else if hdr_status resp \<noteq> 0 then (hdr_status resp, 0, tp1)
          else if hdr_pkg_len resp < 0 then (EINVAL, 0, tp1)
          else (0, hdr_pkg_len resp, tp1))"

text \<open>
  \<open>buff_size\<close> is \<open>None\<close> when the caller passes no buffer and one is allocated. The
  result is the error number, \<open>in_bytes\<close> and the bytes received.
\<close>

definition fdfs_recv_response ::
    "nat option \<Rightarrow> TrackerHeader \<Rightarrow> bytes \<Rightarrow> ext_tape \<Rightarrow> int \<times> int \<times> bytes \<times> ext_tape" where
  "fdfs_recv_response buff_size resp body tp =
     (case fdfs_recv_header_ex resp tp of
        (result, in_bytes, tp1) \<Rightarrow>
          if result \<noteq> 0 then (result, in_bytes, [], tp1)
          else if in_bytes = 0 then (0, 0, [], tp1)
          else
            (case (case buff_size of
                     None \<Rightarrow> ext_call ENOMEM tp1
                   | Some sz \<Rightarrow> (if in_bytes > int sz then ENOSPC else 0, tp1)) of
               (result, tp2) \<Rightarrow>
                 if result \<noteq> 0 then (result, 0, [], tp2)
                 else
                   (case ext_call EIO tp2 of
                      (result, tp3) \<Rightarrow>
                        if result \<noteq> 0 then (result, 0, [], tp3)
                        else (0, in_bytes, take (nat in_bytes) body, tp3))))"

definition fdfs_deal_no_body_cmd :: "TrackerHeader \<Rightarrow> ext_tape \<Rightarrow> int \<times> ext_tape" where
  "fdfs_deal_no_body_cmd resp tp =
     (case ext_call EIO tp of
        (result, tp1) \<Rightarrow>
          if result \<noteq> 0 then (result, tp1)
          else
            (case fdfs_recv_header_ex resp tp1 of
               (result, in_bytes, tp2) \<Rightarrow>
                 if result \<noteq> 0 then (result, tp2)
                 else if in_bytes = 0 then (0, tp2)
                 else (EINVAL, tp2)))"

section \<open>Connecting\<close>

text \<open>
  \<open>tracker_make_connection\<close> is a parameter: \<open>dial\<close> gives the error number of connecting
  to one address. The result is the error number, the connection (\<open>None\<close> for \<open>NULL\<close>) and the server
  with the index of the address that answered.
\<close>

type_synonym dial_fun = "ConnectionInfo \<Rightarrow> ext_tape \<Rightarrow> int \<times> ext_tape"

fun connect_loop ::
    "dial_fun \<Rightarrow> TrackerServerInfo \<Rightarrow> nat \<Rightarrow> ConnectionInfo list \<Rightarrow> int \<Rightarrow> ext_tape \<Rightarrow>
     int \<times> ConnectionInfo option \<times> TrackerServerInfo \<times> ext_tape" where
  "connect_loop dial pServerInfo i [] err tp = (err, None, pServerInfo, tp)"
| "connect_loop dial pServerInfo i (conn # conns) err tp =
     (if int i \<noteq> server_index pServerInfo then
        (case dial conn tp of
           (err', tp') \<Rightarrow>
             if err' = 0 then (0, Some conn, pServerInfo\<lparr>server_index := int i\<rparr>, tp')
             else connect_loop dial pServerInfo (Suc i) conns err' tp')
      else connect_loop dial pServerInfo (Suc i) conns err tp)"

definition tracker_connect_server_ex ::
    "dial_fun \<Rightarrow> TrackerServerInfo \<Rightarrow> ext_tape \<Rightarrow> int \<times> ConnectionInfo option \<times> TrackerServerInfo \<times> ext_tape" where
  "tracker_connect_server_ex dial pServerInfo tp =
     (let c = connections pServerInfo ! nat (server_index pServerInfo) in
      case dial c tp of
        (err, tp1) \<Rightarrow>
          if err = 0 then (0, Some c, pServerInfo, tp1)
          else if length (connections pServerInfo) = 1 then (err, None, pServerInfo, tp1)
          else connect_loop dial pServerInfo 0 (connections pServerInfo) err tp1)"

section \<open>Names\<close>

definition alnum_char :: "char \<Rightarrow> bool" where
  "alnum_char c \<longleftrightarrow>
     (let n = of_char c :: nat in 97 \<le> n \<and> n \<le> 122 \<or> 65 \<le> n \<and> n \<le> 90 \<or> 48 \<le> n \<and> n \<le> 57)"

definition fdfs_validate_group_name :: "string \<Rightarrow> int" where
  "fdfs_validate_group_name group_name =
     (if group_name = [] then EINVAL
      else if list_all alnum_char group_name then 0 else EINVAL)"

definition fdfs_validate_filename :: "string \<Rightarrow> int" where
  "fdfs_validate_filename filename =
     (if list_all (\<lambda>p. alnum_char p \<or> p = CHR ''-'' \<or> p = CHR ''_'' \<or> p = CHR ''.'') filename then 0 else EINVAL)"

section \<open>Meta data\<close>

abbreviation (input) FDFS_RECORD_SEPERATOR :: char where "FDFS_RECORD_SEPERATOR \<equiv> CHR 0x01"
abbreviation (input) FDFS_FIELD_SEPERATOR :: char where "FDFS_FIELD_SEPERATOR \<equiv> CHR 0x02"
abbreviation (input) FDFS_MAX_META_NAME_LEN :: nat where "FDFS_MAX_META_NAME_LEN \<equiv> 64"
abbreviation (input) FDFS_MAX_META_VALUE_LEN :: nat where "FDFS_MAX_META_VALUE_LEN \<equiv> 256"

record FDFSMetaData =
  meta_name :: string
  meta_value :: string

text \<open>The rows without the field separator are skipped; names and values are cut to the size of their field.\<close>

fun split_meta_rows :: "char \<Rightarrow> string list \<Rightarrow> FDFSMetaData list" where
  "split_meta_rows fs [] = []"
| "split_meta_rows fs (row # rows) =
     (if fs \<notin> set row then split_meta_rows fs rows
      else \<lparr>meta_name = take FDFS_MAX_META_NAME_LEN (takeWhile (\<lambda>c. c \<noteq> fs) row),
            meta_value = take FDFS_MAX_META_VALUE_LEN (tl (dropWhile (\<lambda>c. c \<noteq> fs) row))\<rparr> # split_meta_rows fs rows)"

definition fdfs_split_metadata_ex ::
    "split_fun \<Rightarrow> (string \<Rightarrow> char \<Rightarrow> nat) \<Rightarrow> string \<Rightarrow> char \<Rightarrow> char \<Rightarrow> ext_tape \<Rightarrow> int \<times> FDFSMetaData list option \<times> ext_tape" where
  "fdfs_split_metadata_ex split occur_count meta_buff recordSeperator filedSeperator tp =
     (let meta_count = occur_count meta_buff recordSeperator + 1 in
      case ext_pop tp of
        (ExtOk, tp1) \<Rightarrow>
          (case ext_pop tp1 of
             (ExtOk, tp2) \<Rightarrow> (0, Some (split_meta_rows filedSeperator (split meta_buff recordSeperator meta_count)), tp2)
           | (_, tp2) \<Rightarrow> (ENOMEM, None, tp2))
      | (_, tp1) \<Rightarrow> (ENOMEM, None, tp1))"

text \<open>
  The loop writes a record separator after every record; the last one is overwritten, so
  \<open>buff_bytes\<close> is one less than what was written, \<open>-1\<close> for an empty list (where the
  overwritten byte is the one before the buffer). \<open>alloc\<close> says that the caller passes no
  buffer.
\<close>

definition fdfs_pack_metadata :: "FDFSMetaData list \<Rightarrow> bool \<Rightarrow> ext_tape \<Rightarrow> (string \<times> int) option \<times> ext_tape" where
  "fdfs_pack_metadata meta_list alloc tp =
     (case (if alloc then ext_pop tp else (ExtOk, tp)) of
        (ExtOk, tp1) \<Rightarrow>
          let written = concat (map (\<lambda>m. meta_name m @ FDFS_FIELD_SEPERATOR # meta_value m @ [FDFS_RECORD_SEPERATOR]) meta_list)
          in (Some (butlast written, int (length written) - 1), tp1)
      | (_, tp1) \<Rightarrow> (None, tp1))"

definition metadata_cmp_by_name :: "FDFSMetaData \<Rightarrow> FDFSMetaData \<Rightarrow> int" where
  "metadata_cmp_by_name p1 p2 = strcmp (meta_name p1) (meta_name p2)"

section \<open>Lemmas\<close>

text \<open>\<open>getOccurCount\<close> counts the occurrences of a character.\<close>

definition occur_count_ok :: "(string \<Rightarrow> char \<Rightarrow> nat) \<Rightarrow> bool" where
  "occur_count_ok occur_count \<longleftrightarrow> (\<forall>s c. occur_count s c = count_list s c)"

definition meta_ok :: "FDFSMetaData \<Rightarrow> bool" where
  "meta_ok m \<longleftrightarrow>
     FDFS_RECORD_SEPERATOR \<notin> set (meta_name m) \<and> FDFS_FIELD_SEPERATOR \<notin> set (meta_name m) \<and>
     FDFS_RECORD_SEPERATOR \<notin> set (meta_value m) \<and>
     length (meta_name m) \<le> FDFS_MAX_META_NAME_LEN \<and> length (meta_value m) \<le> FDFS_MAX_META_VALUE_LEN"

definition meta_row :: "FDFSMetaData \<Rightarrow> string" where
  "meta_row m = meta_name m @ FDFS_FIELD_SEPERATOR # meta_value m"

lemma packed_rows:
  "concat (map (\<lambda>m. meta_name m @ FDFS_FIELD_SEPERATOR # meta_value m @ [FDFS_RECORD_SEPERATOR]) ms)
   = (if ms = [] then [] else join_cols FDFS_RECORD_SEPERATOR (map meta_row ms) @ [FDFS_RECORD_SEPERATOR])"
proof (induction ms)
  case (Cons m ms)
  then show ?case by (cases ms) (auto simp: meta_row_def)
qed simp

lemma count_join_cols:
  "cols \<noteq> [] \<Longrightarrow> \<forall>c \<in> set cols. sep \<notin> set c \<Longrightarrow> count_list (join_cols sep cols) sep + 1 = length cols"
  by (induction sep cols rule: join_cols.induct) (auto simp: count_list_append)

lemma split_rows_back: "\<forall>m \<in> set ms. meta_ok m \<Longrightarrow> split_meta_rows FDFS_FIELD_SEPERATOR (map meta_row ms) = ms"
  by (induction ms) (auto simp: meta_row_def meta_ok_def takeWhile_append dropWhile_append)

section \<open>Properties\<close>

text \<open>
  C36: meta data reads back from its text. For a list of at least one record, whose names
  and values contain no record separator and whose names contain no field separator, and
  which fit their fields, \<open>fdfs_split_metadata_ex\<close> of the text that
  \<open>fdfs_pack_metadata\<close> writes gives the same records in the same order, and the number
  of bytes reported is the length of the text. For an empty list the number of bytes is -1.
\<close>

theorem fdfs_metadata_round_trip:
  assumes "splitEx_ok split" "occur_count_ok occur_count" "\<forall>m \<in> set ms. meta_ok m"
  shows "\<exists>txt n. fst (fdfs_pack_metadata ms False tp) = Some (txt, n) \<and>
    (if ms = [] then n = -1
     else n = int (length txt) \<and>
       fdfs_split_metadata_ex split occur_count txt FDFS_RECORD_SEPERATOR FDFS_FIELD_SEPERATOR [] = (0, Some ms, []))"
proof (cases "ms = []")
  case False
  let ?t = "join_cols FDFS_RECORD_SEPERATOR (map meta_row ms)"
  have free: "\<forall>c \<in> set (map meta_row ms). FDFS_RECORD_SEPERATOR \<notin> set c"
    using assms(3) by (auto simp: meta_row_def meta_ok_def)
  have "count_list ?t FDFS_RECORD_SEPERATOR + 1 = length (map meta_row ms)"
    by (rule count_join_cols) (use False free in auto)
  then have "split ?t FDFS_RECORD_SEPERATOR (occur_count ?t FDFS_RECORD_SEPERATOR + 1) = map meta_row ms"
    using splitEx_free [OF assms(1) _ _ free] False assms(2) by (simp add: occur_count_ok_def)
  then show ?thesis
    using False split_rows_back [OF assms(3)]
    by (simp add: fdfs_pack_metadata_def fdfs_split_metadata_ex_def packed_rows Let_def)
qed (simp add: fdfs_pack_metadata_def)

definition sample_meta :: "FDFSMetaData list" where
  "sample_meta = [\<lparr>meta_name = ''width'', meta_value = ''160''\<rparr>, \<lparr>meta_name = ''height'', meta_value = ''80''\<rparr>]"

theorem fdfs_metadata_round_trip_witness:
  "fst (fdfs_pack_metadata sample_meta False []) = Some (join_cols FDFS_RECORD_SEPERATOR (map meta_row sample_meta), 19) \<and>
   fst (snd (fdfs_split_metadata_ex split_cols count_list (join_cols FDFS_RECORD_SEPERATOR (map meta_row sample_meta))
     FDFS_RECORD_SEPERATOR FDFS_FIELD_SEPERATOR [])) = Some sample_meta"
proof -
  have ok: "\<forall>m \<in> set sample_meta. meta_ok m" by (simp add: sample_meta_def meta_ok_def)
  have p: "fst (fdfs_pack_metadata sample_meta False []) = Some (join_cols FDFS_RECORD_SEPERATOR (map meta_row sample_meta), 19)"
    by (simp add: fdfs_pack_metadata_def sample_meta_def meta_row_def)
  from fdfs_metadata_round_trip [OF split_cols_ok, of count_list sample_meta "[]"] ok p show ?thesis
    by (auto simp: occur_count_ok_def sample_meta_def)
qed

end
