(* ===== verification/Tracker_Mem.thy ===== *)
theory Tracker_Mem
  imports Tracker_Proto Server_Ids Store_Path
begin

text \<open>
  \<open>tracker/tracker_mem.c\<close>: the groups and the storage servers a tracker knows; which servers
  are active, which one takes uploads, which one is the trunk server, and which server a
  client is sent to for a file.

  Pointers. The array \<open>all_servers\<close> of a group only grows; a pointer to a storage server is
  its position there. A pointer to a group is its position in \<open>groups\<close>; when a group is
  deleted the positions of the groups after it move down by one. The number of servers
  (\<open>count\<close>, \<open>active_count\<close>) is the length of the list. Growing the arrays is one allocation
  that can fail.

  Parameters: \<open>F\<close> is libfastcommon, \<open>binlog_size\<close> what the storage server with an address
  reports as the size of its trunk binlog. Saving the groups to a file is one call that can
  fail; the change logs, the timestamps of synchronisation and the statistics are left out,
  as are the variants for the built-in HTTP server.
\<close>

section \<open>Storage servers and groups\<close>

abbreviation (input) FDFS_STORAGE_STATUS_INIT :: int where "FDFS_STORAGE_STATUS_INIT \<equiv> 0"
abbreviation (input) FDFS_STORAGE_STATUS_WAIT_SYNC :: int where "FDFS_STORAGE_STATUS_WAIT_SYNC \<equiv> 1"
abbreviation (input) FDFS_STORAGE_STATUS_SYNCING :: int where "FDFS_STORAGE_STATUS_SYNCING \<equiv> 2"
abbreviation (input) FDFS_STORAGE_STATUS_IP_CHANGED :: int where "FDFS_STORAGE_STATUS_IP_CHANGED \<equiv> 3"
abbreviation (input) FDFS_STORAGE_STATUS_DELETED :: int where "FDFS_STORAGE_STATUS_DELETED \<equiv> 4"
abbreviation (input) FDFS_STORAGE_STATUS_OFFLINE :: int where "FDFS_STORAGE_STATUS_OFFLINE \<equiv> 5"
abbreviation (input) FDFS_STORAGE_STATUS_ONLINE :: int where "FDFS_STORAGE_STATUS_ONLINE \<equiv> 6"
abbreviation (input) FDFS_STORAGE_STATUS_ACTIVE :: int where "FDFS_STORAGE_STATUS_ACTIVE \<equiv> 7"
abbreviation (input) FDFS_STORAGE_STATUS_RECOVERY :: int where "FDFS_STORAGE_STATUS_RECOVERY \<equiv> 9"
abbreviation (input) FDFS_STORAGE_STATUS_NONE :: int where "FDFS_STORAGE_STATUS_NONE \<equiv> 99"

abbreviation (input) FDFS_STORE_SERVER_ROUND_ROBIN :: int where "FDFS_STORE_SERVER_ROUND_ROBIN \<equiv> 0"
abbreviation (input) FDFS_STORE_SERVER_FIRST_BY_PRI :: int where "FDFS_STORE_SERVER_FIRST_BY_PRI \<equiv> 2"
abbreviation (input) FDFS_DOWNLOAD_SERVER_ROUND_ROBIN :: int where "FDFS_DOWNLOAD_SERVER_ROUND_ROBIN \<equiv> 0"
abbreviation (input) FDFS_DOWNLOAD_SERVER_SOURCE_FIRST :: int where "FDFS_DOWNLOAD_SERVER_SOURCE_FIRST \<equiv> 1"
abbreviation (input) FDFS_STORE_LOOKUP_SPEC_GROUP :: int where "FDFS_STORE_LOOKUP_SPEC_GROUP \<equiv> 1"
abbreviation (input) TRACKER_MEM_ALLOC_ONCE :: nat where "TRACKER_MEM_ALLOC_ONCE \<equiv> 2"

record FDFSStorageDetail =
  st_status :: int
  st_id :: string
  st_ip_addrs :: FDFSMultiIP
  psync_src_server :: "nat option"
  sync_until_timestamp :: int
  st_total_mb :: int
  st_free_mb :: int
  changelog_offset :: int
  up_time :: int
  st_store_path_count :: int
  st_subdir_count_per_path :: int
  upload_priority :: int
  current_write_path :: int
  st_chg_count :: int
  st_trunk_chg_count :: int
  last_synced_timestamp :: int
  last_heart_beat_time :: int

definition zero_storage :: FDFSStorageDetail where
  "zero_storage = \<lparr>st_status = 0, st_id = [], st_ip_addrs = \<lparr>multi_index = 0, multi_ips = []\<rparr>, psync_src_server = None,
     sync_until_timestamp = 0, st_total_mb = 0, st_free_mb = 0, changelog_offset = 0, up_time = 0, st_store_path_count = 0,
     st_subdir_count_per_path = 0, upload_priority = 0, current_write_path = 0, st_chg_count = 0, st_trunk_chg_count = 0,
     last_synced_timestamp = 0, last_heart_beat_time = 0\<rparr>"

definition FDFS_CURRENT_IP_ADDR :: "FDFSStorageDetail \<Rightarrow> string" where
  "FDFS_CURRENT_IP_ADDR s = ip_address (multi_ips (st_ip_addrs s) ! nat (multi_index (st_ip_addrs s)))"

record FDFSGroupInfo =
  group_name :: string
  alloc_size :: nat
  grp_storage_port :: int
  all_servers :: "FDFSStorageDetail list"
  sorted_servers :: "nat list"
  active_servers :: "nat list"
  pStoreServer :: "nat option"
  pTrunkServer :: "nat option"
  last_trunk_server_id :: string
  current_read_server :: int
  current_write_server :: int
  grp_chg_count :: int
  grp_trunk_chg_count :: int

record FDFSGroups =
  grps_alloc_size :: nat
  groups :: "FDFSGroupInfo list"
  sorted_groups :: "nat list"
  pStoreGroup :: "nat option"
  store_lookup :: int
  store_server :: int
  download_server :: int
  store_group :: string

text \<open>The global variables the functions read, and the parameters.\<close>

record tracker_conf =
  tc_fc :: fc_api
  g_use_storage_id :: bool
  tc_ids :: storage_ids
  g_if_use_trunk_file :: bool
  g_check_active_interval :: int
  g_trunk_init_check_occupying :: bool
  g_trunk_init_reload_from_binlog :: bool
  g_storage_sync_file_max_delay :: int
  g_storage_sync_file_max_time :: int
  binlog_size :: "string \<Rightarrow> int"

abbreviation server :: "FDFSGroupInfo \<Rightarrow> nat \<Rightarrow> FDFSStorageDetail" where
  "server g i \<equiv> all_servers g ! i"

definition upd_server :: "nat \<Rightarrow> (FDFSStorageDetail \<Rightarrow> FDFSStorageDetail) \<Rightarrow> FDFSGroupInfo \<Rightarrow> FDFSGroupInfo" where
  "upd_server i f g = g\<lparr>all_servers := (all_servers g)[i := f (server g i)]\<rparr>"

section \<open>Sorted arrays\<close>

definition tracker_mem_cmp_by_storage_id :: "FDFSStorageDetail \<Rightarrow> FDFSStorageDetail \<Rightarrow> int" where
  "tracker_mem_cmp_by_storage_id p1 p2 = strcmp (st_id p1) (st_id p2)"

definition tracker_mem_cmp_by_group_name :: "FDFSGroupInfo \<Rightarrow> FDFSGroupInfo \<Rightarrow> int" where
  "tracker_mem_cmp_by_group_name p1 p2 = strcmp (group_name p1) (group_name p2)"

text \<open>
  The insertion loops run from the end of the array; \<open>rs\<close> is the reversed array, \<open>name\<close> the
  id of a server or the name of a group.
\<close>

fun insert_loop :: "(nat \<Rightarrow> string) \<Rightarrow> nat \<Rightarrow> nat list \<Rightarrow> nat list" where
  "insert_loop name t [] = [t]"
| "insert_loop name t (p # rs) = (if strcmp (name t) (name p) > 0 then t # p # rs else p # insert_loop name t rs)"

definition tracker_mem_insert_into_sorted_servers :: "FDFSGroupInfo \<Rightarrow> nat \<Rightarrow> nat list \<Rightarrow> nat list" where
  "tracker_mem_insert_into_sorted_servers g t ps = rev (insert_loop (\<lambda>i. st_id (server g i)) t (rev ps))"

definition tracker_mem_insert_into_sorted_groups :: "FDFSGroups \<Rightarrow> nat \<Rightarrow> nat list" where
  "tracker_mem_insert_into_sorted_groups gs t = rev (insert_loop (\<lambda>i. group_name (groups gs ! i)) t (rev (sorted_groups gs)))"

text \<open>A search by id in an array of pointers to servers.\<close>

definition search_servers :: "FDFSGroupInfo \<Rightarrow> string \<Rightarrow> nat list \<Rightarrow> nat option" where
  "search_servers g i ps = bsearch tracker_mem_cmp_by_storage_id (zero_storage\<lparr>st_id := i\<rparr>) (map (server g) ps)"

definition tracker_mem_get_storage :: "FDFSGroupInfo \<Rightarrow> string \<Rightarrow> nat option" where
  "tracker_mem_get_storage g i = map_option (\<lambda>k. sorted_servers g ! k) (search_servers g i (sorted_servers g))"

definition tracker_mem_get_active_storage_by_id :: "FDFSGroupInfo \<Rightarrow> string \<Rightarrow> nat option" where
  "tracker_mem_get_active_storage_by_id g i = map_option (\<lambda>k. active_servers g ! k) (search_servers g i (active_servers g))"

definition tracker_mem_get_active_storage_by_ip :: "tracker_conf \<Rightarrow> FDFSGroupInfo \<Rightarrow> string \<Rightarrow> nat option" where
  "tracker_mem_get_active_storage_by_ip c g ip =
     (if \<not> g_use_storage_id c then tracker_mem_get_active_storage_by_id g ip
      else
        (case fdfs_get_storage_id_by_ip (tc_ids c) (group_name g) ip of
           None \<Rightarrow> None | Some pStorageId \<Rightarrow> tracker_mem_get_active_storage_by_id g (si_id pStorageId)))"

definition tracker_mem_get_storage_by_ip :: "tracker_conf \<Rightarrow> FDFSGroupInfo \<Rightarrow> string \<Rightarrow> nat option" where
  "tracker_mem_get_storage_by_ip c g ip =
     (if g_use_storage_id c then
        (case fdfs_get_storage_id_by_ip (tc_ids c) (group_name g) ip of
           None \<Rightarrow> None | Some pStorageIdInfo \<Rightarrow> tracker_mem_get_storage g (si_id pStorageIdInfo))
      else tracker_mem_get_storage g ip)"

definition empty_group :: FDFSGroupInfo where
  "empty_group = \<lparr>group_name = [], alloc_size = 0, grp_storage_port = 0, all_servers = [], sorted_servers = [], active_servers = [],
     pStoreServer = None, pTrunkServer = None, last_trunk_server_id = [], current_read_server = 0, current_write_server = 0,
     grp_chg_count = 0, grp_trunk_chg_count = 0\<rparr>"

definition tracker_mem_get_group_ex :: "FDFSGroups \<Rightarrow> string \<Rightarrow> nat option" where
  "tracker_mem_get_group_ex gs name =
     map_option (\<lambda>k. sorted_groups gs ! k)
       (bsearch tracker_mem_cmp_by_group_name (empty_group\<lparr>group_name := name\<rparr>) (map (\<lambda>i. groups gs ! i) (sorted_groups gs)))"

section \<open>The server for uploads and the trunk server\<close>

fun min_pri_loop :: "FDFSGroupInfo \<Rightarrow> nat \<Rightarrow> nat list \<Rightarrow> nat" where
  "min_pri_loop g pMinPriServer [] = pMinPriServer"
| "min_pri_loop g pMinPriServer (p # ps) =
     min_pri_loop g (if upload_priority (server g p) < upload_priority (server g pMinPriServer) then p else pMinPriServer) ps"

text \<open>\<open>store_srv\<close> is \<open>g_groups.store_server\<close>.\<close>

definition tracker_mem_find_store_server :: "int \<Rightarrow> FDFSGroupInfo \<Rightarrow> FDFSGroupInfo" where
  "tracker_mem_find_store_server store_srv g =
     (if active_servers g = [] then g\<lparr>pStoreServer := None\<rparr>
      else if store_srv = FDFS_STORE_SERVER_FIRST_BY_PRI
      then g\<lparr>pStoreServer := Some (min_pri_loop g (hd (active_servers g)) (tl (active_servers g)))\<rparr>
      else g\<lparr>pStoreServer := Some (hd (active_servers g))\<rparr>)"

definition storage_get_trunk_binlog_size :: "fc_api \<Rightarrow> int \<Rightarrow> ext_tape \<Rightarrow> int \<times> int \<times> ext_tape" where
  "storage_get_trunk_binlog_size F sz tp =
     (case ext_call EIO tp of
        (result, tp1) \<Rightarrow>
          if result \<noteq> 0 then (result, 0, tp1)
          else
            (case fdfs_recv_response (Some 8) \<lparr>hdr_pkg_len = 8, hdr_status = 0\<rparr> (long2buff F sz) tp1 of
               (result, in_bytes, in_buff, tp2) \<Rightarrow>
                 if result \<noteq> 0 then (result, 0, tp2)
                 else if in_bytes \<noteq> 8 then (EINVAL, 0, tp2)
                 else (0, buff2long F in_buff, tp2)))"

definition tracker_mem_get_trunk_binlog_size :: "tracker_conf \<Rightarrow> string \<Rightarrow> ext_tape \<Rightarrow> int \<times> int \<times> ext_tape" where
  "tracker_mem_get_trunk_binlog_size c storage_ip tp =
     (case ext_call ETIMEDOUT tp of
        (result, tp1) \<Rightarrow>
          if result \<noteq> 0 then (result, 0, tp1) else storage_get_trunk_binlog_size (tc_fc c) (binlog_size c storage_ip) tp1)"

text \<open>The log of changes of the trunk server is opened and written; the result is not used.\<close>

definition tracker_write_to_trunk_change_log :: "ext_tape \<Rightarrow> int \<times> ext_tape" where
  "tracker_write_to_trunk_change_log tp =
     (case ext_call ENOENT tp of (result, tp1) \<Rightarrow> if result \<noteq> 0 then (result, tp1) else (0, snd (ext_pop tp1)))"

definition tracker_set_trunk_server_and_log :: "nat option \<Rightarrow> FDFSGroupInfo \<Rightarrow> ext_tape \<Rightarrow> int \<times> FDFSGroupInfo \<times> ext_tape" where
  "tracker_set_trunk_server_and_log pNewTrunkServer g tp =
     (let g1 = g\<lparr>pTrunkServer := pNewTrunkServer\<rparr>;
          new_id = (case pNewTrunkServer of None \<Rightarrow> [] | Some p \<Rightarrow> st_id (server g p)) in
      if pNewTrunkServer = None \<or> new_id \<noteq> last_trunk_server_id g
      then (case tracker_write_to_trunk_change_log tp of (result, tp1) \<Rightarrow> (result, g1\<lparr>last_trunk_server_id := new_id\<rparr>, tp1))
      else (0, g1, tp))"

text \<open>
  \<open>cnt\<close> is \<open>g_trunk_server_chg_count\<close>. When another server was the trunk server before, the
  new one is asked to delete the marks of its binlog.
\<close>

definition tracker_mem_do_set_trunk_server ::
    "nat \<Rightarrow> bool \<Rightarrow> FDFSGroupInfo \<Rightarrow> int \<Rightarrow> ext_tape \<Rightarrow> int \<times> FDFSGroupInfo \<times> int \<times> ext_tape" where
  "tracker_mem_do_set_trunk_server p save g cnt tp =
     (case (if last_trunk_server_id g \<noteq> [] \<and> st_id (server g p) \<noteq> last_trunk_server_id g
            then (case ext_call ETIMEDOUT tp of
                    (r, tp0) \<Rightarrow> if r \<noteq> 0 then (r, tp0) else fdfs_deal_no_body_cmd \<lparr>hdr_pkg_len = 0, hdr_status = 0\<rparr> tp0)
            else (0, tp)) of
        (result, tp1) \<Rightarrow>
          if result \<noteq> 0 then (result, g, cnt, tp1)
          else
            (case tracker_set_trunk_server_and_log (Some p) g tp1 of
               (_, g1, tp2) \<Rightarrow>
                 let g2 = g1\<lparr>grp_trunk_chg_count := grp_trunk_chg_count g1 + 1\<rparr> in
                 if save then (case ext_call EIO tp2 of (r, tp3) \<Rightarrow> (r, g2, cnt + 1, tp3))
                 else (0, g2, cnt + 1, tp2)))"

fun find_trunk_loop :: "tracker_conf \<Rightarrow> FDFSGroupInfo \<Rightarrow> int \<Rightarrow> nat \<Rightarrow> nat list \<Rightarrow> ext_tape \<Rightarrow> nat \<times> ext_tape" where
  "find_trunk_loop c g max_file_size pStore [] tp = (pStore, tp)"
| "find_trunk_loop c g max_file_size pStore (p # ps) tp =
     (if p = pStore then find_trunk_loop c g max_file_size pStore ps tp
      else
        (case tracker_mem_get_trunk_binlog_size c (FDFS_CURRENT_IP_ADDR (server g p)) tp of
           (result, file_size, tp1) \<Rightarrow>
             if result \<noteq> 0 then find_trunk_loop c g max_file_size pStore ps tp1
             else find_trunk_loop c g max_file_size (if file_size > max_file_size then p else pStore) ps tp1))"

definition tracker_mem_find_trunk_server ::
    "tracker_conf \<Rightarrow> bool \<Rightarrow> FDFSGroupInfo \<Rightarrow> int \<Rightarrow> ext_tape \<Rightarrow> int \<times> FDFSGroupInfo \<times> int \<times> ext_tape" where
  "tracker_mem_find_trunk_server c save g cnt tp =
     (case pStoreServer g of
        None \<Rightarrow> (ENOENT, g, cnt, tp)
      | Some pStore \<Rightarrow>
          (case tracker_mem_get_trunk_binlog_size c (FDFS_CURRENT_IP_ADDR (server g pStore)) tp of
             (result, max_file_size, tp1) \<Rightarrow>
               if result \<noteq> 0 then (result, g, cnt, tp1)
               else
                 (case find_trunk_loop c g max_file_size pStore (active_servers g) tp1 of
                    (p, tp2) \<Rightarrow> tracker_mem_do_set_trunk_server p save g cnt tp2)))"


text \<open>\<open>leader\<close> is \<open>g_if_leader_self\<close>; the result is the error number and the server.\<close>

definition tracker_mem_set_trunk_server ::
    "tracker_conf \<Rightarrow> bool \<Rightarrow> string \<Rightarrow> FDFSGroupInfo \<Rightarrow> int \<Rightarrow> ext_tape \<Rightarrow> int \<times> nat option \<times> FDFSGroupInfo \<times> int \<times> ext_tape" where
  "tracker_mem_set_trunk_server c leader pStroageId g cnt tp =
     (if \<not> (leader \<and> g_if_use_trunk_file c) then (EOPNOTSUPP, None, g, cnt, tp)
      else
        let active = (case pTrunkServer g of None \<Rightarrow> False | Some p \<Rightarrow> st_status (server g p) = FDFS_STORAGE_STATUS_ACTIVE) in
        if pStroageId = [] then
          (if active then (0, pTrunkServer g, g, cnt, tp)
           else
             (case tracker_mem_find_trunk_server c True g cnt tp of
                (result, g1, cnt1, tp1) \<Rightarrow> (result, if result \<noteq> 0 then None else pTrunkServer g1, g1, cnt1, tp1)))
        else if active then
          (if pStroageId = st_id (server g (the (pTrunkServer g))) then EALREADY else EEXIST, pTrunkServer g, g, cnt, tp)
        else
          (case tracker_mem_get_storage g pStroageId of
             None \<Rightarrow> (ENOENT, None, g, cnt, tp)
           | Some p \<Rightarrow>
               if st_status (server g p) \<noteq> FDFS_STORAGE_STATUS_ACTIVE then (ENONET, None, g, cnt, tp)
               else
                 (case tracker_mem_do_set_trunk_server p True g cnt tp of
                    (result, g1, cnt1, tp1) \<Rightarrow> (result, if result = 0 then pTrunkServer g1 else None, g1, cnt1, tp1))))"

fun find_trunk_servers_loop :: "tracker_conf \<Rightarrow> FDFSGroupInfo list \<Rightarrow> int \<Rightarrow> ext_tape \<Rightarrow> FDFSGroupInfo list \<times> int \<times> ext_tape" where
  "find_trunk_servers_loop c [] cnt tp = ([], cnt, tp)"
| "find_trunk_servers_loop c (g # gs) cnt tp =
     (case (if pTrunkServer g = None
            then (case tracker_mem_find_trunk_server c True g cnt tp of (_, g1, cnt1, tp1) \<Rightarrow> (g1, cnt1, tp1))
            else (g, cnt, tp)) of
        (g1, cnt1, tp1) \<Rightarrow>
          (case find_trunk_servers_loop c gs cnt1 tp1 of (gs', cnt2, tp2) \<Rightarrow> (g1 # gs', cnt2, tp2)))"

definition tracker_mem_find_trunk_servers ::
    "tracker_conf \<Rightarrow> bool \<Rightarrow> FDFSGroups \<Rightarrow> int \<Rightarrow> ext_tape \<Rightarrow> FDFSGroups \<times> int \<times> ext_tape" where
  "tracker_mem_find_trunk_servers c leader gs cnt tp =
     (if \<not> (leader \<and> g_if_use_trunk_file c) then (gs, cnt, tp)
      else
        (case find_trunk_servers_loop c (groups gs) cnt tp of
           (groups', cnt', tp') \<Rightarrow> (gs\<lparr>groups := groups'\<rparr>, cnt' + 1, tp')))"

section \<open>Active servers\<close>

definition tracker_mem_deactive_store_server :: "int \<Rightarrow> nat \<Rightarrow> FDFSGroupInfo \<Rightarrow> FDFSGroupInfo" where
  "tracker_mem_deactive_store_server store_srv p g =
     tracker_mem_find_store_server store_srv
       (case search_servers g (st_id (server g p)) (active_servers g) of
          None \<Rightarrow> g
        | Some k \<Rightarrow>
            (upd_server (active_servers g ! k) (\<lambda>s. s\<lparr>st_chg_count := 0, st_trunk_chg_count := 0\<rparr>) g)
              \<lparr>active_servers := take k (active_servers g) @ drop (Suc k) (active_servers g), grp_chg_count := grp_chg_count g + 1\<rparr>)"

definition tracker_mem_active_store_server ::
    "tracker_conf \<Rightarrow> int \<Rightarrow> bool \<Rightarrow> nat \<Rightarrow> FDFSGroupInfo \<Rightarrow> int \<Rightarrow> ext_tape \<Rightarrow> int \<times> FDFSGroupInfo \<times> int \<times> ext_tape" where
  "tracker_mem_active_store_server c store_srv leader p g cnt tp =
     (if st_status (server g p) \<in> {FDFS_STORAGE_STATUS_WAIT_SYNC, FDFS_STORAGE_STATUS_SYNCING,
           FDFS_STORAGE_STATUS_IP_CHANGED, FDFS_STORAGE_STATUS_INIT}
      then (0, g, cnt, tp)
      else
        let g1 = upd_server p (\<lambda>s. s\<lparr>st_status := FDFS_STORAGE_STATUS_ACTIVE\<rparr>) g in
        if search_servers g1 (st_id (server g1 p)) (active_servers g1) \<noteq> None then (0, g1, cnt, tp)
        else
          let g2 = g1\<lparr>active_servers := tracker_mem_insert_into_sorted_servers g1 p (active_servers g1),
                      grp_chg_count := grp_chg_count g1 + 1\<rparr>;
              g3 = tracker_mem_find_store_server store_srv g2
          in if leader \<and> g_if_use_trunk_file c \<and> pTrunkServer g3 = None
             then (case tracker_mem_find_trunk_server c True g3 cnt tp of (_, g4, cnt1, tp1) \<Rightarrow> (0, g4, cnt1, tp1))
             else (0, g3, cnt, tp))"

definition tracker_mem_offline_store_server :: "int \<Rightarrow> nat \<Rightarrow> FDFSGroupInfo \<Rightarrow> FDFSGroupInfo" where
  "tracker_mem_offline_store_server store_srv p g =
     (let g1 = upd_server p (\<lambda>s. s\<lparr>up_time := 0\<rparr>) g in
      if st_status (server g p) \<in> {FDFS_STORAGE_STATUS_WAIT_SYNC, FDFS_STORAGE_STATUS_SYNCING, FDFS_STORAGE_STATUS_INIT,
           FDFS_STORAGE_STATUS_DELETED, FDFS_STORAGE_STATUS_IP_CHANGED, FDFS_STORAGE_STATUS_RECOVERY}
      then g1
      else tracker_mem_deactive_store_server store_srv p (upd_server p (\<lambda>s. s\<lparr>st_status := FDFS_STORAGE_STATUS_OFFLINE\<rparr>) g1))"

text \<open>
  The result \<open>None\<close> is no server. (Without active servers the code reads the first entry of
  the array all the same; its callers have checked that there is one.)
\<close>

definition tracker_get_writable_storage :: "int \<Rightarrow> FDFSGroupInfo \<Rightarrow> nat option \<times> FDFSGroupInfo" where
  "tracker_get_writable_storage store_srv g =
     (if store_srv = FDFS_STORE_SERVER_ROUND_ROBIN then
        let idx = current_write_server g; n = int (length (active_servers g));
            g1 = g\<lparr>current_write_server := (if idx + 1 \<ge> n then 0 else idx + 1)\<rparr>;
            idx' = (if idx \<ge> n then 0 else idx)
        in (if active_servers g = [] then None else Some (active_servers g ! nat idx'), g1)
      else (pStoreServer g, g))"

text \<open>The servers whose last heart beat is too long ago, at most 32.\<close>

definition idle_servers :: "tracker_conf \<Rightarrow> int \<Rightarrow> FDFSGroupInfo \<Rightarrow> nat list" where
  "idle_servers c now g =
     take 32 (filter (\<lambda>p. now - last_heart_beat_time (server g p) > g_check_active_interval c) (active_servers g))"

definition check_alive_group :: "tracker_conf \<Rightarrow> int \<Rightarrow> int \<Rightarrow> FDFSGroupInfo \<Rightarrow> FDFSGroupInfo" where
  "check_alive_group c store_srv now g =
     fold (\<lambda>p g. tracker_mem_deactive_store_server store_srv p (upd_server p (\<lambda>s. s\<lparr>st_status := FDFS_STORAGE_STATUS_OFFLINE\<rparr>) g))
       (idle_servers c now g) g"

definition check_trunk_times :: "tracker_conf \<Rightarrow> int \<Rightarrow> FDFSStorageDetail \<Rightarrow> int" where
  "check_trunk_times c now s =
     (if now - up_time s \<le> 10 * g_check_active_interval c
      then (if g_trunk_init_check_occupying c then 5 else 3) * (if g_trunk_init_reload_from_binlog c then 2 else 1)
      else 2)"

definition check_trunk_group ::
    "tracker_conf \<Rightarrow> int \<Rightarrow> FDFSGroupInfo \<Rightarrow> int \<Rightarrow> ext_tape \<Rightarrow> FDFSGroupInfo \<times> int \<times> ext_tape" where
  "check_trunk_group c now g cnt tp =
     (case pTrunkServer g of
        Some t \<Rightarrow>
          if now - last_heart_beat_time (server g t) > check_trunk_times c now (server g t) * g_check_active_interval c then
            (case tracker_mem_find_trunk_server c False (g\<lparr>pTrunkServer := None\<rparr>) cnt tp of
               (_, g1, cnt1, tp1) \<Rightarrow>
                 (case (if pTrunkServer g1 = None
                        then (case tracker_set_trunk_server_and_log None g1 tp1 of (_, g2, tp2) \<Rightarrow> (g2, tp2))
                        else (g1, tp1)) of
                    (g2, tp2) \<Rightarrow> (g2\<lparr>grp_trunk_chg_count := grp_trunk_chg_count g2 + 1\<rparr>, cnt1 + 1, snd (ext_pop tp2))))
          else (g, cnt, tp)
      | None \<Rightarrow> (case tracker_mem_find_trunk_server c True g cnt tp of (_, g1, cnt1, tp1) \<Rightarrow> (g1, cnt1, tp1)))"

fun check_trunk_loop ::
    "tracker_conf \<Rightarrow> int \<Rightarrow> FDFSGroupInfo list \<Rightarrow> int \<Rightarrow> ext_tape \<Rightarrow> FDFSGroupInfo list \<times> int \<times> ext_tape" where
  "check_trunk_loop c now [] cnt tp = ([], cnt, tp)"
| "check_trunk_loop c now (g # gs) cnt tp =
     (case check_trunk_group c now g cnt tp of
        (g1, cnt1, tp1) \<Rightarrow> (case check_trunk_loop c now gs cnt1 tp1 of (gs', cnt2, tp2) \<Rightarrow> (g1 # gs', cnt2, tp2)))"

definition tracker_mem_check_alive ::
    "tracker_conf \<Rightarrow> bool \<Rightarrow> int \<Rightarrow> FDFSGroups \<Rightarrow> int \<Rightarrow> ext_tape \<Rightarrow> FDFSGroups \<times> int \<times> ext_tape" where
  "tracker_mem_check_alive c leader now gs cnt tp =
     (let groups1 = map (check_alive_group c (store_server gs) now) (groups gs) in
      if \<not> leader \<or> \<not> g_if_use_trunk_file c then (gs\<lparr>groups := groups1\<rparr>, cnt, tp)
      else (case check_trunk_loop c now groups1 cnt tp of (groups2, cnt1, tp1) \<Rightarrow> (gs\<lparr>groups := groups2\<rparr>, cnt1, tp1)))"


section \<open>Adding and deleting servers and groups\<close>

definition tracker_mem_clear_storage_fields :: "FDFSStorageDetail \<Rightarrow> FDFSStorageDetail" where
  "tracker_mem_clear_storage_fields s =
     s\<lparr>psync_src_server := None, sync_until_timestamp := 0, st_total_mb := 0, st_free_mb := 0, changelog_offset := 0,
       st_store_path_count := 0, st_subdir_count_per_path := 0, upload_priority := 0, current_write_path := 0,
       last_synced_timestamp := 0, last_heart_beat_time := 0\<rparr>"

definition tracker_mem_delete_storage :: "FDFSGroupInfo \<Rightarrow> string \<Rightarrow> int \<times> FDFSGroupInfo" where
  "tracker_mem_delete_storage g i =
     (case tracker_mem_get_storage g i of
        None \<Rightarrow> (ENOENT, g)
      | Some p \<Rightarrow>
          let st = st_status (server g p) in
          if st = FDFS_STORAGE_STATUS_IP_CHANGED then (ENOENT, g)
          else if st \<in> {FDFS_STORAGE_STATUS_ONLINE, FDFS_STORAGE_STATUS_ACTIVE, FDFS_STORAGE_STATUS_RECOVERY} then (EBUSY, g)
          else if st = FDFS_STORAGE_STATUS_DELETED then (EALREADY, g)
          else
            let unlinked = map (\<lambda>s. case psync_src_server s of
                    Some q \<Rightarrow> if st_id (server g q) = i then s\<lparr>psync_src_server := None\<rparr> else s | None \<Rightarrow> s) (all_servers g);
                g1 = g\<lparr>all_servers := unlinked, grp_chg_count := grp_chg_count g + 1\<rparr>
            in (0, upd_server p (\<lambda>s. (tracker_mem_clear_storage_fields s)\<lparr>st_status := FDFS_STORAGE_STATUS_DELETED\<rparr>) g1))"

text \<open>
  Growing the arrays of a group: the new server structures are zero, the server for uploads
  and the trunk server are chosen again.
\<close>

definition tracker_mem_realloc_store_servers ::
    "tracker_conf \<Rightarrow> int \<Rightarrow> bool \<Rightarrow> nat \<Rightarrow> FDFSGroupInfo \<Rightarrow> int \<Rightarrow> ext_tape \<Rightarrow> int \<times> FDFSGroupInfo \<times> int \<times> ext_tape" where
  "tracker_mem_realloc_store_servers c store_srv leader inc_count g cnt tp =
     (case ext_call ENOMEM tp of
        (result, tp1) \<Rightarrow>
          if result \<noteq> 0 then (result, g, cnt, tp1)
          else
            let g1 = tracker_mem_find_store_server store_srv (g\<lparr>alloc_size := alloc_size g + inc_count + TRACKER_MEM_ALLOC_ONCE\<rparr>) in
            if leader \<and> g_if_use_trunk_file c
            then (case tracker_mem_find_trunk_server c True g1 cnt tp1 of (_, g2, cnt1, tp2) \<Rightarrow> (0, g2, cnt1, tp2))
            else (0, g1, cnt, tp1))"

text \<open>
  The id and the addresses of a server that reports \<open>ip\<close> and, when \<open>i\<close> is not \<open>None\<close>, the id \<open>i\<close>.
\<close>

definition storage_identity :: "tracker_conf \<Rightarrow> FDFSGroupInfo \<Rightarrow> string option \<Rightarrow> string \<Rightarrow> int + string \<times> FDFSMultiIP" where
  "storage_identity c g i ip =
     (let one = \<lparr>multi_index = 0, multi_ips = [\<lparr>ip_type = 0, ip_address = ip\<rparr>]\<rparr> in
      case i of
        Some j \<Rightarrow>
          if g_use_storage_id c then
            (case fdfs_get_storage_by_id (tc_ids c) j of
               None \<Rightarrow> Inl ENOENT
             | Some info \<Rightarrow> if si_group_name info \<noteq> group_name g then Inl EINVAL else Inr (j, si_ip_addrs info))
          else Inr (j, one)
      | None \<Rightarrow>
          if g_use_storage_id c then
            (case fdfs_get_storage_id_by_ip (tc_ids c) (group_name g) ip of
               None \<Rightarrow> Inl ENOENT | Some info \<Rightarrow> Inr (si_id info, si_ip_addrs info))
          else Inr (ip, one))"

definition set_ip_index :: "tracker_conf \<Rightarrow> string \<Rightarrow> FDFSStorageDetail \<Rightarrow> FDFSStorageDetail" where
  "set_ip_index c ip s = (if g_use_storage_id c then s\<lparr>st_ip_addrs := fdfs_set_multi_ip_index (st_ip_addrs s) ip\<rparr> else s)"

text \<open>The result is the error number, the server and \<open>bInserted\<close>.\<close>

definition mem_add_storage ::
    "tracker_conf \<Rightarrow> int \<Rightarrow> bool \<Rightarrow> string option \<Rightarrow> string \<Rightarrow> FDFSGroupInfo \<Rightarrow> int \<Rightarrow> ext_tape \<Rightarrow>
     int \<times> nat option \<times> bool \<times> FDFSGroupInfo \<times> int \<times> ext_tape" where
  "mem_add_storage c store_srv leader i ip g cnt tp =
     (if ip = [] then (EINVAL, None, False, g, cnt, tp)
      else
        (case storage_identity c g i ip of
           Inl r \<Rightarrow> (r, None, False, g, cnt, tp)
         | Inr (storage_id, multi_ip) \<Rightarrow>
             (case tracker_mem_get_storage g storage_id of
                Some p \<Rightarrow>
                  (0, Some p, False,
                   upd_server p (\<lambda>s. let s1 = set_ip_index c ip s in
                     if st_status s1 \<in> {FDFS_STORAGE_STATUS_DELETED, FDFS_STORAGE_STATUS_IP_CHANGED}
                     then s1\<lparr>st_status := FDFS_STORAGE_STATUS_INIT\<rparr> else s1) g, cnt, tp)
              | None \<Rightarrow>
                  (case (if length (all_servers g) \<ge> alloc_size g
                         then tracker_mem_realloc_store_servers c store_srv leader 1 g cnt tp else (0, g, cnt, tp)) of
                     (result, g1, cnt1, tp1) \<Rightarrow>
                       if result \<noteq> 0 then (result, None, False, g1, cnt1, tp1)
                       else
                         let p = length (all_servers g1);
                             s = set_ip_index c ip (zero_storage\<lparr>st_id := snprintf_s 16 storage_id, st_ip_addrs := multi_ip\<rparr>);
                             g2 = g1\<lparr>all_servers := all_servers g1 @ [s]\<rparr>
                         in (0, Some p, True,
                             g2\<lparr>sorted_servers := tracker_mem_insert_into_sorted_servers g2 p (sorted_servers g2),
                                grp_chg_count := grp_chg_count g2 + 1\<rparr>, cnt1, tp1)))))"

text \<open>
  Addresses change only in a cluster that uses addresses as ids. The new entry gets the old
  address and the old entry the new one, so that the old entry keeps its place. (The two
  addresses come from buffers of the size of an address.)
\<close>

definition tracker_mem_storage_ip_changed ::
    "tracker_conf \<Rightarrow> int \<Rightarrow> bool \<Rightarrow> string \<Rightarrow> string \<Rightarrow> FDFSGroupInfo \<Rightarrow> int \<Rightarrow> ext_tape \<Rightarrow> int \<times> FDFSGroupInfo \<times> int \<times> ext_tape" where
  "tracker_mem_storage_ip_changed c store_srv leader old_ip new_ip g cnt tp =
     (if g_use_storage_id c then (EOPNOTSUPP, g, cnt, tp)
      else
        (case tracker_mem_get_storage g old_ip of
           None \<Rightarrow> (ENOENT, g, cnt, tp)
         | Some pOld \<Rightarrow>
             let st = st_status (server g pOld) in
             if st = FDFS_STORAGE_STATUS_DELETED then (ENOENT, g, cnt, tp)
             else if st \<in> {FDFS_STORAGE_STATUS_ONLINE, FDFS_STORAGE_STATUS_ACTIVE, FDFS_STORAGE_STATUS_RECOVERY} then (EBUSY, g, cnt, tp)
             else if st = FDFS_STORAGE_STATUS_IP_CHANGED then (EALREADY, g, cnt, tp)
             else if (case tracker_mem_get_storage g new_ip of
                        None \<Rightarrow> False | Some q \<Rightarrow> st_status (server g q) \<noteq> FDFS_STORAGE_STATUS_DELETED)
             then (EEXIST, g, cnt, tp)
             else
               (case mem_add_storage c store_srv leader (Some new_ip) new_ip g cnt tp of
                  (result, pNew, bInserted, g1, cnt1, tp1) \<Rightarrow>
                    if result \<noteq> 0 then (result, g1, cnt1, tp1)
                    else if \<not> bInserted then (EEXIST, g1, cnt1, tp1)
                    else
                      let rename = (\<lambda>a s. s\<lparr>st_id := snprintf_s 16 a,
                            st_ip_addrs := (st_ip_addrs s)\<lparr>multi_ips := (multi_ips (st_ip_addrs s))
                              [0 := (multi_ips (st_ip_addrs s) ! 0)\<lparr>ip_address := a\<rparr>]\<rparr>\<rparr>);
                          g2 = upd_server pOld (rename new_ip) g1;
                          g3 = upd_server (the pNew) (\<lambda>s. (rename old_ip s)\<lparr>st_status := FDFS_STORAGE_STATUS_IP_CHANGED\<rparr>) g2;
                          g4 = g3\<lparr>grp_chg_count := grp_chg_count g3 + 1,
                                sorted_servers := qsort_by (\<lambda>p q. tracker_mem_cmp_by_storage_id (server g3 p) (server g3 q)) (sorted_servers g3)\<rparr>
                      in (case ext_call EIO tp1 of (r, tp2) \<Rightarrow> (r, g4, cnt1, tp2)))))"

text \<open>What another tracker reports of a server (\<open>FDFSStorageBrief\<close>).\<close>

record FDFSStorageBrief =
  br_status :: int
  br_id :: string
  br_ip_addr :: string

definition sync_one_storage ::
    "tracker_conf \<Rightarrow> int \<Rightarrow> bool \<Rightarrow> FDFSStorageBrief \<Rightarrow> FDFSGroupInfo \<Rightarrow> int \<Rightarrow> ext_tape \<Rightarrow> int \<Rightarrow>
     int \<times> FDFSGroupInfo \<times> int \<times> ext_tape" where
  "sync_one_storage c store_srv leader b g cnt tp result =
     (if br_status b = FDFS_STORAGE_STATUS_NONE then (result, g, cnt, tp)
      else
        (case tracker_mem_get_storage g (br_id b) of
           Some p \<Rightarrow>
             let st = st_status (server g p);
                 change = (upd_server p (\<lambda>s. s\<lparr>st_status := br_status b\<rparr>) g)\<lparr>grp_chg_count := grp_chg_count g + 1\<rparr>
             in if st = br_status b \<or> st \<in> {FDFS_STORAGE_STATUS_INIT, FDFS_STORAGE_STATUS_ONLINE,
                     FDFS_STORAGE_STATUS_ACTIVE, FDFS_STORAGE_STATUS_RECOVERY} then (result, g, cnt, tp)
                else if br_status b \<in> {FDFS_STORAGE_STATUS_DELETED, FDFS_STORAGE_STATUS_IP_CHANGED} then (result, change, cnt, tp)
                else if br_status b > st then (result, change, cnt, tp)
                else (result, g, cnt, tp)
         | None \<Rightarrow>
             if br_status b \<in> {FDFS_STORAGE_STATUS_DELETED, FDFS_STORAGE_STATUS_IP_CHANGED,
                  FDFS_STORAGE_STATUS_ACTIVE, FDFS_STORAGE_STATUS_ONLINE} then (result, g, cnt, tp)
             else
               (case mem_add_storage c store_srv leader (Some (br_id b)) (br_ip_addr b) g cnt tp of
                  (r, p, bInserted, g1, cnt1, tp1) \<Rightarrow>
                    (r, if r = 0 \<and> bInserted then upd_server (the p) (\<lambda>s. s\<lparr>st_status := br_status b\<rparr>) g1 else g1, cnt1, tp1))))"

fun sync_storages_loop ::
    "tracker_conf \<Rightarrow> int \<Rightarrow> bool \<Rightarrow> FDFSStorageBrief list \<Rightarrow> FDFSGroupInfo \<Rightarrow> int \<Rightarrow> ext_tape \<Rightarrow> int \<Rightarrow>
     int \<times> FDFSGroupInfo \<times> int \<times> ext_tape" where
  "sync_storages_loop c store_srv leader [] g cnt tp result = (result, g, cnt, tp)"
| "sync_storages_loop c store_srv leader (b # bs) g cnt tp result =
     (case sync_one_storage c store_srv leader b g cnt tp result of
        (r, g1, cnt1, tp1) \<Rightarrow> sync_storages_loop c store_srv leader bs g1 cnt1 tp1 r)"

definition tracker_mem_sync_storages ::
    "tracker_conf \<Rightarrow> int \<Rightarrow> bool \<Rightarrow> FDFSStorageBrief list \<Rightarrow> FDFSGroupInfo \<Rightarrow> int \<Rightarrow> ext_tape \<Rightarrow> int \<times> FDFSGroupInfo \<times> int \<times> ext_tape" where
  "tracker_mem_sync_storages c store_srv leader briefServers g cnt tp =
     sync_storages_loop c store_srv leader briefServers g cnt tp 0"

definition tracker_mem_add_group_ex :: "string \<Rightarrow> FDFSGroups \<Rightarrow> ext_tape \<Rightarrow> int \<times> nat option \<times> bool \<times> FDFSGroups \<times> ext_tape" where
  "tracker_mem_add_group_ex name gs tp =
     (case tracker_mem_get_group_ex gs name of
        Some k \<Rightarrow> (0, Some k, False, gs, tp)
      | None \<Rightarrow>
          (case (if length (groups gs) \<ge> grps_alloc_size gs then ext_call ENOMEM tp else (0, tp)) of
             (result, tp1) \<Rightarrow>
               if result \<noteq> 0 then (result, None, False, gs, tp1)
               else
                 let gs1 = (if length (groups gs) \<ge> grps_alloc_size gs
                            then gs\<lparr>grps_alloc_size := grps_alloc_size gs + TRACKER_MEM_ALLOC_ONCE\<rparr> else gs) in
                 (case ext_call ENOMEM tp1 of
                    (result, tp2) \<Rightarrow>
                      if result \<noteq> 0 then (result, None, False, gs1, tp2)
                      else
                        let k = length (groups gs1);
                            gs2 = gs1\<lparr>groups := groups gs1 @ [empty_group\<lparr>group_name := name, alloc_size := TRACKER_MEM_ALLOC_ONCE\<rparr>]\<rparr>;
                            gs3 = gs2\<lparr>sorted_groups := tracker_mem_insert_into_sorted_groups gs2 k\<rparr>
                        in (0, Some k, True,
                            if store_lookup gs3 = FDFS_STORE_LOOKUP_SPEC_GROUP \<and> pStoreGroup gs3 = None \<and> store_group gs3 = name
                            then gs3\<lparr>pStoreGroup := Some k\<rparr> else gs3, tp2))))"

text \<open>After the group at position \<open>k\<close> is removed, the positions behind it move down.\<close>

definition moved_down :: "nat \<Rightarrow> nat \<Rightarrow> nat" where
  "moved_down k i = (if k < i then i - 1 else i)"

definition tracker_mem_delete_group :: "string \<Rightarrow> FDFSGroups \<Rightarrow> ext_tape \<Rightarrow> int \<times> FDFSGroups \<times> ext_tape" where
  "tracker_mem_delete_group name gs tp =
     (case tracker_mem_get_group_ex gs name of
        None \<Rightarrow> (ENOENT, gs, tp)
      | Some k \<Rightarrow>
          if all_servers (groups gs ! k) \<noteq> [] then (EBUSY, gs, tp)
          else
            let gs1 = gs\<lparr>groups := take k (groups gs) @ drop (Suc k) (groups gs),
                         sorted_groups := map (moved_down k) (filter (\<lambda>i. i \<noteq> k) (sorted_groups gs)),
                         pStoreGroup := (if pStoreGroup gs = Some k then None else map_option (moved_down k) (pStoreGroup gs))\<rparr>
            in (case ext_call EIO tp of (r, tp1) \<Rightarrow> (r, gs1, tp1)))"


section \<open>Which server has a file\<close>

abbreviation (input) INADDR_NONE :: int where "INADDR_NONE \<equiv> -1"
abbreviation (input) FDFS_LOGIC_FILE_PATH_LEN :: nat where "FDFS_LOGIC_FILE_PATH_LEN \<equiv> 10"
abbreviation (input) FDFS_FILENAME_BASE64_LENGTH :: nat where "FDFS_FILENAME_BASE64_LENGTH \<equiv> 27"
abbreviation (input) FDFS_NORMAL_LOGIC_FILENAME_LENGTH :: nat where "FDFS_NORMAL_LOGIC_FILENAME_LENGTH \<equiv> 44"
abbreviation (input) FDFS_TRUNK_LOGIC_FILENAME_LENGTH :: nat where "FDFS_TRUNK_LOGIC_FILENAME_LENGTH \<equiv> 60"

text \<open>The byte of value \<open>256 ^ k\<close> of a 32-bit number, and \<open>ntohl\<close> on a little endian machine.\<close>

definition u32_byte :: "int \<Rightarrow> nat \<Rightarrow> int" where
  "u32_byte n k = n div 256 ^ k mod 256"

definition ntohl :: "int \<Rightarrow> int" where
  "ntohl n = c_int (u32_byte n 0 * 2 ^ 24 + u32_byte n 1 * 2 ^ 16 + u32_byte n 2 * 2 ^ 8 + u32_byte n 3)"

text \<open>\<open>inet_ntop\<close> of an address in network byte order: the bytes in the order of the memory.\<close>

definition inet_ntop :: "int \<Rightarrow> string" where
  "inet_ntop n = fmt_d (u32_byte n 0) @ ''.'' @ fmt_d (u32_byte n 1) @ ''.'' @ fmt_d (u32_byte n 2) @ ''.'' @ fmt_d (u32_byte n 3)"

definition IS_APPENDER_FILE :: "int \<Rightarrow> bool" where
  "IS_APPENDER_FILE file_size \<longleftrightarrow> file_size div 2 ^ 58 mod 2 \<noteq> 0"

definition IS_SLAVE_FILE :: "nat \<Rightarrow> int \<Rightarrow> bool" where
  "IS_SLAVE_FILE filename_len file_size \<longleftrightarrow>
     filename_len > FDFS_TRUNK_LOGIC_FILENAME_LENGTH \<or>
     filename_len > FDFS_NORMAL_LOGIC_FILENAME_LENGTH \<and> \<not> IS_TRUNK_FILE file_size"

text \<open>What the name of a file says: its source server (address or id), its time and its kind.\<close>

record file_origin =
  fo_ip :: int
  fo_id :: string
  fo_timestamp :: int
  fo_normal :: bool

definition decode_origin :: "fc_api \<Rightarrow> string \<Rightarrow> file_origin" where
  "decode_origin F filename =
     (if length filename < 32 + (6 + 1) then \<lparr>fo_ip = INADDR_NONE, fo_id = [], fo_timestamp = 0, fo_normal = True\<rparr>
      else
        let name_buff = base64_decode_auto F (take FDFS_FILENAME_BASE64_LENGTH (drop FDFS_LOGIC_FILE_PATH_LEN filename));
            storage_ip = ntohl (buff2int F (take 4 name_buff));
            file_size = buff2long F (take 8 (drop 8 name_buff))
        in \<lparr>fo_ip = storage_ip,
            fo_id = (if fdfs_get_server_id_type storage_ip = FDFS_ID_TYPE_SERVER_ID then fmt_d storage_ip else []),
            fo_timestamp = buff2int F (take 4 (drop 4 name_buff)),
            fo_normal = (\<not> (IS_SLAVE_FILE (length filename) file_size \<or> IS_APPENDER_FILE file_size))\<rparr>)"

text \<open>The condition under which server \<open>p\<close> is known to have the file.\<close>

definition has_synced :: "tracker_conf \<Rightarrow> int \<Rightarrow> int \<Rightarrow> file_origin \<Rightarrow> FDFSStorageDetail \<Rightarrow> bool" where
  "has_synced c store_srv now orig s \<longleftrightarrow>
     fo_timestamp orig < now - g_storage_sync_file_max_delay c \<or>
     last_synced_timestamp s > fo_timestamp orig \<or>
     last_synced_timestamp s + 1 \<ge> fo_timestamp orig \<and> now - fo_timestamp orig > g_storage_sync_file_max_time c \<or>
     fo_ip orig = INADDR_NONE \<and> store_srv = FDFS_STORE_SERVER_ROUND_ROBIN"

definition source_server :: "tracker_conf \<Rightarrow> FDFSGroupInfo \<Rightarrow> file_origin \<Rightarrow> nat option" where
  "source_server c g orig =
     (if fo_id orig \<noteq> [] then tracker_mem_get_active_storage_by_id g (fo_id orig)
      else tracker_mem_get_active_storage_by_ip c g (inet_ntop (fo_ip orig)))"

definition is_source :: "file_origin \<Rightarrow> FDFSStorageDetail \<Rightarrow> bool" where
  "is_source orig s \<longleftrightarrow> (if fo_id orig \<noteq> [] then fo_id orig = st_id s else inet_ntop (fo_ip orig) = FDFS_CURRENT_IP_ADDR s)"

definition next_read_server :: "FDFSGroupInfo \<Rightarrow> FDFSGroupInfo" where
  "next_read_server g =
     g\<lparr>current_read_server :=
        (if current_read_server g + 1 \<ge> int (length (active_servers g)) then 0 else current_read_server g + 1)\<rparr>"

text \<open>The case \<open>TRACKER_PROTO_CMD_SERVICE_QUERY_FETCH_ONE\<close>; \<open>store\<close> is \<open>pGroupStoreServer\<close>.\<close>

definition fetch_one ::
    "tracker_conf \<Rightarrow> int \<Rightarrow> int \<Rightarrow> int \<Rightarrow> file_origin \<Rightarrow> nat \<Rightarrow> FDFSGroupInfo \<Rightarrow> nat \<times> FDFSGroupInfo" where
  "fetch_one c store_srv download_srv now orig store g =
     (case (if download_srv = FDFS_DOWNLOAD_SERVER_SOURCE_FIRST then source_server c g orig else None) of
        Some p \<Rightarrow> (p, g)
      | None \<Rightarrow>
          let idx = (if current_read_server g \<ge> int (length (active_servers g)) then 0 else current_read_server g);
              p0 = active_servers g ! nat idx;
              p = (if fo_normal orig \<and> has_synced c store_srv now orig (server g p0) then p0
                   else if fo_normal orig \<and> fo_ip orig = INADDR_NONE then store
                   else if is_source orig (server g p0) then p0
                   else
                     (case (if download_srv = FDFS_DOWNLOAD_SERVER_ROUND_ROBIN then source_server c g orig else None) of
                        Some q \<Rightarrow> q
                      | None \<Rightarrow> if store_srv \<noteq> FDFS_STORE_SERVER_ROUND_ROBIN then store else p0))
          in (p, next_read_server g))"

definition query_update :: "tracker_conf \<Rightarrow> int \<Rightarrow> file_origin \<Rightarrow> FDFSGroupInfo \<Rightarrow> nat list \<times> FDFSGroupInfo" where
  "query_update c store_srv orig g =
     (case (if fo_ip orig \<noteq> INADDR_NONE then source_server c g orig else None) of
        Some p \<Rightarrow> ([p], g)
      | None \<Rightarrow>
          (case tracker_get_writable_storage store_srv g of
             (None, g1) \<Rightarrow> ([], g1) | (Some p, g1) \<Rightarrow> ([p], g1)))"

definition fetch_all :: "tracker_conf \<Rightarrow> int \<Rightarrow> int \<Rightarrow> file_origin \<Rightarrow> nat \<Rightarrow> FDFSGroupInfo \<Rightarrow> nat list" where
  "fetch_all c store_srv now orig store g =
     (let szIpAddr = (if fo_ip orig \<noteq> INADDR_NONE then inet_ntop (fo_ip orig) else []);
          found = (if fo_normal orig
                   then filter (\<lambda>p. has_synced c store_srv now orig (server g p) \<or> FDFS_CURRENT_IP_ADDR (server g p) = szIpAddr) (active_servers g)
                   else
                     (case (if fo_id orig \<noteq> [] then tracker_mem_get_active_storage_by_id g (fo_id orig)
                            else tracker_mem_get_active_storage_by_ip c g szIpAddr) of
                        None \<Rightarrow> [] | Some p \<Rightarrow> [p]))
      in if found = [] then [store] else found)"

datatype query_cmd = Query_fetch_one | Query_update | Query_fetch_all

text \<open>The result is the error number, the group and the servers.\<close>

definition tracker_mem_get_storage_by_filename ::
    "tracker_conf \<Rightarrow> query_cmd \<Rightarrow> int \<Rightarrow> string \<Rightarrow> string \<Rightarrow> FDFSGroups \<Rightarrow> int \<times> nat list \<times> FDFSGroups" where
  "tracker_mem_get_storage_by_filename c cmd now name filename gs =
     (case tracker_mem_get_group_ex gs name of
        None \<Rightarrow> (ENOENT, [], gs)
      | Some k \<Rightarrow>
          let g = groups gs ! k; orig = decode_origin (tc_fc c) filename in
          if active_servers g = [] then (ENOENT, [], gs)
          else
            (case pStoreServer g of
               None \<Rightarrow> (ENOENT, [], gs)
             | Some store \<Rightarrow>
                 (case (case cmd of
                          Query_fetch_one \<Rightarrow> (case fetch_one c (store_server gs) (download_server gs) now orig store g of (p, g1) \<Rightarrow> ([p], g1))
                        | Query_update \<Rightarrow> query_update c (store_server gs) orig g
                        | Query_fetch_all \<Rightarrow> (fetch_all c (store_server gs) now orig store g, g)) of
                    (found, g1) \<Rightarrow> (if found \<noteq> [] then 0 else ENOENT, found, gs\<lparr>groups := (groups gs)[k := g1]\<rparr>))))"

end
