(* ===== verification/Tracker_Groups.thy ===== *)
theory Tracker_Groups
  imports Tracker_Mem
begin

text \<open>
  What the operations of \<open>tracker/tracker_mem.c\<close> on a group keep, and what the routing of
  requests to storage servers promises.

  Shown here: in every group that the operations can reach the arrays are sorted by id and
  consistent with each other, so that the look-ups by binary search are exact; requests for
  updating a file, and for reading it from its source first, are sent to the source as long
  as that is active; and two deviations: the choice of the trunk server is not the server with the
  largest binlog, and a query for all servers overlooks the source of a file when the cluster
  uses server ids.
\<close>

section \<open>Well-formed groups\<close>

definition by_id :: "FDFSGroupInfo \<Rightarrow> nat list \<Rightarrow> bool" where
  "by_id g ps \<longleftrightarrow> sorted_wrt (\<lambda>p q. strcmp (st_id (server g p)) (st_id (server g q)) < 0) ps"

definition group_core :: "FDFSGroupInfo \<Rightarrow> bool" where
  "group_core g \<longleftrightarrow>
     set (sorted_servers g) = {..<length (all_servers g)} \<and> by_id g (sorted_servers g) \<and>
     set (active_servers g) \<subseteq> {..<length (all_servers g)} \<and> by_id g (active_servers g) \<and>
     (\<forall>t. pTrunkServer g = Some t \<longrightarrow> t < length (all_servers g)) \<and>
     0 \<le> current_read_server g \<and> 0 \<le> current_write_server g"

text \<open>The server for uploads is the first active one, or one with the least priority number.\<close>

definition store_ok :: "int \<Rightarrow> FDFSGroupInfo \<Rightarrow> bool" where
  "store_ok store_srv g \<longleftrightarrow>
     (case pStoreServer g of
        None \<Rightarrow> active_servers g = []
      | Some p \<Rightarrow> p \<in> set (active_servers g) \<and>
          (if store_srv = FDFS_STORE_SERVER_FIRST_BY_PRI
           then \<forall>q \<in> set (active_servers g). upload_priority (server g p) \<le> upload_priority (server g q)
           else p = hd (active_servers g)))"

definition group_wf :: "int \<Rightarrow> FDFSGroupInfo \<Rightarrow> bool" where
  "group_wf store_srv g \<longleftrightarrow> group_core g \<and> store_ok store_srv g \<and>
     (\<forall>p \<in> set (active_servers g). st_status (server g p) = FDFS_STORAGE_STATUS_ACTIVE)"

interpretation storage_cmp: comparison tracker_mem_cmp_by_storage_id "\<lambda>_. True"
  by unfold_locales (auto simp: tracker_mem_cmp_by_storage_id_def strcmp_sign intro: strcmp_le_trans)

lemma by_id_inj:
  assumes "by_id g ps" "p \<in> set ps" "q \<in> set ps" "st_id (server g p) = st_id (server g q)"
  shows "p = q"
proof -
  obtain i j where ij: "i < length ps" "p = ps ! i" "j < length ps" "q = ps ! j"
    using assms(2,3) by (metis in_set_conv_nth)
  have "i = j"
    using assms(1,4) ij unfolding by_id_def sorted_wrt_iff_nth_less by (metis linorder_neqE_nat strcmp_0 less_irrefl)
  with ij show ?thesis by simp
qed

lemma by_id_distinct: "by_id g ps \<Longrightarrow> distinct ps"
  unfolding by_id_def by (induction ps) auto

lemma search_servers_Some:
  "search_servers g i ps = Some k \<Longrightarrow> k < length ps \<and> st_id (server g (ps ! k)) = i"
  unfolding search_servers_def by (drule bsearch_SomeD) (auto simp: tracker_mem_cmp_by_storage_id_def)

lemma search_servers_None:
  assumes "by_id g ps" "search_servers g i ps = None" "p \<in> set ps"
  shows "st_id (server g p) \<noteq> i"
proof -
  have "storage_cmp.in_order (map (server g) ps)"
    using assms(1) unfolding storage_cmp.in_order_def by_id_def sorted_wrt_map
    by (rule sorted_wrt_mono_rel [rotated]) (simp add: tracker_mem_cmp_by_storage_id_def)
  from storage_cmp.bsearch_None [OF this _ _ assms(2) [unfolded search_servers_def], of "server g p"] assms(3)
  show ?thesis by (auto simp: tracker_mem_cmp_by_storage_id_def)
qed

lemma search_in:
  assumes "by_id g ps"
  shows "map_option (\<lambda>k. ps ! k) (search_servers g i ps) = Some p \<longleftrightarrow> p \<in> set ps \<and> st_id (server g p) = i"
proof (cases "search_servers g i ps")
  case None
  with search_servers_None [OF assms None] show ?thesis by auto
next
  case (Some k)
  with search_servers_Some [OF Some] by_id_inj [OF assms, of "ps ! k"] show ?thesis by auto
qed

lemma get_storage_exact:
  "group_core g \<Longrightarrow> tracker_mem_get_storage g i = Some p \<longleftrightarrow> p < length (all_servers g) \<and> st_id (server g p) = i"
  unfolding tracker_mem_get_storage_def group_core_def using search_in [of g "sorted_servers g" i p] by auto

lemma get_active_exact:
  "group_core g \<Longrightarrow> tracker_mem_get_active_storage_by_id g i = Some p \<longleftrightarrow> p \<in> set (active_servers g) \<and> st_id (server g p) = i"
  unfolding tracker_mem_get_active_storage_by_id_def group_core_def by (intro search_in) blast

lemma get_storage_None:
  assumes "group_core g" "tracker_mem_get_storage g i = None" "p < length (all_servers g)"
  shows "st_id (server g p) \<noteq> i"
  using get_storage_exact [OF assms(1), of i p] assms(2,3) by auto

section \<open>Insertion\<close>

lemma insert_loop_set: "set (insert_loop name t rs) = insert t (set rs)"
  by (induction rs) auto

lemma insert_loop_sorted:
  assumes "sorted_wrt (\<lambda>p q. strcmp (name q) (name p) < 0) rs" "\<forall>p \<in> set rs. name p \<noteq> name t"
  shows "sorted_wrt (\<lambda>p q. strcmp (name q) (name p) < 0) (insert_loop name t rs)"
  using assms
proof (induction rs)
  case (Cons p rs)
  have "strcmp (name q) (name t) < 0" if "strcmp (name t) (name p) > 0" "q \<in> set rs" for q
    using strcmp_trans [of "name q" "name p" "name t"] Cons.prems(1) that by (simp add: strcmp_sign)
  moreover have "strcmp (name t) (name p) < 0" if "\<not> strcmp (name t) (name p) > 0"
    using that Cons.prems(2) by (intro strcmp_less) auto
  moreover have "sorted_wrt (\<lambda>p q. strcmp (name q) (name p) < 0) (insert_loop name t rs)" using Cons by simp
  ultimately show ?case using Cons.prems(1) by (simp add: insert_loop_set strcmp_sign)
qed simp

lemma sorted_wrt_rev_swap: "sorted_wrt R (rev xs) \<longleftrightarrow> sorted_wrt (\<lambda>x y. R y x) xs"
  by (induction xs) (auto simp: sorted_wrt_append)

lemma insert_sorted_servers:
  assumes "by_id g ps" "\<forall>p \<in> set ps. st_id (server g p) \<noteq> st_id (server g t)"
  shows "by_id g (tracker_mem_insert_into_sorted_servers g t ps)"
    "set (tracker_mem_insert_into_sorted_servers g t ps) = insert t (set ps)"
proof -
  have "sorted_wrt (\<lambda>p q. strcmp (st_id (server g q)) (st_id (server g p)) < 0) (rev ps)"
    using assms(1) unfolding by_id_def sorted_wrt_rev_swap .
  from insert_loop_sorted [OF this] assms(2) show "by_id g (tracker_mem_insert_into_sorted_servers g t ps)"
    unfolding by_id_def tracker_mem_insert_into_sorted_servers_def by (simp add: sorted_wrt_rev_swap)
qed (simp add: tracker_mem_insert_into_sorted_servers_def insert_loop_set)

section \<open>Changing one server\<close>

lemma upd_server_simps [simp]:
  "length (all_servers (upd_server i f g)) = length (all_servers g)"
  "sorted_servers (upd_server i f g) = sorted_servers g" "active_servers (upd_server i f g) = active_servers g"
  "pStoreServer (upd_server i f g) = pStoreServer g" "pTrunkServer (upd_server i f g) = pTrunkServer g"
  "current_read_server (upd_server i f g) = current_read_server g"
  "current_write_server (upd_server i f g) = current_write_server g"
  "group_name (upd_server i f g) = group_name g" "alloc_size (upd_server i f g) = alloc_size g"
  "last_trunk_server_id (upd_server i f g) = last_trunk_server_id g"
  by (simp_all add: upd_server_def)

lemma server_upd_server:
  "i < length (all_servers g) \<Longrightarrow> server (upd_server i f g) j = (if j = i then f (server g i) else server g j)"
  by (simp add: upd_server_def nth_list_update)

lemma by_id_cong:
  "by_id g ps \<Longrightarrow> (\<And>p. p \<in> set ps \<Longrightarrow> st_id (server g' p) = st_id (server g p)) \<Longrightarrow> by_id g' ps"
  unfolding by_id_def by (erule sorted_wrt_mono_rel [rotated]) auto

text \<open>Groups that differ only in fields the invariant does not look at.\<close>

lemma group_core_cong:
  assumes "group_core g" "length (all_servers g') = length (all_servers g)"
    and "sorted_servers g' = sorted_servers g" "active_servers g' = active_servers g"
    and "\<And>p. p < length (all_servers g) \<Longrightarrow> st_id (server g' p) = st_id (server g p)"
    and "\<And>t. pTrunkServer g' = Some t \<Longrightarrow> t < length (all_servers g)"
    and "0 \<le> current_read_server g'" "0 \<le> current_write_server g'"
  shows "group_core g'"
proof -
  have "by_id g' (sorted_servers g)" "by_id g' (active_servers g)"
    using assms(1,5) by (auto simp: group_core_def intro!: by_id_cong [of g])
  then show ?thesis using assms by (simp add: group_core_def)
qed

lemma group_wf_cong:
  assumes wf: "group_wf ss g" and "length (all_servers g') = length (all_servers g)"
    and "sorted_servers g' = sorted_servers g" and act: "active_servers g' = active_servers g" and st: "pStoreServer g' = pStoreServer g"
    and "\<And>p. p < length (all_servers g) \<Longrightarrow> st_id (server g' p) = st_id (server g p)"
    and same: "\<And>p. p \<in> set (active_servers g) \<Longrightarrow>
      st_status (server g' p) = st_status (server g p) \<and> upload_priority (server g' p) = upload_priority (server g p)"
    and "\<And>t. pTrunkServer g' = Some t \<Longrightarrow> t < length (all_servers g)"
    and "0 \<le> current_read_server g'" "0 \<le> current_write_server g'"
  shows "group_wf ss g'"
proof -
  have "group_core g'" using wf assms(2-) by (intro group_core_cong [of g g']) (auto simp: group_wf_def)
  moreover have "store_ok ss g'"
    using wf same by (cases "pStoreServer g") (auto simp: group_wf_def store_ok_def act st)
  ultimately show ?thesis using wf same by (auto simp: group_wf_def act)
qed

lemma group_wf_upd_server:
  assumes "group_wf ss g" "p < length (all_servers g)" "st_id (f (server g p)) = st_id (server g p)"
    and "p \<in> set (active_servers g) \<Longrightarrow>
      st_status (f (server g p)) = st_status (server g p) \<and> upload_priority (f (server g p)) = upload_priority (server g p)"
  shows "group_wf ss (upd_server p f g)"
  using assms by (intro group_wf_cong [OF assms(1)]) (auto simp: server_upd_server group_wf_def group_core_def)

section \<open>Choosing the server for uploads\<close>

lemma min_pri_loop_spec:
  "min_pri_loop g m ps \<in> insert m (set ps) \<and> (\<forall>q \<in> insert m (set ps). upload_priority (server g (min_pri_loop g m ps)) \<le> upload_priority (server g q))"
proof (induction ps arbitrary: m)
  case (Cons p ps)
  show ?case using Cons [of "if upload_priority (server g p) < upload_priority (server g m) then p else m"] by (auto split: if_splits)
qed simp

lemma find_store_server_fields [simp]:
  "all_servers (tracker_mem_find_store_server ss g) = all_servers g"
  "sorted_servers (tracker_mem_find_store_server ss g) = sorted_servers g"
  "active_servers (tracker_mem_find_store_server ss g) = active_servers g"
  "pTrunkServer (tracker_mem_find_store_server ss g) = pTrunkServer g"
  "current_read_server (tracker_mem_find_store_server ss g) = current_read_server g"
  "current_write_server (tracker_mem_find_store_server ss g) = current_write_server g"
  by (simp_all add: tracker_mem_find_store_server_def)

lemma find_store_server_wf:
  assumes "group_core g" "\<forall>p \<in> set (active_servers g). st_status (server g p) = FDFS_STORAGE_STATUS_ACTIVE"
  shows "group_wf ss (tracker_mem_find_store_server ss g)"
proof -
  have "store_ok ss (tracker_mem_find_store_server ss g)"
    using min_pri_loop_spec [of g "hd (active_servers g)" "tl (active_servers g)"]
    by (cases "active_servers g") (auto simp: store_ok_def tracker_mem_find_store_server_def)
  moreover have "group_core (tracker_mem_find_store_server ss g)"
    using assms(1) by (intro group_core_cong [OF assms(1)]) (auto simp: group_core_def)
  ultimately show ?thesis using assms(2) by (simp add: group_wf_def)
qed

section \<open>Every operation keeps a group well-formed\<close>

lemma by_id_del: "by_id g ps \<Longrightarrow> by_id g (take k ps @ drop (Suc k) ps)"
  unfolding by_id_def by (rule sorted_wrt_delete_nth)

lemma deactive_wf:
  assumes core: "group_core g" and p: "p < length (all_servers g)"
    and act: "\<forall>q \<in> set (active_servers g). q \<noteq> p \<longrightarrow> st_status (server g q) = FDFS_STORAGE_STATUS_ACTIVE"
  shows "group_wf ss (tracker_mem_deactive_store_server ss p g)"
proof (cases "search_servers g (st_id (server g p)) (active_servers g)")
  case None
  have "p \<notin> set (active_servers g)" using search_servers_None [OF _ None] core by (auto simp: group_core_def)
  with act have "\<forall>q \<in> set (active_servers g). st_status (server g q) = FDFS_STORAGE_STATUS_ACTIVE" by auto
  with None find_store_server_wf [OF core this] show ?thesis by (simp add: tracker_mem_deactive_store_server_def)
next
  case (Some k)
  let ?as = "take k (active_servers g) @ drop (Suc k) (active_servers g)"
  let ?f = "\<lambda>s. s\<lparr>st_chg_count := 0, st_trunk_chg_count := 0\<rparr>"
  let ?g = "(upd_server (active_servers g ! k) ?f g)\<lparr>active_servers := ?as, grp_chg_count := grp_chg_count g + 1\<rparr>"
  have k: "k < length (active_servers g)" "st_id (server g (active_servers g ! k)) = st_id (server g p)"
    using search_servers_Some [OF Some] by auto
  have sub: "set (active_servers g) \<subseteq> {..<length (all_servers g)}" "by_id g (active_servers g)"
    "set (sorted_servers g) = {..<length (all_servers g)}" "by_id g (sorted_servers g)"
    using core by (auto simp: group_core_def)
  have ak: "active_servers g ! k = p"
    using by_id_inj [OF sub(4), of "active_servers g ! k" p] k p sub(1,3) nth_mem [OF k(1)] by blast
  have srv: "server ?g q = (if q = p then ?f (server g p) else server g q)" for q
    using server_upd_server [OF p, of ?f q] ak by simp
  have as: "set ?as \<subseteq> set (active_servers g)" using set_take_subset set_drop_subset by fastforce
  have "active_servers g = take k (active_servers g) @ p # drop (Suc k) (active_servers g)"
    using id_take_nth_drop [OF k(1)] ak by simp
  then have "p \<notin> set ?as" using by_id_distinct [OF sub(2)] by (metis distinct.simps(2) distinct_append Int_iff Un_iff set_append disjoint_insert(1) list.simps(15))
  then have st: "\<forall>q \<in> set (active_servers ?g). st_status (server ?g q) = FDFS_STORAGE_STATUS_ACTIVE"
    using act as srv by auto
  have "by_id ?g (sorted_servers g)" "by_id ?g ?as"
    using sub(4) by_id_del [OF sub(2), of k] srv by (auto intro: by_id_cong [of g])
  then have "group_core ?g" using core as sub by (auto simp: group_core_def)
  from find_store_server_wf [OF this st] Some show ?thesis by (simp add: tracker_mem_deactive_store_server_def)
qed

lemma set_offline_wf:
  assumes "group_wf ss g" "p < length (all_servers g)"
  shows "group_wf ss (tracker_mem_deactive_store_server ss p (upd_server p (\<lambda>s. s\<lparr>st_status := FDFS_STORAGE_STATUS_OFFLINE\<rparr>) g))"
    (is "group_wf ss (tracker_mem_deactive_store_server ss p ?g2)")
proof (rule deactive_wf)
  show "group_core ?g2"
    by (rule group_core_cong [of g]) (use assms in \<open>auto simp: group_wf_def group_core_def server_upd_server\<close>)
  show "\<forall>q \<in> set (active_servers ?g2). q \<noteq> p \<longrightarrow> st_status (server ?g2 q) = FDFS_STORAGE_STATUS_ACTIVE"
    using assms by (auto simp: group_wf_def server_upd_server)
qed (simp add: assms(2))

lemma offline_wf:
  assumes "group_wf ss g" "p < length (all_servers g)"
  shows "group_wf ss (tracker_mem_offline_store_server ss p g)"
proof -
  have wf1: "group_wf ss (upd_server p (\<lambda>s. s\<lparr>up_time := 0\<rparr>) g)" using assms by (intro group_wf_upd_server) auto
  from set_offline_wf [OF this] assms(2) wf1 show ?thesis by (simp add: tracker_mem_offline_store_server_def Let_def)
qed

text \<open>The choice of the trunk server changes nothing but the trunk server.\<close>

definition only_trunk :: "FDFSGroupInfo \<Rightarrow> FDFSGroupInfo \<Rightarrow> bool" where
  "only_trunk g g' \<longleftrightarrow>
     g'\<lparr>pTrunkServer := None, last_trunk_server_id := [], grp_trunk_chg_count := 0\<rparr> =
       g\<lparr>pTrunkServer := None, last_trunk_server_id := [], grp_trunk_chg_count := 0\<rparr> \<and>
     (\<forall>p. pTrunkServer g' = Some p \<longrightarrow> p < length (all_servers g))"

lemma only_trunk_fields:
  assumes "only_trunk g g'"
  shows "all_servers g' = all_servers g" "active_servers g' = active_servers g" "sorted_servers g' = sorted_servers g"
    "pStoreServer g' = pStoreServer g" "group_name g' = group_name g" "alloc_size g' = alloc_size g"
    "current_read_server g' = current_read_server g" "current_write_server g' = current_write_server g"
    "\<And>p. pTrunkServer g' = Some p \<Longrightarrow> p < length (all_servers g)"
  using assms by (cases g; cases g'; simp add: only_trunk_def)+

lemma only_trunk_wf:
  assumes "group_wf ss g" "only_trunk g g'"
  shows "group_wf ss g'"
  using only_trunk_fields [OF assms(2)] assms(1)
  by (intro group_wf_cong [OF assms(1)]) (simp_all add: group_wf_def group_core_def)

lemma only_trunk_refl: "group_core g \<Longrightarrow> only_trunk g g"
  by (simp add: only_trunk_def group_core_def)

lemma set_and_log_only_trunk:
  assumes "tracker_set_trunk_server_and_log t g tp = (r, g', tp')" "\<forall>p. t = Some p \<longrightarrow> p < length (all_servers g)"
  shows "only_trunk g g' \<and> pTrunkServer g' = t"
  using assms unfolding only_trunk_def tracker_set_trunk_server_and_log_def Let_def
  by (auto split: if_splits prod.splits)

lemma only_trunk_count: "only_trunk g g' \<Longrightarrow> only_trunk g (g'\<lparr>grp_trunk_chg_count := n\<rparr>)"
  by (auto simp: only_trunk_def)

lemma do_set_trunk_only_trunk:
  assumes "tracker_mem_do_set_trunk_server p save g cnt tp = (r, g', cnt', tp')" "p < length (all_servers g)" "group_core g"
  shows "only_trunk g g' \<and> (g' = g \<or> pTrunkServer g' = Some p)"
proof -
  obtain r1 tp1 where m: "(if last_trunk_server_id g \<noteq> [] \<and> st_id (server g p) \<noteq> last_trunk_server_id g
            then (case ext_call ETIMEDOUT tp of
                    (r, tp0) \<Rightarrow> if r \<noteq> 0 then (r, tp0) else fdfs_deal_no_body_cmd \<lparr>hdr_pkg_len = 0, hdr_status = 0\<rparr> tp0)
            else (0, tp)) = (r1, tp1)" by fastforce
  obtain r2 g1 tp2 where l: "tracker_set_trunk_server_and_log (Some p) g tp1 = (r2, g1, tp2)" by (metis prod_cases3)
  from set_and_log_only_trunk [OF l] assms(2) have "only_trunk g g1" "pTrunkServer g1 = Some p" by auto
  with assms(1) only_trunk_count [of g g1] only_trunk_refl [OF assms(3)] show ?thesis
    unfolding tracker_mem_do_set_trunk_server_def m by (auto simp: l Let_def split: if_splits prod.splits)
qed

lemma find_trunk_loop_in: "fst (find_trunk_loop c g mx p ps tp) \<in> insert p (set ps)"
proof (induction ps arbitrary: p tp)
  case (Cons q qs)
  obtain r sz tp1 where b: "tracker_mem_get_trunk_binlog_size c (FDFS_CURRENT_IP_ADDR (server g q)) tp = (r, sz, tp1)"
    by (metis prod_cases3)
  show ?case using Cons [of p tp] Cons [of p tp1] Cons [of q tp1] by (auto simp: b)
qed simp

lemma find_trunk_only_trunk:
  assumes "tracker_mem_find_trunk_server c save g cnt tp = (r, g', cnt', tp')" "group_wf ss g"
  shows "only_trunk g g'"
proof (cases "pStoreServer g")
  case None
  with assms show ?thesis by (auto simp: tracker_mem_find_trunk_server_def group_wf_def intro: only_trunk_refl)
next
  case (Some s)
  obtain r1 mx tp1 where b: "tracker_mem_get_trunk_binlog_size c (FDFS_CURRENT_IP_ADDR (server g s)) tp = (r1, mx, tp1)"
    by (metis prod_cases3)
  obtain p tp2 where f: "find_trunk_loop c g mx s (active_servers g) tp1 = (p, tp2)" by fastforce
  have "p \<in> insert s (set (active_servers g))" using find_trunk_loop_in [of c g mx s "active_servers g" tp1] f by simp
  moreover have "s \<in> set (active_servers g)" "set (active_servers g) \<subseteq> {..<length (all_servers g)}" "group_core g"
    using assms(2) Some by (auto simp: group_wf_def store_ok_def group_core_def)
  ultimately have "p < length (all_servers g)" "group_core g" by auto
  with assms(1) do_set_trunk_only_trunk [of p save g cnt tp2 r g' cnt' tp'] only_trunk_refl show ?thesis
    by (auto simp: tracker_mem_find_trunk_server_def Some b f split: if_splits)
qed

lemma set_trunk_wf:
  assumes "tracker_mem_set_trunk_server c leader i g cnt tp = (r, t, g', cnt', tp')" "group_wf ss g"
  shows "group_wf ss g'"
proof -
  have core: "group_core g" using assms(2) by (simp add: group_wf_def)
  have find: "only_trunk g g1" if "tracker_mem_find_trunk_server c True g cnt tp = (r1, g1, c1, tp1)" for r1 g1 c1 tp1
    using find_trunk_only_trunk [OF that assms(2)] .
  have set: "only_trunk g g1" if "tracker_mem_do_set_trunk_server p True g cnt tp = (r1, g1, c1, tp1)"
      "tracker_mem_get_storage g i = Some p" for r1 g1 c1 tp1 p
    using do_set_trunk_only_trunk [OF that(1) _ core] get_storage_exact [OF core, of i p] that(2) by blast
  have "g' = g \<or> only_trunk g g'"
    using assms(1) find set unfolding tracker_mem_set_trunk_server_def Let_def
    by (auto split: if_splits option.splits prod.splits)
  then show ?thesis using only_trunk_wf [OF assms(2)] assms(2) by blast
qed

lemma active_wf:
  assumes "tracker_mem_active_store_server c ss leader p g cnt tp = (r, g', cnt', tp')" "group_wf ss g" "p < length (all_servers g)"
  shows "group_wf ss g'"
proof -
  let ?g1 = "upd_server p (\<lambda>s. s\<lparr>st_status := FDFS_STORAGE_STATUS_ACTIVE\<rparr>) g"
  let ?g2 = "?g1\<lparr>active_servers := tracker_mem_insert_into_sorted_servers ?g1 p (active_servers ?g1), grp_chg_count := grp_chg_count ?g1 + 1\<rparr>"
  let ?g3 = "tracker_mem_find_store_server ss ?g2"
  have wf1: "group_wf ss ?g1" using assms(2,3) by (intro group_wf_upd_server) (auto simp: group_wf_def)
  have wf3: "group_wf ss ?g3" if "search_servers ?g1 (st_id (server ?g1 p)) (active_servers ?g1) = None"
  proof -
    have ids: "by_id ?g1 (active_servers ?g1)" "by_id ?g1 (sorted_servers ?g1)" using wf1 by (auto simp: group_wf_def group_core_def)
    then have new: "\<forall>q \<in> set (active_servers ?g1). st_id (server ?g1 q) \<noteq> st_id (server ?g1 p)"
      using search_servers_None [OF _ that] by blast
    note ins = insert_sorted_servers [OF ids(1) new]
    have "by_id ?g2 (active_servers ?g2)" "by_id ?g2 (sorted_servers ?g2)"
      using ins(1) ids(2) by (auto intro: by_id_cong [of ?g1])
    then have "group_core ?g2" using wf1 ins(2) assms(3) by (simp add: group_wf_def group_core_def)
    moreover have "\<forall>q \<in> set (active_servers ?g2). st_status (server ?g2 q) = FDFS_STORAGE_STATUS_ACTIVE"
      using wf1 ins(2) assms(3) by (auto simp: group_wf_def server_upd_server)
    ultimately show ?thesis by (rule find_store_server_wf)
  qed
  have trunk: "group_wf ss g4" if "tracker_mem_find_trunk_server c True ?g3 cnt tp = (r1, g4, c1, tp1)" "group_wf ss ?g3" for r1 g4 c1 tp1
    using only_trunk_wf [OF that(2)] find_trunk_only_trunk [OF that] by blast
  show ?thesis
    using assms(1,2) wf1 wf3 trunk unfolding tracker_mem_active_store_server_def Let_def
    by (auto simp del: find_store_server_fields split: if_splits prod.splits)
qed

text \<open>Servers whose status is not \<open>ACTIVE\<close> are not in the array of active servers.\<close>

lemma inactive: "group_wf ss g \<Longrightarrow> st_status (server g p) \<noteq> FDFS_STORAGE_STATUS_ACTIVE \<Longrightarrow> p \<notin> set (active_servers g)"
  by (auto simp: group_wf_def)

lemma group_wf_chg_count [simp]: "group_wf ss (g\<lparr>grp_chg_count := n\<rparr>) \<longleftrightarrow> group_wf ss g"
  by (cases "pStoreServer g") (simp_all add: group_wf_def group_core_def store_ok_def by_id_def)

lemma delete_storage_wf:
  assumes "group_wf ss g"
  shows "group_wf ss (snd (tracker_mem_delete_storage g i))"
proof (cases "tracker_mem_get_storage g i")
  case (Some p)
  let ?f = "\<lambda>s. case psync_src_server s of Some q \<Rightarrow> if st_id (server g q) = i then s\<lparr>psync_src_server := None\<rparr> else s | None \<Rightarrow> s"
  let ?g1 = "g\<lparr>all_servers := map ?f (all_servers g), grp_chg_count := grp_chg_count g + 1\<rparr>"
  have f: "st_id (?f s) = st_id s \<and> st_status (?f s) = st_status s \<and> upload_priority (?f s) = upload_priority s" for s
    by (auto split: option.splits)
  have p: "p < length (all_servers g)" using get_storage_exact [of g i p] Some assms by (simp add: group_wf_def)
  have sub: "q < length (all_servers g)" if "q \<in> set (active_servers g)" for q
    using assms that by (auto simp: group_wf_def group_core_def)
  have wf1: "group_wf ss ?g1"
    using assms sub by (intro group_wf_cong [OF assms]) (auto simp: f group_wf_def group_core_def)
  have "group_wf ss (upd_server p (\<lambda>s. (tracker_mem_clear_storage_fields s)\<lparr>st_status := FDFS_STORAGE_STATUS_DELETED\<rparr>) ?g1)"
    if "st_status (server g p) \<noteq> FDFS_STORAGE_STATUS_ACTIVE"
    using wf1 p inactive [OF assms that] by (intro group_wf_upd_server) (auto simp: tracker_mem_clear_storage_fields_def)
  then show ?thesis using assms by (auto simp: tracker_mem_delete_storage_def Some Let_def)
qed (simp add: tracker_mem_delete_storage_def assms)

lemma realloc_wf:
  assumes "tracker_mem_realloc_store_servers c ss leader n g cnt tp = (r, g', cnt', tp')" "group_wf ss g"
  shows "group_wf ss g' \<and> all_servers g' = all_servers g"
proof -
  let ?g1 = "tracker_mem_find_store_server ss (g\<lparr>alloc_size := alloc_size g + n + TRACKER_MEM_ALLOC_ONCE\<rparr>)"
  have "group_core (g\<lparr>alloc_size := m\<rparr>)" for m using assms(2) by (auto simp: group_wf_def group_core_def by_id_def)
  then have wf1: "group_wf ss ?g1" using assms(2) by (intro find_store_server_wf) (auto simp: group_wf_def)
  have trunk: "group_wf ss g4 \<and> all_servers g4 = all_servers g"
    if "tracker_mem_find_trunk_server c True ?g1 cnt tp0 = (r1, g4, c1, tp1)" for tp0 r1 g4 c1 tp1
    using only_trunk_wf [OF wf1] only_trunk_fields(1) [of ?g1 g4] find_trunk_only_trunk [OF that wf1] by simp
  show ?thesis
    using assms wf1 trunk unfolding tracker_mem_realloc_store_servers_def Let_def
    by (auto split: if_splits prod.splits)
qed

text \<open>A server with a new id at the end of \<open>all_servers\<close>.\<close>

lemma append_server_wf:
  assumes wf: "group_wf ss g" and new: "\<forall>q < length (all_servers g). st_id (server g q) \<noteq> st_id s"
  defines "g2 \<equiv> g\<lparr>all_servers := all_servers g @ [s]\<rparr>"
  shows "group_wf ss (g2\<lparr>sorted_servers := tracker_mem_insert_into_sorted_servers g2 (length (all_servers g)) (sorted_servers g2),
    grp_chg_count := n\<rparr>)" (is "group_wf ss ?g3")
proof -
  have old: "server g2 q = server g q" if "q < length (all_servers g)" for q using that by (simp add: g2_def nth_append)
  have srv: "server ?g3 q = server g2 q" "server g2 (length (all_servers g)) = s" for q by (simp_all add: g2_def)
  have core: "set (sorted_servers g) = {..<length (all_servers g)}" "by_id g (sorted_servers g)"
    "set (active_servers g) \<subseteq> {..<length (all_servers g)}" "by_id g (active_servers g)"
    using wf by (auto simp: group_wf_def group_core_def)
  have act: "q < length (all_servers g)" if "q \<in> set (active_servers g)" for q using that core(3) by auto
  have "by_id g2 (sorted_servers g2)" using core(1,2) old by (auto intro: by_id_cong [of g] simp: g2_def)
  moreover have "\<forall>q \<in> set (sorted_servers g2). st_id (server g2 q) \<noteq> st_id (server g2 (length (all_servers g)))"
    using new core(1) old srv(2) by (auto simp: g2_def)
  ultimately have ins: "by_id g2 (tracker_mem_insert_into_sorted_servers g2 (length (all_servers g)) (sorted_servers g2))"
    "set (tracker_mem_insert_into_sorted_servers g2 (length (all_servers g)) (sorted_servers g2)) = {..<Suc (length (all_servers g))}"
    using insert_sorted_servers [of g2 "sorted_servers g2" "length (all_servers g)"] core(1) by (auto simp: g2_def lessThan_Suc)
  have "by_id ?g3 (active_servers g)" using core(3,4) old srv(1) by (auto intro!: by_id_cong [of g])
  moreover have "by_id ?g3 (sorted_servers ?g3)" using ins(1) srv(1) by (auto intro: by_id_cong [of g2])
  ultimately have "group_core ?g3" using wf ins(2) core(3) by (auto simp: group_wf_def group_core_def g2_def less_Suc_eq)
  moreover have "store_ok ss ?g3"
    using wf old act by (cases "pStoreServer g") (auto simp: group_wf_def store_ok_def srv(1), auto simp: g2_def)
  ultimately show ?thesis using wf old act srv(1) by (simp add: group_wf_def) (simp add: g2_def)
qed

text \<open>The ids in the servers file and the ids and addresses in requests fit in their buffers.\<close>

definition ids_fit :: "tracker_conf \<Rightarrow> bool" where
  "ids_fit c \<longleftrightarrow>
     list_all (\<lambda>m. case sm_idInfo m of None \<Rightarrow> True | Some s \<Rightarrow> length (si_id s) < 16) (g_storage_ids_by_ip (tc_ids c))"

lemma storage_identity_fits:
  assumes "storage_identity c g i ip = Inr (j, m)" "ids_fit c" "\<forall>a. i = Some a \<longrightarrow> length a < 16" "length ip < 16"
  shows "length j < 16"
proof -
  have "length (si_id s) < 16" if "fdfs_get_storage_id_by_ip (tc_ids c) (group_name g) ip = Some s" for s
    using that assms(2) unfolding fdfs_get_storage_id_by_ip_def ids_fit_def Let_def list_all_iff
    by (fastforce split: option.splits dest: bsearch_SomeD dest!: nth_mem)
  with assms(1,3,4) show ?thesis
    by (cases i) (auto simp: storage_identity_def Let_def split: if_splits option.splits)
qed

lemma set_ip_index_simps [simp]:
  "st_id (set_ip_index c ip s) = st_id s" "st_status (set_ip_index c ip s) = st_status s"
  "upload_priority (set_ip_index c ip s) = upload_priority s"
  by (simp_all add: set_ip_index_def)

lemma add_storage_new:
  fixes ip m
  assumes "group_wf ss g" "length j < 16" "tracker_mem_get_storage g j = None"
    and "(if length (all_servers g) \<ge> alloc_size g then tracker_mem_realloc_store_servers c ss leader 1 g cnt tp else (0, g, cnt, tp)) = (r, g1, cnt1, tp1)"
  defines "s \<equiv> set_ip_index c ip (zero_storage\<lparr>st_id := snprintf_s 16 j, st_ip_addrs := m\<rparr>)"
  defines "g2 \<equiv> g1\<lparr>all_servers := all_servers g1 @ [s]\<rparr>"
  shows "group_wf ss g1 \<and> all_servers g1 = all_servers g \<and> st_id s = j \<and>
    group_wf ss (g2\<lparr>sorted_servers := tracker_mem_insert_into_sorted_servers g2 (length (all_servers g1)) (sorted_servers g2), grp_chg_count := n\<rparr>)"
proof -
  have g1: "group_wf ss g1" "all_servers g1 = all_servers g"
    using assms(1,4) realloc_wf [of c ss leader 1 g cnt tp r g1 cnt1 tp1] by (auto split: if_splits)
  have s: "st_id s = j" using assms(2) by (simp add: s_def snprintf_s_def)
  have "\<forall>q < length (all_servers g1). st_id (server g1 q) \<noteq> st_id s"
    using get_storage_None [OF _ assms(3)] assms(1) g1(2) s by (auto simp: group_wf_def)
  from append_server_wf [OF g1(1) this] g1 s show ?thesis by (simp add: g2_def)
qed

lemma mem_add_storage_wf:
  assumes add: "mem_add_storage c ss leader i ip g cnt tp = (r, p, ins, g', cnt', tp')" and wf: "group_wf ss g"
    and fit: "ids_fit c" "\<forall>a. i = Some a \<longrightarrow> length a < 16" "length ip < 16"
  shows "group_wf ss g' \<and>
    (ins \<longrightarrow> r = 0 \<and> p = Some (length (all_servers g)) \<and> length (all_servers g') = Suc (length (all_servers g)) \<and>
      (\<forall>q < length (all_servers g). server g' q = server g q) \<and>
      (\<exists>m. storage_identity c g i ip = Inr (st_id (server g' (length (all_servers g))), m)) \<and>
      length (all_servers g) \<notin> set (active_servers g'))"
proof (cases "ip = [] \<or> (\<exists>e. storage_identity c g i ip = Inl e)")
  case True
  with add wf show ?thesis by (auto simp: mem_add_storage_def split: if_splits)
next
  case False
  then obtain j m where id: "ip \<noteq> []" "storage_identity c g i ip = Inr (j, m)" by (cases "storage_identity c g i ip") auto
  have j: "length j < 16" by (rule storage_identity_fits [OF id(2) fit])
  show ?thesis
  proof (cases "tracker_mem_get_storage g j")
    case (Some q)
    have q: "q < length (all_servers g)" using get_storage_exact [of g j q] Some wf by (simp add: group_wf_def)
    have "group_wf ss (upd_server q (\<lambda>s. let s1 = set_ip_index c ip s in
                     if st_status s1 \<in> {FDFS_STORAGE_STATUS_DELETED, FDFS_STORAGE_STATUS_IP_CHANGED}
                     then s1\<lparr>st_status := FDFS_STORAGE_STATUS_INIT\<rparr> else s1) g)"
      using wf q inactive [OF wf, of q] by (intro group_wf_upd_server) (auto simp: Let_def)
    with add id Some show ?thesis by (auto simp: mem_add_storage_def)
  next
    case None
    obtain r1 g1 c1 tp1 where re: "(if length (all_servers g) \<ge> alloc_size g
        then tracker_mem_realloc_store_servers c ss leader 1 g cnt tp else (0, g, cnt, tp)) = (r1, g1, c1, tp1)"
      by (metis prod_cases4)
    note new = add_storage_new [OF wf j None re, of ip m]
    have "group_wf ss g1" "all_servers g1 = all_servers g" using new by blast+
    then have "length (all_servers g) \<notin> set (active_servers g1)" by (auto simp: group_wf_def group_core_def)
    with add id None new show ?thesis
      unfolding mem_add_storage_def re by (auto simp: re Let_def nth_append split: if_splits)
  qed
qed

lemma sync_one_wf:
  assumes sync: "sync_one_storage c ss leader b g cnt tp res = (r, g', cnt', tp')" and wf: "group_wf ss g"
    and fit: "ids_fit c" "length (br_id b) < 16" "length (br_ip_addr b) < 16"
  shows "group_wf ss g'"
proof (cases "tracker_mem_get_storage g (br_id b)")
  case (Some p)
  have p: "p < length (all_servers g)" using get_storage_exact [of g "br_id b" p] Some wf by (simp add: group_wf_def)
  have "group_wf ss (upd_server p (\<lambda>s. s\<lparr>st_status := x\<rparr>) g)" if "st_status (server g p) \<noteq> FDFS_STORAGE_STATUS_ACTIVE" for x
    using wf p inactive [OF wf that] by (intro group_wf_upd_server) auto
  with sync wf Some show ?thesis by (auto simp: sync_one_storage_def Let_def split: if_splits)
next
  case None
  obtain r1 p ins g1 c1 tp1 where add: "mem_add_storage c ss leader (Some (br_id b)) (br_ip_addr b) g cnt tp = (r1, p, ins, g1, c1, tp1)"
    by (metis prod_cases6)
  note new = mem_add_storage_wf [OF add wf fit(1)] fit(2,3)
  have "group_wf ss (upd_server (the p) (\<lambda>s. s\<lparr>st_status := x\<rparr>) g1)" if "ins" for x
    using new that by (intro group_wf_upd_server) auto
  with sync wf None add new show ?thesis by (auto simp: sync_one_storage_def split: if_splits)
qed

lemma sync_storages_wf:
  assumes "\<forall>b \<in> set bs. length (br_id b) < 16 \<and> length (br_ip_addr b) < 16" "ids_fit c"
  shows "sync_storages_loop c ss leader bs g cnt tp res = (r, g', cnt', tp') \<Longrightarrow> group_wf ss g \<Longrightarrow> group_wf ss g'"
  using assms(1)
proof (induction bs arbitrary: g cnt tp res)
  case (Cons b bs)
  obtain r1 g1 c1 tp1 where one: "sync_one_storage c ss leader b g cnt tp res = (r1, g1, c1, tp1)" by (metis prod_cases4)
  from Cons.prems one sync_one_wf [OF one _ assms(2)] Cons.IH [of g1 c1 tp1 r1] show ?case by simp
qed simp

interpretation place_cmp: comparison "\<lambda>p q. tracker_mem_cmp_by_storage_id (server g p) (server g q)" "\<lambda>_. True" for g
  by unfold_locales (auto simp: tracker_mem_cmp_by_storage_id_def strcmp_sign intro: strcmp_le_trans)

lemma sorted_wrt_strict:
  assumes "sorted_wrt (\<lambda>p q. R p q \<or> E p q) ps" "distinct ps" "\<And>p q. p \<in> set ps \<Longrightarrow> q \<in> set ps \<Longrightarrow> E p q \<Longrightarrow> p = q"
  shows "sorted_wrt R ps"
  using assms by (induction ps) auto

lemma distinct_qsort_by: "distinct xs \<Longrightarrow> distinct (qsort_by cmp xs)"
proof -
  have "length (insort_by cmp x ys) = Suc (length ys)" for x ys by (induction ys) auto
  then have "length (qsort_by cmp ys) = length ys" for ys by (induction ys) (auto simp: qsort_by_def)
  then show "distinct xs \<Longrightarrow> distinct (qsort_by cmp xs)" by (metis card_distinct distinct_card set_qsort_by)
qed

lemma qsort_by_id:
  assumes "distinct ps" "\<And>p q. p \<in> set ps \<Longrightarrow> q \<in> set ps \<Longrightarrow> st_id (server g p) = st_id (server g q) \<Longrightarrow> p = q"
  shows "by_id g (qsort_by (\<lambda>p q. tracker_mem_cmp_by_storage_id (server g p) (server g q)) ps)"
proof -
  let ?qs = "qsort_by (\<lambda>p q. tracker_mem_cmp_by_storage_id (server g p) (server g q)) ps"
  have "sorted_wrt (\<lambda>p q. tracker_mem_cmp_by_storage_id (server g p) (server g q) \<le> 0) ?qs"
    using place_cmp.qsort_in_order [of ps g] by (simp add: place_cmp.in_order_def)
  then have "sorted_wrt (\<lambda>p q. strcmp (st_id (server g p)) (st_id (server g q)) < 0 \<or> st_id (server g p) = st_id (server g q)) ?qs"
    by (rule sorted_wrt_mono_rel [rotated]) (metis order_le_less strcmp_0 tracker_mem_cmp_by_storage_id_def)
  from sorted_wrt_strict [OF this distinct_qsort_by [OF assms(1)]] assms(2) show ?thesis unfolding by_id_def by simp
qed

text \<open>Two servers that are not active exchange their ids, then the array is sorted again.\<close>

lemma exchange_wf:
  assumes wf: "group_wf ss g1" and a: "a < length (all_servers g1)" "a \<notin> set (active_servers g1)"
    and b: "b < length (all_servers g1)" "b \<notin> set (active_servers g1)" and ab: "a \<noteq> b"
    and f: "st_id (f (server g1 a)) = st_id (server g1 b)" and h: "st_id (h (server g1 b)) = st_id (server g1 a)"
  defines "g3 \<equiv> upd_server b h (upd_server a f g1)"
  shows "group_wf ss (g3\<lparr>grp_chg_count := n,
    sorted_servers := qsort_by (\<lambda>p q. tracker_mem_cmp_by_storage_id (server g3 p) (server g3 q)) (sorted_servers g3)\<rparr>)"
    (is "group_wf ss ?g4")
proof -
  have srv: "server g3 q = (if q = b then h (server g1 b) else if q = a then f (server g1 a) else server g1 q)" for q
    using a b ab by (simp add: g3_def server_upd_server)
  have core: "set (sorted_servers g1) = {..<length (all_servers g1)}" "by_id g1 (sorted_servers g1)" "by_id g1 (active_servers g1)"
    using wf by (auto simp: group_wf_def group_core_def)
  have "p = q" if "p < length (all_servers g1)" "q < length (all_servers g1)" "st_id (server g1 p) = st_id (server g1 q)" for p q
    using by_id_inj [OF core(2), of p q] core(1) that by simp
  then have "p = q" if "p < length (all_servers g1)" "q < length (all_servers g1)" "st_id (server g3 p) = st_id (server g3 q)" for p q
    using that a(1) b(1) ab f h srv by (metis (full_types))
  then have ids: "by_id g3 (qsort_by (\<lambda>p q. tracker_mem_cmp_by_storage_id (server g3 p) (server g3 q)) (sorted_servers g3))"
    using core(1) by_id_distinct [OF core(2)] by (intro qsort_by_id) (auto simp: g3_def)
  have same: "server g3 q = server g1 q" if "q \<in> set (active_servers g1)" for q using srv a(2) b(2) that by auto
  have "by_id ?g4 (sorted_servers ?g4)" using ids by (auto intro: by_id_cong [of g3])
  moreover have "by_id ?g4 (active_servers g1)" using core(3) same by (auto intro: by_id_cong [of g1])
  ultimately have "group_core ?g4" using wf core(1) by (auto simp: group_wf_def group_core_def g3_def)
  moreover have "store_ok ss ?g4" using wf same by (cases "pStoreServer g1") (auto simp: group_wf_def store_ok_def, auto simp: g3_def)
  ultimately show ?thesis using wf same by (simp add: group_wf_def) (simp add: g3_def)
qed

lemma ip_changed_wf:
  assumes chg: "tracker_mem_storage_ip_changed c ss leader old_ip new_ip g cnt tp = (r, g', cnt', tp')" and wf: "group_wf ss g"
    and fit: "ids_fit c" "length old_ip < 16" "length new_ip < 16"
  shows "group_wf ss g'"
proof (cases "g_use_storage_id c \<or> tracker_mem_get_storage g old_ip = None")
  case True
  with chg wf show ?thesis by (auto simp: tracker_mem_storage_ip_changed_def split: if_splits)
next
  case False
  then obtain a where a: "\<not> g_use_storage_id c" "tracker_mem_get_storage g old_ip = Some a" by auto
  then have alt: "a < length (all_servers g)" "st_id (server g a) = old_ip" using get_storage_exact [of g] wf by (auto simp: group_wf_def)
  obtain r1 p ins g1 c1 tp1 where add: "mem_add_storage c ss leader (Some new_ip) new_ip g cnt tp = (r1, p, ins, g1, c1, tp1)"
    by (metis prod_cases6)
  note new = mem_add_storage_wf [OF add wf fit(1)]
  define rename where "rename = (\<lambda>a (s :: FDFSStorageDetail). s\<lparr>st_id := snprintf_s 16 a, st_ip_addrs := (st_ip_addrs s)\<lparr>multi_ips := (multi_ips (st_ip_addrs s))
                              [0 := (multi_ips (st_ip_addrs s) ! 0)\<lparr>ip_address := a\<rparr>]\<rparr>\<rparr>)"
  define g3 where "g3 = upd_server (the p) (\<lambda>s. (rename old_ip s)\<lparr>st_status := FDFS_STORAGE_STATUS_IP_CHANGED\<rparr>) (upd_server a (rename new_ip) g1)"
  have "group_wf ss (g3\<lparr>grp_chg_count := n,
      sorted_servers := qsort_by (\<lambda>p q. tracker_mem_cmp_by_storage_id (server g3 p) (server g3 q)) (sorted_servers g3)\<rparr>)"
    if i: "ins" and st: "st_status (server g a) \<noteq> FDFS_STORAGE_STATUS_ACTIVE" for n
  proof -
    have g1: "group_wf ss g1" "p = Some (length (all_servers g))" "length (all_servers g1) = Suc (length (all_servers g))"
      "\<forall>q < length (all_servers g). server g1 q = server g q" "length (all_servers g) \<notin> set (active_servers g1)"
      using new fit i by auto
    obtain m where "storage_identity c g (Some new_ip) new_ip = Inr (st_id (server g1 (length (all_servers g))), m)" using new fit i by auto
    then have "st_id (server g1 (length (all_servers g))) = new_ip" using a(1) by (simp add: storage_identity_def Let_def)
    moreover have "a \<notin> set (active_servers g1)" using inactive [OF g1(1), of a] g1(4) alt(1) st by simp
    ultimately show ?thesis unfolding g3_def
      using alt g1 fit(2,3) by (intro exchange_wf) (simp_all add: rename_def snprintf_s_def)
  qed
  then show ?thesis
    using chg wf a new fit unfolding tracker_mem_storage_ip_changed_def
    by (auto simp: add Let_def rename_def [symmetric] g3_def split: if_splits option.splits prod.splits)
qed

lemma check_alive_wf:
  assumes "group_wf ss g"
  shows "group_wf ss (check_alive_group c ss now g)"
proof -
  define f where "f = (\<lambda>p g. tracker_mem_deactive_store_server ss p (upd_server p (\<lambda>s. s\<lparr>st_status := FDFS_STORAGE_STATUS_OFFLINE\<rparr>) g))"
  have len: "length (all_servers (f p g)) = length (all_servers g)" for p g
    unfolding f_def tracker_mem_deactive_store_server_def
    by (cases "search_servers (upd_server p (\<lambda>s. s\<lparr>st_status := 5\<rparr>) g) (st_id (server (upd_server p (\<lambda>s. s\<lparr>st_status := 5\<rparr>) g) p))
      (active_servers (upd_server p (\<lambda>s. s\<lparr>st_status := 5\<rparr>) g))") simp_all
  have one: "group_wf ss (f p g)" if "group_wf ss g" "p < length (all_servers g)" for p g
    unfolding f_def by (rule set_offline_wf [OF that])
  have all: "group_wf ss g \<Longrightarrow> \<forall>p \<in> set ps. p < length (all_servers g) \<Longrightarrow> group_wf ss (fold f ps g)" for ps g
    by (induction ps arbitrary: g) (simp_all add: one len)
  have "set (active_servers g) \<subseteq> {..<length (all_servers g)}" using assms by (simp add: group_wf_def group_core_def)
  then have "\<forall>p \<in> set (idle_servers c now g). p < length (all_servers g)"
    unfolding idle_servers_def by (fastforce dest: in_set_takeD)
  from all [OF assms this] show ?thesis unfolding check_alive_group_def f_def .
qed

lemma trunk_reset_wf: "group_wf ss g \<Longrightarrow> group_wf ss (g\<lparr>pTrunkServer := None\<rparr>)"
  by (rule group_wf_cong) (auto simp: group_wf_def group_core_def)

lemma check_trunk_wf:
  assumes "check_trunk_group c now g cnt tp = (g', cnt', tp')" "group_wf ss g"
  shows "group_wf ss g'"
proof -
  have find: "group_wf ss g1" if "tracker_mem_find_trunk_server c save g0 cnt0 tp0 = (r, g1, c1, tp1)" "group_wf ss g0" for save g0 cnt0 tp0 r g1 c1 tp1
    using only_trunk_wf [OF that(2)] find_trunk_only_trunk [OF that] by blast
  have log: "group_wf ss g1" if "tracker_set_trunk_server_and_log None g0 tp0 = (r, g1, tp1)" "group_wf ss g0" for g0 tp0 r g1 tp1
    using only_trunk_wf [OF that(2)] set_and_log_only_trunk [OF that(1)] by simp
  have count: "group_wf ss (g0\<lparr>grp_trunk_chg_count := n\<rparr>)" if "group_wf ss g0" for g0 n
    using that by (intro only_trunk_wf [OF that]) (auto simp: only_trunk_def group_wf_def group_core_def)
  show ?thesis
    using assms trunk_reset_wf [OF assms(2)] unfolding check_trunk_group_def
    by (auto split: option.splits if_splits prod.splits intro: count dest: find log)
qed

lemma writable_wf:
  assumes "group_wf ss g"
  shows "group_wf ss (snd (tracker_get_writable_storage srv g))"
proof -
  have "group_wf ss (g\<lparr>current_write_server := i\<rparr>)" if "0 \<le> i" for i
    using assms that by (intro group_wf_cong [OF assms]) (auto simp: group_wf_def group_core_def)
  with assms show ?thesis by (auto simp: tracker_get_writable_storage_def Let_def group_wf_def group_core_def)
qed

lemma next_read_wf:
  assumes "group_wf ss g"
  shows "group_wf ss (next_read_server g)"
  unfolding next_read_server_def
  using assms by (intro group_wf_cong [OF assms]) (auto simp: group_wf_def group_core_def)

lemma empty_group_wf: "group_wf ss (empty_group\<lparr>group_name := n, alloc_size := a\<rparr>)"
  by (simp add: group_wf_def group_core_def store_ok_def by_id_def empty_group_def)

section \<open>All groups\<close>

definition groups_by_name :: "FDFSGroupInfo list \<Rightarrow> nat list \<Rightarrow> bool" where
  "groups_by_name gl ks \<longleftrightarrow> sorted_wrt (\<lambda>k l. strcmp (group_name (gl ! k)) (group_name (gl ! l)) < 0) ks"

definition groups_wf :: "FDFSGroups \<Rightarrow> bool" where
  "groups_wf gs \<longleftrightarrow>
     set (sorted_groups gs) = {..<length (groups gs)} \<and> groups_by_name (groups gs) (sorted_groups gs) \<and>
     (\<forall>k. pStoreGroup gs = Some k \<longrightarrow> k < length (groups gs)) \<and>
     (\<forall>g \<in> set (groups gs). group_wf (store_server gs) g)"

interpretation group_cmp: comparison tracker_mem_cmp_by_group_name "\<lambda>_. True"
  by unfold_locales (auto simp: tracker_mem_cmp_by_group_name_def strcmp_sign intro: strcmp_le_trans)

lemma groups_by_name_inj:
  assumes "groups_by_name gl ks" "k \<in> set ks" "l \<in> set ks" "group_name (gl ! k) = group_name (gl ! l)"
  shows "k = l"
proof -
  obtain i j where ij: "i < length ks" "k = ks ! i" "j < length ks" "l = ks ! j"
    using assms(2,3) by (metis in_set_conv_nth)
  have "i = j"
    using assms(1,4) ij unfolding groups_by_name_def sorted_wrt_iff_nth_less by (metis linorder_neqE_nat strcmp_0 less_irrefl)
  with ij show ?thesis by simp
qed

lemma get_group_exact:
  assumes "groups_wf gs"
  shows "tracker_mem_get_group_ex gs name = Some k \<longleftrightarrow> k < length (groups gs) \<and> group_name (groups gs ! k) = name"
proof (cases "bsearch tracker_mem_cmp_by_group_name (empty_group\<lparr>group_name := name\<rparr>) (map (\<lambda>i. groups gs ! i) (sorted_groups gs))")
  case None
  have gs: "set (sorted_groups gs) = {..<length (groups gs)}" "groups_by_name (groups gs) (sorted_groups gs)"
    using assms by (auto simp: groups_wf_def)
  have "group_cmp.in_order (map (\<lambda>i. groups gs ! i) (sorted_groups gs))"
    using gs(2) unfolding group_cmp.in_order_def groups_by_name_def sorted_wrt_map
    by (rule sorted_wrt_mono_rel [rotated]) (simp add: tracker_mem_cmp_by_group_name_def)
  from group_cmp.bsearch_None [OF this _ _ None] gs(1) have "group_name (groups gs ! k) \<noteq> name" if "k < length (groups gs)"
    using that by (auto simp: tracker_mem_cmp_by_group_name_def)
  with None show ?thesis by (auto simp: tracker_mem_get_group_ex_def)
next
  case (Some j)
  have gs: "set (sorted_groups gs) = {..<length (groups gs)}" "groups_by_name (groups gs) (sorted_groups gs)"
    using assms by (auto simp: groups_wf_def)
  have j: "j < length (sorted_groups gs)" "group_name (groups gs ! (sorted_groups gs ! j)) = name"
    using bsearch_SomeD [OF Some] by (auto simp: tracker_mem_cmp_by_group_name_def)
  then have in_range: "sorted_groups gs ! j < length (groups gs)" using gs(1) nth_mem by blast
  have "sorted_groups gs ! j = k \<longleftrightarrow> k < length (groups gs) \<and> group_name (groups gs ! k) = name"
    using groups_by_name_inj [OF gs(2), of "sorted_groups gs ! j" k] j(2) in_range unfolding gs(1) lessThan_iff by blast
  with Some show ?thesis by (simp add: tracker_mem_get_group_ex_def)
qed

text \<open>An operation on one group that keeps its name.\<close>

lemma groups_wf_update:
  assumes "groups_wf gs" "group_wf (store_server gs) g" "k < length (groups gs)" "group_name g = group_name (groups gs ! k)"
  shows "groups_wf (gs\<lparr>groups := (groups gs)[k := g]\<rparr>)"
proof -
  have "group_name ((groups gs)[k := g] ! i) = group_name (groups gs ! i)" for i
    using assms(3,4) by (cases "i = k") simp_all
  with assms(1,2,3) show ?thesis
    by (auto simp: groups_wf_def groups_by_name_def dest: set_update_subset_insert [THEN subsetD])
qed

lemma groups_wf_map:
  assumes "groups_wf gs" "list_all2 (\<lambda>g g'. group_wf (store_server gs) g' \<and> group_name g' = group_name g) (groups gs) gl"
  shows "groups_wf (gs\<lparr>groups := gl\<rparr>)"
proof -
  have len: "length gl = length (groups gs)" using assms(2) by (simp add: list_all2_lengthD)
  have nm: "group_name (gl ! i) = group_name (groups gs ! i)" if "i < length (groups gs)" for i
    using assms(2) that by (auto simp: list_all2_conv_all_nth)
  have "groups_by_name gl (sorted_groups gs)"
    using assms(1) unfolding groups_wf_def groups_by_name_def
    by (elim conjE, elim sorted_wrt_mono_rel [rotated]) (auto simp: nm)
  moreover have "\<forall>g \<in> set gl. group_wf (store_server gs) g" using assms(2) by (auto simp: list_all2_conv_all_nth in_set_conv_nth)
  ultimately show ?thesis using assms(1) len by (auto simp: groups_wf_def)
qed

text \<open>Names.\<close>

lemma find_store_server_name [simp]: "group_name (tracker_mem_find_store_server ss g) = group_name g"
  by (simp add: tracker_mem_find_store_server_def)

lemma deactive_name [simp]: "group_name (tracker_mem_deactive_store_server ss p g) = group_name g"
  by (simp add: tracker_mem_deactive_store_server_def split: option.split)

lemma check_alive_name [simp]: "group_name (check_alive_group c ss now g) = group_name g"
proof -
  have "group_name (fold (\<lambda>p g. tracker_mem_deactive_store_server ss p (upd_server p f g)) ps g) = group_name g" for ps g and f
    by (induction ps arbitrary: g) simp_all
  then show ?thesis by (simp add: check_alive_group_def)
qed

lemma set_and_log_name: "tracker_set_trunk_server_and_log t g tp = (r, g', tp') \<Longrightarrow> group_name g' = group_name g"
  by (auto simp: tracker_set_trunk_server_and_log_def Let_def split: if_splits prod.splits)

lemma do_set_trunk_name: "tracker_mem_do_set_trunk_server p save g cnt tp = (r, g', cnt', tp') \<Longrightarrow> group_name g' = group_name g"
  by (auto simp: tracker_mem_do_set_trunk_server_def Let_def split: if_splits prod.splits dest!: set_and_log_name)

lemma find_trunk_name: "tracker_mem_find_trunk_server c save g cnt tp = (r, g', cnt', tp') \<Longrightarrow> group_name g' = group_name g"
  by (auto simp: tracker_mem_find_trunk_server_def split: option.splits prod.splits if_splits dest!: do_set_trunk_name)

lemma check_trunk_name: "check_trunk_group c now g cnt tp = (g', cnt', tp') \<Longrightarrow> group_name g' = group_name g"
  by (auto simp: check_trunk_group_def split: option.splits if_splits prod.splits dest!: find_trunk_name set_and_log_name)

lemma set_trunk_name: "tracker_mem_set_trunk_server c leader i g cnt tp = (r, t, g', cnt', tp') \<Longrightarrow> group_name g' = group_name g"
  by (auto simp: tracker_mem_set_trunk_server_def Let_def split: option.splits if_splits prod.splits dest!: find_trunk_name do_set_trunk_name)

lemma active_name: "tracker_mem_active_store_server c ss leader p g cnt tp = (r, g', cnt', tp') \<Longrightarrow> group_name g' = group_name g"
  by (auto simp: tracker_mem_active_store_server_def Let_def split: if_splits prod.splits dest!: find_trunk_name)

lemma delete_storage_name: "group_name (snd (tracker_mem_delete_storage g i)) = group_name g"
  by (auto simp: tracker_mem_delete_storage_def Let_def split: option.split)

lemma realloc_name: "tracker_mem_realloc_store_servers c ss leader n g cnt tp = (r, g', cnt', tp') \<Longrightarrow> group_name g' = group_name g"
  by (auto simp: tracker_mem_realloc_store_servers_def Let_def split: if_splits prod.splits dest!: find_trunk_name)

lemma mem_add_storage_name: "mem_add_storage c ss leader i ip g cnt tp = (r, p, ins, g', cnt', tp') \<Longrightarrow> group_name g' = group_name g"
  by (auto simp: mem_add_storage_def Let_def split: if_splits prod.splits sum.splits option.splits dest!: realloc_name)

lemma ip_changed_name: "tracker_mem_storage_ip_changed c ss leader a b g cnt tp = (r, g', cnt', tp') \<Longrightarrow> group_name g' = group_name g"
  by (auto simp: tracker_mem_storage_ip_changed_def Let_def split: if_splits prod.splits option.splits dest!: mem_add_storage_name)

lemma sync_one_name: "sync_one_storage c ss leader b g cnt tp res = (r, g', cnt', tp') \<Longrightarrow> group_name g' = group_name g"
  by (auto simp: sync_one_storage_def Let_def split: if_splits prod.splits option.splits dest!: mem_add_storage_name)

lemma sync_storages_name: "sync_storages_loop c ss leader bs g cnt tp res = (r, g', cnt', tp') \<Longrightarrow> group_name g' = group_name g"
proof (induction bs arbitrary: g cnt tp res)
  case (Cons b bs)
  obtain r1 g1 c1 tp1 where one: "sync_one_storage c ss leader b g cnt tp res = (r1, g1, c1, tp1)" by (metis prod_cases4)
  from Cons.prems one sync_one_name [OF one] Cons.IH [of g1 c1 tp1 r1] show ?case by simp
qed simp

lemma writable_name: "group_name (snd (tracker_get_writable_storage srv g)) = group_name g"
  by (simp add: tracker_get_writable_storage_def Let_def)

lemma next_read_name: "group_name (next_read_server g) = group_name g"
  by (simp add: next_read_server_def)

section \<open>What the tracker can do to its groups\<close>

text \<open>
  The operations on one group. Each one runs with any results of the calls outside, any
  clock, and whether or not the tracker is the leader.
\<close>

inductive group_step :: "tracker_conf \<Rightarrow> int \<Rightarrow> FDFSGroupInfo \<Rightarrow> FDFSGroupInfo \<Rightarrow> bool" for c ss where
  add: "mem_add_storage c ss leader i ip g cnt tp = (r, p, ins, g', cnt', tp') \<Longrightarrow>
    \<forall>a. i = Some a \<longrightarrow> length a < 16 \<Longrightarrow> length ip < 16 \<Longrightarrow> group_step c ss g g'"
| activate: "tracker_mem_active_store_server c ss leader p g cnt tp = (r, g', cnt', tp') \<Longrightarrow> p < length (all_servers g) \<Longrightarrow>
    group_step c ss g g'"
| offline: "p < length (all_servers g) \<Longrightarrow> group_step c ss g (tracker_mem_offline_store_server ss p g)"
| delete: "group_step c ss g (snd (tracker_mem_delete_storage g i))"
| ip_changed: "tracker_mem_storage_ip_changed c ss leader old_ip new_ip g cnt tp = (r, g', cnt', tp') \<Longrightarrow>
    length old_ip < 16 \<Longrightarrow> length new_ip < 16 \<Longrightarrow> group_step c ss g g'"
| sync: "tracker_mem_sync_storages c ss leader bs g cnt tp = (r, g', cnt', tp') \<Longrightarrow>
    \<forall>b \<in> set bs. length (br_id b) < 16 \<and> length (br_ip_addr b) < 16 \<Longrightarrow> group_step c ss g g'"
| set_trunk: "tracker_mem_set_trunk_server c leader i g cnt tp = (r, t, g', cnt', tp') \<Longrightarrow> group_step c ss g g'"
| writable: "group_step c ss g (snd (tracker_get_writable_storage ss g))"

inductive groups_step :: "tracker_conf \<Rightarrow> FDFSGroups \<Rightarrow> FDFSGroups \<Rightarrow> bool" for c where
  one: "k < length (groups gs) \<Longrightarrow> group_step c (store_server gs) (groups gs ! k) g \<Longrightarrow>
    groups_step c gs (gs\<lparr>groups := (groups gs)[k := g]\<rparr>)"
| add_group: "tracker_mem_add_group_ex name gs tp = (r, k, ins, gs', tp') \<Longrightarrow> groups_step c gs gs'"
| delete_group: "tracker_mem_delete_group name gs tp = (r, gs', tp') \<Longrightarrow> groups_step c gs gs'"
| check_alive: "tracker_mem_check_alive c leader now gs cnt tp = (gs', cnt', tp') \<Longrightarrow> groups_step c gs gs'"
| find_trunk: "tracker_mem_find_trunk_servers c leader gs cnt tp = (gs', cnt', tp') \<Longrightarrow> groups_step c gs gs'"
| query: "tracker_mem_get_storage_by_filename c cmd now name filename gs = (r, found, gs') \<Longrightarrow> groups_step c gs gs'"

lemma offline_name: "group_name (tracker_mem_offline_store_server ss p g) = group_name g"
  by (simp add: tracker_mem_offline_store_server_def Let_def)

lemma group_step_wf: "group_step c ss g g' \<Longrightarrow> group_wf ss g \<Longrightarrow> ids_fit c \<Longrightarrow> group_wf ss g'"
proof (induction rule: group_step.induct)
  case (add leader i ip g cnt tp r p ins g' cnt' tp')
  then show ?case using mem_add_storage_wf by blast
next
  case (sync leader bs g cnt tp r g' cnt' tp')
  then show ?case using sync_storages_wf unfolding tracker_mem_sync_storages_def by blast
qed (auto intro: active_wf offline_wf delete_storage_wf ip_changed_wf set_trunk_wf writable_wf)

lemma group_step_name: "group_step c ss g g' \<Longrightarrow> group_name g' = group_name g"
  by (induction rule: group_step.induct)
    (auto simp: tracker_mem_sync_storages_def offline_name delete_storage_name writable_name
      dest: mem_add_storage_name active_name ip_changed_name sync_storages_name set_trunk_name)

lemma add_group_wf:
  assumes "tracker_mem_add_group_ex name gs tp = (r, k, ins, gs', tp')" "groups_wf gs"
  shows "groups_wf gs'"
proof (cases "tracker_mem_get_group_ex gs name")
  case None
  define gl where "gl = groups gs @ [empty_group\<lparr>group_name := name, alloc_size := TRACKER_MEM_ALLOC_ONCE\<rparr>]"
  define ks where "ks = rev (insert_loop (\<lambda>i. group_name (gl ! i)) (length (groups gs)) (rev (sorted_groups gs)))"
  have gs: "set (sorted_groups gs) = {..<length (groups gs)}" "groups_by_name (groups gs) (sorted_groups gs)"
    using assms by (auto simp: groups_wf_def)
  have nm: "group_name (gl ! i) = (if i < length (groups gs) then group_name (groups gs ! i) else name)" if "i \<le> length (groups gs)" for i
    using that by (auto simp: gl_def nth_append)
  have "sorted_wrt (\<lambda>p q. strcmp (group_name (gl ! p)) (group_name (gl ! q)) < 0) (sorted_groups gs)"
    using gs(2) unfolding groups_by_name_def
    by (elim sorted_wrt_mono_rel [rotated]) (use gs(1) nm in auto)
  moreover have "\<forall>i \<in> set (rev (sorted_groups gs)). group_name (gl ! i) \<noteq> group_name (gl ! length (groups gs))"
    using get_group_exact [OF assms(2), of name] None gs(1) nm by auto
  ultimately have "groups_by_name gl ks" "set ks = {..<length gl}"
    using insert_loop_sorted [of "\<lambda>i. group_name (gl ! i)" "rev (sorted_groups gs)" "length (groups gs)"] gs(1)
    by (auto simp: groups_by_name_def ks_def sorted_wrt_rev_swap insert_loop_set gl_def less_Suc_eq)
  moreover have "\<forall>g \<in> set gl. group_wf (store_server gs) g" using assms(2) empty_group_wf by (auto simp: groups_wf_def gl_def)
  ultimately have new: "groups_wf (gs\<lparr>grps_alloc_size := a, groups := gl, sorted_groups := ks, pStoreGroup := q\<rparr>)"
    if "\<forall>k. q = Some k \<longrightarrow> k < length gl" for a q
    using that by (simp add: groups_wf_def)
  have old: "groups_wf (gs\<lparr>grps_alloc_size := a\<rparr>)" for a using assms(2) by (simp add: groups_wf_def)
  have sg: "\<forall>k. pStoreGroup gs = Some k \<longrightarrow> k < length gl" using assms(2) by (auto simp: groups_wf_def gl_def)
  show ?thesis
    using assms new [of "pStoreGroup gs" "grps_alloc_size gs"] new [of "pStoreGroup gs" "grps_alloc_size gs + 2"]
      new [of "Some (length (groups gs))" "grps_alloc_size gs"] new [of "Some (length (groups gs))" "grps_alloc_size gs + 2"] old sg None
    by (auto simp: tracker_mem_add_group_ex_def Let_def tracker_mem_insert_into_sorted_groups_def gl_def ks_def groups_wf_def
        split: if_splits prod.splits)
qed (use assms in \<open>simp add: tracker_mem_add_group_ex_def\<close>)

lemma removed_nth:
  assumes "i \<noteq> k" "k < length xs" "i < length xs"
  shows "(take k xs @ drop (Suc k) xs) ! moved_down k i = xs ! i" "moved_down k i < length xs - 1"
  using assms by (auto simp: moved_down_def nth_append)

lemma moved_down_onto:
  assumes "k < n"
  shows "moved_down k ` ({..<n} - {k}) = {..<n - 1}"
proof
  show "{..<n - 1} \<subseteq> moved_down k ` ({..<n} - {k})"
  proof
    fix j assume "j \<in> {..<n - 1}"
    then have "j = moved_down k (if j < k then j else Suc j)" "(if j < k then j else Suc j) \<in> {..<n} - {k}"
      by (auto simp: moved_down_def)
    then show "j \<in> moved_down k ` ({..<n} - {k})" by blast
  qed
qed (use assms in \<open>auto simp: moved_down_def\<close>)

lemma delete_group_wf:
  assumes "tracker_mem_delete_group name gs tp = (r, gs', tp')" "groups_wf gs"
  shows "groups_wf gs'"
proof (cases "tracker_mem_get_group_ex gs name")
  case (Some k)
  define gl where "gl = take k (groups gs) @ drop (Suc k) (groups gs)"
  define ks where "ks = map (moved_down k) (filter (\<lambda>i. i \<noteq> k) (sorted_groups gs))"
  have k: "k < length (groups gs)" using get_group_exact [OF assms(2), of name k] Some by simp
  have gs: "set (sorted_groups gs) = {..<length (groups gs)}" "groups_by_name (groups gs) (sorted_groups gs)"
    using assms by (auto simp: groups_wf_def)
  have len: "length gl = length (groups gs) - 1" using k by (simp add: gl_def)
  have "sorted_wrt (\<lambda>i j. strcmp (group_name (groups gs ! i)) (group_name (groups gs ! j)) < 0) (filter (\<lambda>i. i \<noteq> k) (sorted_groups gs))"
    using gs(2) unfolding groups_by_name_def by (rule sorted_wrt_filter)
  then have "groups_by_name gl ks"
    unfolding groups_by_name_def ks_def sorted_wrt_map
    by (elim sorted_wrt_mono_rel [rotated]) (use gs(1) k removed_nth(1) [of _ k "groups gs"] in \<open>auto simp: gl_def\<close>)
  moreover have "set (filter (\<lambda>i. i \<noteq> k) (sorted_groups gs)) = {..<length (groups gs)} - {k}" using gs(1) by auto
  then have "set ks = {..<length gl}" using moved_down_onto [OF k] len by (simp add: ks_def del: set_filter)
  moreover have "\<forall>g \<in> set gl. group_wf (store_server gs) g"
    using assms(2) by (auto simp: gl_def groups_wf_def dest: in_set_takeD in_set_dropD)
  moreover have "\<forall>j. (if pStoreGroup gs = Some k then None else map_option (moved_down k) (pStoreGroup gs)) = Some j \<longrightarrow> j < length gl"
    using assms(2) k len by (auto simp: groups_wf_def moved_down_def)
  ultimately have "groups_wf (gs\<lparr>groups := gl, sorted_groups := ks,
      pStoreGroup := (if pStoreGroup gs = Some k then None else map_option (moved_down k) (pStoreGroup gs))\<rparr>)"
    by (simp add: groups_wf_def)
  with assms Some show ?thesis
    by (auto simp: tracker_mem_delete_group_def Let_def gl_def ks_def split: if_splits prod.splits)
qed (use assms in \<open>simp add: tracker_mem_delete_group_def\<close>)

abbreviation kept_groups :: "int \<Rightarrow> FDFSGroupInfo list \<Rightarrow> FDFSGroupInfo list \<Rightarrow> bool" where
  "kept_groups ss \<equiv> list_all2 (\<lambda>g g'. group_wf ss g' \<and> group_name g' = group_name g)"

lemma check_trunk_loop_kept:
  "check_trunk_loop c now gl cnt tp = (gl', cnt', tp') \<Longrightarrow> \<forall>g \<in> set gl. group_wf ss g \<Longrightarrow> kept_groups ss gl gl'"
  by (induction gl arbitrary: gl' cnt tp) (auto split: prod.splits intro: check_trunk_wf dest: check_trunk_name)

lemma find_trunk_servers_kept:
  "find_trunk_servers_loop c gl cnt tp = (gl', cnt', tp') \<Longrightarrow> \<forall>g \<in> set gl. group_wf ss g \<Longrightarrow> kept_groups ss gl gl'"
proof (induction gl arbitrary: gl' cnt tp)
  case (Cons g gl)
  have "group_wf ss g1 \<and> group_name g1 = group_name g"
    if "tracker_mem_find_trunk_server c True g cnt tp = (r, g1, c1, tp1)" for r g1 c1 tp1
    using that Cons.prems(2) only_trunk_wf find_trunk_only_trunk find_trunk_name by (metis list.set_intros(1))
  with Cons show ?case by (auto split: prod.splits if_splits)
qed simp

lemma check_alive_groups_wf:
  assumes "tracker_mem_check_alive c leader now gs cnt tp = (gs', cnt', tp')" "groups_wf gs"
  shows "groups_wf gs'"
proof -
  have alive: "\<forall>g \<in> set (map (check_alive_group c (store_server gs) now) (groups gs)). group_wf (store_server gs) g"
    "kept_groups (store_server gs) (groups gs) (map (check_alive_group c (store_server gs) now) (groups gs))"
    using assms(2) by (auto simp: groups_wf_def list_all2_map2 list_all2_same intro: check_alive_wf)
  have "kept_groups (store_server gs) (groups gs) gl"
    if "check_trunk_loop c now (map (check_alive_group c (store_server gs) now) (groups gs)) cnt tp = (gl, c1, tp1)" for gl c1 tp1
    using list_all2_trans [OF _ alive(2) check_trunk_loop_kept [OF that alive(1)]] by simp
  with assms alive(2) show ?thesis
    by (auto simp: tracker_mem_check_alive_def Let_def split: if_splits prod.splits intro!: groups_wf_map)
qed

lemma find_trunk_groups_wf:
  assumes "tracker_mem_find_trunk_servers c leader gs cnt tp = (gs', cnt', tp')" "groups_wf gs"
  shows "groups_wf gs'"
proof -
  have "\<forall>g \<in> set (groups gs). group_wf (store_server gs) g" using assms(2) by (simp add: groups_wf_def)
  from find_trunk_servers_kept [OF _ this] assms show ?thesis
    by (auto simp: tracker_mem_find_trunk_servers_def split: if_splits prod.splits intro!: groups_wf_map)
qed

lemma query_groups_wf:
  assumes "tracker_mem_get_storage_by_filename c cmd now name filename gs = (r, found, gs')" "groups_wf gs"
  shows "groups_wf gs'"
proof (cases "tracker_mem_get_group_ex gs name")
  case (Some k)
  have k: "k < length (groups gs)" using get_group_exact [OF assms(2), of name k] Some by simp
  let ?g = "groups gs ! k"
  have wf: "group_wf (store_server gs) ?g" using assms(2) k by (simp add: groups_wf_def)
  have same: "groups_wf (gs\<lparr>groups := (groups gs)[k := g]\<rparr>)"
    if "g = ?g \<or> g = next_read_server ?g \<or> g = snd (tracker_get_writable_storage (store_server gs) ?g)" for g
    using that wf by (intro groups_wf_update [OF assms(2) _ k]) (auto simp: next_read_wf next_read_name writable_wf writable_name)
  have "snd (fetch_one c ss ds now orig store ?g) \<in> {?g, next_read_server ?g}" for ss ds orig store
    by (auto simp: fetch_one_def Let_def split: option.split)
  then have f: "g1 = ?g \<or> g1 = next_read_server ?g" if "fetch_one c ss ds now orig store ?g = (p, g1)" for ss ds orig store p g1
    using that by (metis insertE singletonD snd_conv)
  have u: "g1 = ?g \<or> g1 = snd (tracker_get_writable_storage (store_server gs) ?g)" if "query_update c (store_server gs) orig ?g = (fnd, g1)" for orig fnd g1
    using that by (auto simp: query_update_def split: option.splits prod.splits if_splits)
  show ?thesis
    using assms unfolding tracker_mem_get_storage_by_filename_def Some Let_def
    by (auto split: if_splits option.splits query_cmd.splits prod.splits intro!: same dest!: f u)
qed (use assms in \<open>simp add: tracker_mem_get_storage_by_filename_def\<close>)

lemma groups_step_wf: "groups_step c gs gs' \<Longrightarrow> groups_wf gs \<Longrightarrow> ids_fit c \<Longrightarrow> groups_wf gs'"
proof (induction rule: groups_step.induct)
  case (one k gs g)
  have "group_wf (store_server gs) (groups gs ! k)" using one by (simp add: groups_wf_def)
  with one show ?case by (intro groups_wf_update) (auto intro: group_step_wf group_step_name)
qed (blast intro: add_group_wf delete_group_wf check_alive_groups_wf find_trunk_groups_wf query_groups_wf)+

definition no_groups :: "FDFSGroups \<Rightarrow> bool" where
  "no_groups gs \<longleftrightarrow> groups gs = [] \<and> sorted_groups gs = [] \<and> pStoreGroup gs = None"

lemma no_groups_wf: "no_groups gs \<Longrightarrow> groups_wf gs"
  by (simp add: no_groups_def groups_wf_def groups_by_name_def)

interpretation group_steps: step_system no_groups "groups_step c" "\<lambda>gs. ids_fit c \<longrightarrow> groups_wf gs" for c
  by unfold_locales (auto intro: groups_step_wf no_groups_wf)


definition sample_conf :: tracker_conf where
  "sample_conf = \<lparr>tc_fc = fc_impl, g_use_storage_id = False,
     tc_ids = \<lparr>g_storage_ids_by_id = [], g_storage_ids_by_ip = [], g_storage_ids_by_ip_port = []\<rparr>,
     g_if_use_trunk_file = True, g_check_active_interval = 100, g_trunk_init_check_occupying = False,
     g_trunk_init_reload_from_binlog = False, g_storage_sync_file_max_delay = 86400, g_storage_sync_file_max_time = 300,
     binlog_size = (\<lambda>ip. if ip = ''10.0.0.2'' then 50 else if ip = ''10.0.0.3'' then 20 else 10)\<rparr>"

definition sample_groups :: FDFSGroups where
  "sample_groups = \<lparr>grps_alloc_size = 0, groups = [], sorted_groups = [], pStoreGroup = None, store_lookup = 0, store_server = 0,
     download_server = 1, store_group = []\<rparr>"

definition sample_groups1 :: FDFSGroups where
  "sample_groups1 = (case tracker_mem_add_group_ex ''g1'' sample_groups [] of (r, k, ins, gs, tp) \<Rightarrow> gs)"

definition sample_group2 :: FDFSGroupInfo where
  "sample_group2 = (case mem_add_storage sample_conf 0 True None ''10.0.0.2'' (groups sample_groups1 ! 0) 0 [] of (r, p, ins, g, cnt, tp) \<Rightarrow> g)"

lemma sample_steps: "(groups_step sample_conf)\<^sup>*\<^sup>* sample_groups (sample_groups1\<lparr>groups := [sample_group2]\<rparr>)"
proof -
  obtain r k ins gs tp where a: "tracker_mem_add_group_ex ''g1'' sample_groups [] = (r, k, ins, gs, tp)" by (metis prod_cases5)
  have s1: "groups_step sample_conf sample_groups sample_groups1" using add_group [OF a] by (simp add: sample_groups1_def a)
  obtain r2 p ins2 g cnt tp2 where b: "mem_add_storage sample_conf 0 True None ''10.0.0.2'' (groups sample_groups1 ! 0) 0 [] = (r2, p, ins2, g, cnt, tp2)"
    by (metis prod_cases6)
  have "group_step sample_conf 0 (groups sample_groups1 ! 0) sample_group2" using add [OF b] by (simp add: sample_group2_def b)
  moreover have "length (groups sample_groups1) = 1" "store_server sample_groups1 = 0" by code_simp+
  ultimately have "groups_step sample_conf sample_groups1 (sample_groups1\<lparr>groups := (groups sample_groups1)[0 := sample_group2]\<rparr>)"
    by (intro one) simp_all
  moreover have "(groups sample_groups1)[0 := sample_group2] = [sample_group2]"
    using \<open>length (groups sample_groups1) = 1\<close> by (cases "groups sample_groups1") simp_all
  ultimately show ?thesis using s1 by (simp add: converse_rtranclp_into_rtranclp)
qed


section \<open>Which server becomes the trunk server\<close>

abbreviation trunk_binlog :: "tracker_conf \<Rightarrow> FDFSGroupInfo \<Rightarrow> nat \<Rightarrow> int" where
  "trunk_binlog c g p \<equiv> binlog_size c (FDFS_CURRENT_IP_ADDR (server g p))"

lemma get_trunk_binlog_size_ok:
  assumes "fc_ok (tc_fc c)" "in_i64 (binlog_size c ip)"
  shows "tracker_mem_get_trunk_binlog_size c ip [] = (0, binlog_size c ip, [])"
  using assms fc_int2buff [OF assms(1)] fc_buff2long [OF assms]
  by (simp add: tracker_mem_get_trunk_binlog_size_def storage_get_trunk_binlog_size_def fdfs_recv_response_def fdfs_recv_header_ex_def)

lemma find_trunk_loop_last:
  assumes "fc_ok (tc_fc c)" "\<forall>ip. in_i64 (binlog_size c ip)" "trunk_binlog c g s = mx"
  shows "distinct ps \<Longrightarrow> p = s \<or> p \<notin> set ps \<Longrightarrow>
    find_trunk_loop c g mx p ps [] = (last (p # filter (\<lambda>q. trunk_binlog c g q > mx) ps), [])"
  using assms by (induction ps arbitrary: p) (auto simp: get_trunk_binlog_size_ok)


definition sample_server :: "string \<Rightarrow> FDFSStorageDetail" where
  "sample_server a = zero_storage\<lparr>st_id := a, st_ip_addrs := \<lparr>multi_index = 0, multi_ips = [\<lparr>ip_type = 0, ip_address = a\<rparr>]\<rparr>,
     st_status := FDFS_STORAGE_STATUS_ACTIVE\<rparr>"

definition sample_group :: FDFSGroupInfo where
  "sample_group = empty_group\<lparr>group_name := ''g1'', alloc_size := 4, all_servers := map sample_server [''10.0.0.1'', ''10.0.0.2'', ''10.0.0.3''],
     sorted_servers := [0, 1, 2], active_servers := [0, 1, 2], pStoreServer := Some 0\<rparr>"

lemma sample_group_wf: "group_wf 0 sample_group"
proof -
  have "by_id sample_group [0, 1, 2]" by code_simp
  then show ?thesis by (auto simp: group_wf_def group_core_def store_ok_def sample_group_def sample_server_def empty_group_def)
qed

lemma sample_binlog: "fc_ok (tc_fc sample_conf)" "\<forall>ip. in_i64 (binlog_size sample_conf ip)"
  by (simp_all add: sample_conf_def fc_impl_ok in_i64_def)


section \<open>Requests for a file\<close>

lemma u32_byte_range: "0 \<le> u32_byte n k" "u32_byte n k < 256"
  by (simp_all add: u32_byte_def)

lemma c_int_add: "c_int (n + 2 ^ 32 * q) = c_int n"
proof -
  have "n + 2 ^ 32 * q + 2 ^ 31 = (n + 2 ^ 31) + 2 ^ 32 * q" by simp
  then show ?thesis unfolding c_int_def by (metis mod_mult_self2)
qed

lemma u32_byte_add: "k < 4 \<Longrightarrow> u32_byte (n + 2 ^ 32 * q) k = u32_byte n k"
proof -
  assume "k < 4"
  then have "(256::int) ^ k * 256 * 256 ^ (3 - k) = 256 ^ 4" by (simp flip: power_Suc2 power_add)
  then have "2 ^ 32 * q = 256 ^ k * (256 * (256 ^ (3 - k) * q))" by (simp add: algebra_simps)
  then have "(n + 2 ^ 32 * q) div 256 ^ k = 256 * (256 ^ (3 - k) * q) + n div 256 ^ k"
    using div_mult_self2 [of "(256::int) ^ k" n "256 * (256 ^ (3 - k) * q)"] by (metis power_not_zero zero_neq_numeral)
  then show ?thesis by (simp add: u32_byte_def)
qed

lemma u32_byte_c_int: "k < 4 \<Longrightarrow> u32_byte (c_int n) k = u32_byte n k"
proof -
  assume "k < 4"
  have "c_int n = n + 2 ^ 32 * (- ((n + 2 ^ 31) div 2 ^ 32))"
    unfolding c_int_def by (simp add: minus_div_mult_eq_mod [symmetric] algebra_simps)
  with u32_byte_add [OF \<open>k < 4\<close>] show ?thesis by metis
qed

lemma u32_byte_shift:
  assumes "0 \<le> d" "d < 256"
  shows "u32_byte (x * 256 + d) 0 = d" "u32_byte (x * 256 + d) (Suc k) = u32_byte x k"
proof -
  have "(x * 256 + d) div 256 = x" using assms by simp
  moreover have "(x * 256 + d) div 256 ^ Suc k = (x * 256 + d) div 256 div 256 ^ k" by (simp only: power_Suc zdiv_zmult2_eq zero_le_power zero_le_numeral)
  ultimately have "(x * 256 + d) div 256 ^ Suc k = x div 256 ^ k" by simp
  then show "u32_byte (x * 256 + d) (Suc k) = u32_byte x k" unfolding u32_byte_def by simp
  show "u32_byte (x * 256 + d) 0 = d" using assms by (simp add: u32_byte_def)
qed

lemma u32_bytes: "\<exists>q. n = (((q * 256 + u32_byte n 3) * 256 + u32_byte n 2) * 256 + u32_byte n 1) * 256 + u32_byte n 0"
proof -
  have m: "m = m div 256 * 256 + m mod 256" for m :: int by simp
  have "n div 256 ^ 2 = n div 256 div 256" "n div 256 ^ 3 = n div 256 div 256 div 256"
    by (simp_all add: div_mult2_eq [symmetric])
  then have "n = (((n div 256 div 256 div 256 div 256 * 256 + u32_byte n 3) * 256 + u32_byte n 2) * 256 + u32_byte n 1) * 256 + u32_byte n 0"
    unfolding u32_byte_def using m [of n] m [of "n div 256"] m [of "n div 256 div 256"] m [of "n div 256 div 256 div 256"] by simp
  then show ?thesis ..
qed

text \<open>Reversing the bytes twice: what the storage server writes with \<open>htonl\<close> the tracker reads.\<close>

lemma ntohl_ntohl: "in_i32 n \<Longrightarrow> ntohl (ntohl n) = n"
proof -
  assume n: "in_i32 n"
  define h where "h = (\<lambda>a b c d. ((a * 256 + b) * 256 + c) * 256 + d :: int)"
  have nt: "ntohl m = c_int (h (u32_byte m 0) (u32_byte m 1) (u32_byte m 2) (u32_byte m 3))" for m
    by (simp add: ntohl_def h_def algebra_simps)
  have hb: "u32_byte (h a b c d) 0 = d" "u32_byte (h a b c d) 1 = c" "u32_byte (h a b c d) 2 = b" "u32_byte (h a b c d) 3 = a"
    if "0 \<le> a" "a < 256" "0 \<le> b" "b < 256" "0 \<le> c" "c < 256" "0 \<le> d" "d < 256" for a b c d
    using that unfolding h_def One_nat_def numeral_2_eq_2 numeral_3_eq_3
    by (simp_all only: u32_byte_shift) (simp add: u32_byte_def)
  obtain q where q: "n = (((q * 256 + u32_byte n 3) * 256 + u32_byte n 2) * 256 + u32_byte n 1) * 256 + u32_byte n 0"
    using u32_bytes by blast
  have "ntohl (ntohl n) = c_int (h (u32_byte n 3) (u32_byte n 2) (u32_byte n 1) (u32_byte n 0))"
    unfolding nt [of n] nt [of "c_int m" for m] by (simp only: u32_byte_c_int hb u32_byte_range)
  also have "\<dots> = c_int (h (u32_byte n 3) (u32_byte n 2) (u32_byte n 1) (u32_byte n 0) + 2 ^ 32 * q)" by (simp only: c_int_add)
  also have "h a b c d + 2 ^ 32 * q = (((q * 256 + a) * 256 + b) * 256 + c) * 256 + d" for a b c d
    by (simp add: h_def algebra_simps)
  also note q [symmetric]
  finally show ?thesis using c_int_id [OF n] by simp
qed

text \<open>What the tracker reads from a name that a storage server with id \<open>n\<close> has generated.\<close>

lemma decode_origin_generated:
  assumes F: "fc_ok F" and gen: "storage_gen_filename F sc (ntohl n) rnd file_size crc32 ext ts u st = (name, u', st')"
    and "length ext = 7" "length pre = 4" "up_sub_path_high u < 256" "up_sub_path_low u < 256"
    and n: "0 < n" "n \<le> FDFS_MAX_SERVER_ID" and ts: "in_i32 ts"
  shows "fo_ip (decode_origin F (pre @ name)) = n \<and> fo_id (decode_origin F (pre @ name)) = fmt_d n \<and>
    fo_timestamp (decode_origin F (pre @ name)) = ts"
proof -
  note layout = storage_gen_filename_layout [OF F assms(3) gen assms(5,6)]
  have "take 27 (drop 10 (pre @ name)) = take 27 (drop 6 name)" using assms(4) by simp
  moreover have "in_i32 (ntohl n)" by (simp add: ntohl_def c_int_def in_i32_def)
  moreover have "ntohl (ntohl n) = n" using n by (intro ntohl_ntohl) (simp add: in_i32_def)
  ultimately show ?thesis
    using layout assms(4) n ts fc_int2buff [OF F] fc_buff2int [OF F]
    by (simp add: decode_origin_def Let_def fdfs_get_server_id_type_def)
qed

lemma fmt_d_not_Nil [simp]: "fmt_d n \<noteq> []"
proof
  assume "fmt_d n = []"
  then have "n = atoi []" using atoi_fmt_d_Nil [of n] by simp
  then show False using \<open>fmt_d n = []\<close> by (auto simp: fmt_d_def fmt_base.simps atoi_def split: if_splits)
qed

lemma source_server_active:
  assumes "group_wf ss g" "source_server c g orig = Some p"
  shows "p \<in> set (active_servers g)"
proof -
  have core: "group_core g" using assms(1) by (simp add: group_wf_def)
  show ?thesis
    using assms(2) get_active_exact [OF core]
    by (auto simp: source_server_def tracker_mem_get_active_storage_by_ip_def split: if_splits option.splits)
qed


text \<open>
  A cluster with server ids: servers 1 and 7, both active, and the name of a new file that
  server 7 has generated.
\<close>

definition id_server :: "int \<Rightarrow> FDFSStorageDetail" where
  "id_server n = (sample_server (''10.0.0.'' @ fmt_d n))\<lparr>st_id := fmt_d n\<rparr>"

definition id_groups :: FDFSGroups where
  "id_groups = sample_groups\<lparr>groups := [empty_group\<lparr>group_name := ''g1'', alloc_size := 4, all_servers := [id_server 7, id_server 1],
     sorted_servers := [1, 0], active_servers := [1, 0], pStoreServer := Some 1\<rparr>], sorted_groups := [0]\<rparr>"

definition id_upload :: "string \<times> upload_ctx \<times> store_state" where
  "id_upload = storage_gen_filename fc_impl Store_Path.sample_conf (ntohl 7) 0 100 5 ''123.txt'' 1700000000
     \<lparr>up_store_path_index = 0, up_sub_path_high = 1, up_sub_path_low = 2, if_sub_path_alloced = True\<rparr> sample_store"

lemma id_groups_wf: "groups_wf id_groups"
proof -
  have "by_id (groups id_groups ! 0) [1, 0]" by code_simp
  then have "by_id (empty_group\<lparr>group_name := ''g1'', alloc_size := 4, all_servers := [id_server 7, id_server 1],
     sorted_servers := [1, 0], active_servers := [1, 0], pStoreServer := Some 1\<rparr>) [1, 0]" by (simp add: id_groups_def)
  then show ?thesis
    by (auto simp: groups_wf_def groups_by_name_def group_wf_def group_core_def store_ok_def id_groups_def sample_groups_def
      empty_group_def id_server_def sample_server_def)
qed


text \<open>
  C38: a request for all servers that have a file overlooks its source when the cluster uses
  server ids: for a normal file that no active server is known to have synchronised, the answer
  is the server for uploads alone, although the source of the file is active. The code compares the
  addresses of the servers with the id, read as an address.
\<close>

theorem fetch_all_overlooks_source:
  assumes "groups_wf gs" "k < length (groups gs)" "group_name (groups gs ! k) = grp"
    and "p \<in> set (active_servers (groups gs ! k))" "st_id (server (groups gs ! k) p) = fmt_d n" "pStoreServer (groups gs ! k) = Some s"
    and "fc_ok (tc_fc c)" "storage_gen_filename (tc_fc c) sc (ntohl n) rnd file_size crc32 ext ts u st = (name, u', st')"
    and "length ext = 7" "length pre = 4" "up_sub_path_high u < 256" "up_sub_path_low u < 256"
    and "0 < n" "n \<le> FDFS_MAX_SERVER_ID" "in_i32 ts" "fo_normal (decode_origin (tc_fc c) (pre @ name))"
    and "\<forall>q \<in> set (active_servers (groups gs ! k)).
      \<not> has_synced c (store_server gs) now (decode_origin (tc_fc c) (pre @ name)) (server (groups gs ! k) q) \<and>
      FDFS_CURRENT_IP_ADDR (server (groups gs ! k) q) \<noteq> inet_ntop n"
  shows "tracker_mem_get_storage_by_filename c Query_fetch_all now grp (pre @ name) gs = (0, [s], gs)"
proof -
  let ?g = "groups gs ! k" and ?o = "decode_origin (tc_fc c) (pre @ name)"
  have o: "fo_ip ?o = n" using decode_origin_generated [OF assms(7-15)] by auto
  have "tracker_mem_get_group_ex gs grp = Some k" using get_group_exact [OF assms(1), of grp k] assms(2,3) by simp
  moreover have "active_servers ?g \<noteq> []" using assms(4) by auto
  moreover have "filter (\<lambda>q. has_synced c (store_server gs) now ?o (server ?g q) \<or> FDFS_CURRENT_IP_ADDR (server ?g q) = inet_ntop n) (active_servers ?g) = []"
    using assms(17) by (simp add: filter_empty_conv)
  ultimately show ?thesis
    using o assms(2,6,13,16) by (simp add: tracker_mem_get_storage_by_filename_def fetch_all_def Let_def)
qed

theorem fetch_all_overlooks_source_witness:
  "tracker_mem_get_storage_by_filename sample_conf Query_fetch_all 1700000001 ''g1'' (''M00/'' @ fst id_upload) id_groups = (0, [1], id_groups) \<and>
   source_server sample_conf (groups id_groups ! 0) (decode_origin fc_impl (''M00/'' @ fst id_upload)) = Some 0"
proof -
  have a: "0 < length (groups id_groups)" "group_name (groups id_groups ! 0) = ''g1''" "0 \<in> set (active_servers (groups id_groups ! 0))"
    "st_id (server (groups id_groups ! 0) 0) = fmt_d 7" "pStoreServer (groups id_groups ! 0) = Some 1"
    by (simp_all add: id_groups_def id_server_def sample_groups_def empty_group_def)
  have src: "source_server sample_conf (groups id_groups ! 0) (decode_origin fc_impl (''M00/'' @ fst id_upload)) = Some 0" by code_simp
  have norm: "fo_normal (decode_origin (tc_fc sample_conf) (''M00/'' @ fst id_upload))" by code_simp
  have "\<forall>q \<in> set (active_servers (groups id_groups ! 0)).
      \<not> has_synced sample_conf (store_server id_groups) 1700000001 (decode_origin (tc_fc sample_conf) (''M00/'' @ fst id_upload)) (server (groups id_groups ! 0) q) \<and>
      FDFS_CURRENT_IP_ADDR (server (groups id_groups ! 0) q) \<noteq> inet_ntop 7" by code_simp
  from fetch_all_overlooks_source [OF id_groups_wf a sample_binlog(1) _ _ _ _ _ _ _ _ norm this, of Store_Path.sample_conf 0 100 5 "''123.txt''" 1700000000
      "\<lparr>up_store_path_index = 0, up_sub_path_high = 1, up_sub_path_low = 2, if_sub_path_alloced = True\<rparr>" sample_store
      "fst (snd id_upload)" "snd (snd id_upload)"]
  show ?thesis using src by (simp add: id_upload_def sample_conf_def in_i32_def)
qed

end
