(* ===== verification/Tracker_Relationship.thy ===== *)
theory Tracker_Relationship
  imports Tracker_Mem
begin

text \<open>
  \<open>tracker/tracker_relationship.c\<close> with the handlers of \<open>tracker/tracker_service.c\<close> it
  talks to: the trackers elect a leader, follow it and ping it.

  A cluster is a list of trackers, each with its own global variables and its own list of
  all trackers. A request is sent by one tracker and handled by the one that listens at the
  address; connecting, sending and receiving can fail, also after the request was handled.
  The parameters that stand for code outside the repository (\<open>splitEx\<close>, the comparison
  of addresses, the size of an address field, the size of a task buffer) are collected in a
  record, together with the configuration of \<open>Tracker_Mem\<close>.

  Not modelled: log messages, writing the groups to disk after a ping, and freeing the old
  list of trackers. The list of trackers is fixed during an election.
\<close>

section \<open>A tracker\<close>

text \<open>
  The global variables of a tracker. \<open>g_tracker_servers.servers\<close> is \<open>NULL\<close> when the list
  is empty. \<open>fail_count\<close> and \<open>sleep_seconds\<close> are the local variables of the thread.
\<close>

record tracker_node =
  g_tracker_servers :: TrackerServerGroup
  g_next_leader_index :: int
  g_if_leader_self :: bool
  g_tracker_leader_chg_count :: int
  g_server_port :: int
  local_host_ips :: "string list"
  g_groups :: FDFSGroups
  g_trunk_server_chg_count :: int
  g_current_time :: int
  g_up_time :: int
  g_last_check_time :: int
  fail_count :: int
  sleep_seconds :: int

type_synonym cluster = "tracker_node list"

record relation_env =
  re_split :: split_fun
  re_eq :: conn_eq
  re_conf :: tracker_conf
  re_ip_size :: nat
  re_task_size :: nat

abbreviation re_fc :: "relation_env \<Rightarrow> fc_api" where
  "re_fc e \<equiv> tc_fc (re_conf e)"

abbreviation servers_of :: "tracker_node \<Rightarrow> TrackerServerInfo list" where
  "servers_of n \<equiv> servers (g_tracker_servers n)"

abbreviation leader_of :: "tracker_node \<Rightarrow> int" where
  "leader_of n \<equiv> leader_index (g_tracker_servers n)"

definition set_leader :: "int \<Rightarrow> tracker_node \<Rightarrow> tracker_node" where
  "set_leader i n = n\<lparr>g_tracker_servers := (g_tracker_servers n)\<lparr>leader_index := i\<rparr>\<rparr>"

definition set_server :: "nat \<Rightarrow> TrackerServerInfo \<Rightarrow> tracker_node \<Rightarrow> tracker_node" where
  "set_server k s n = n\<lparr>g_tracker_servers := (g_tracker_servers n)\<lparr>servers := (servers_of n)[k := s]\<rparr>\<rparr>"

definition on_node :: "nat \<Rightarrow> (tracker_node \<Rightarrow> tracker_node) \<Rightarrow> cluster \<Rightarrow> cluster" where
  "on_node i f cl = cl[i := f (cl ! i)]"

text \<open>\<open>is_local_host_ip\<close> together with the port of the service.\<close>

definition listens :: "tracker_node \<Rightarrow> string \<Rightarrow> int \<Rightarrow> bool" where
  "listens n ip port \<longleftrightarrow> port = g_server_port n \<and> ip \<in> set (local_host_ips n)"

definition listener :: "cluster \<Rightarrow> ConnectionInfo \<Rightarrow> nat option" where
  "listener cl conn = find (\<lambda>i. listens (cl ! i) (ip_addr conn) (conn_port conn)) [0..<length cl]"

section \<open>Times\<close>

definition FDFS_TRIM_TIME :: "int \<Rightarrow> int \<Rightarrow> int" where
  "FDFS_TRIM_TIME t i = (t sdiv i) * i"

abbreviation (input) TRACKER_SYNC_STATUS_FILE_INTERVAL :: int where
  "TRACKER_SYNC_STATUS_FILE_INTERVAL \<equiv> 300"

record TrackerRunningStatus =
  status_server :: nat
  running_time :: int
  restart_interval :: int
  if_leader :: bool

definition tracker_calc_running_times :: "tracker_node \<Rightarrow> int \<times> int" where
  "tracker_calc_running_times n =
     (let running = g_current_time n - g_up_time n;
          restart = (if g_last_check_time n = 0 then 0 else g_up_time n - g_last_check_time n)
      in (FDFS_TRIM_TIME running TRACKER_SYNC_STATUS_FILE_INTERVAL,
          FDFS_TRIM_TIME restart TRACKER_SYNC_STATUS_FILE_INTERVAL))"

section \<open>Handlers\<close>

text \<open>The text of a request is the part of the body before its first NUL byte.\<close>

definition c_str :: "string \<Rightarrow> string" where
  "c_str body = takeWhile (\<lambda>c. c \<noteq> CHR 0x00) body"

definition parse_leader :: "relation_env \<Rightarrow> string \<Rightarrow> (string \<times> int) option" where
  "parse_leader e body =
     (if length body \<noteq> re_ip_size e + 6 then None
      else (case re_split e (c_str body) (CHR '':'') 2 of
              [ip, port] \<Rightarrow> Some (ip, atoi port) | _ \<Rightarrow> None))"

definition tracker_deal_notify_next_leader :: "relation_env \<Rightarrow> string \<Rightarrow> tracker_node \<Rightarrow> int \<times> tracker_node" where
  "tracker_deal_notify_next_leader e body n =
     (case parse_leader e body of
        None \<Rightarrow> (EINVAL, n)
      | Some (ip, port) \<Rightarrow>
          let idx = fdfs_get_tracker_leader_index_ex (re_eq e) (g_tracker_servers n) ip port in
          if idx < 0 then (ENOENT, n)
          else if g_if_leader_self n \<and> \<not> listens n ip port
          then (EINVAL, set_leader (-1) (n\<lparr>g_if_leader_self := False,
                  g_tracker_leader_chg_count := g_tracker_leader_chg_count n + 1\<rparr>))
          else (0, n\<lparr>g_next_leader_index := idx\<rparr>))"

definition relationship_set_tracker_leader :: "int \<Rightarrow> bool \<Rightarrow> tracker_node \<Rightarrow> tracker_node" where
  "relationship_set_tracker_leader idx leader_self n =
     (let n1 = (set_leader idx n)\<lparr>g_next_leader_index := -1\<rparr> in
      if leader_self
      then n1\<lparr>g_if_leader_self := True, g_tracker_leader_chg_count := g_tracker_leader_chg_count n1 + 1\<rparr>
      else n1)"

definition tracker_deal_commit_next_leader :: "relation_env \<Rightarrow> string \<Rightarrow> tracker_node \<Rightarrow> int \<times> tracker_node" where
  "tracker_deal_commit_next_leader e body n =
     (case parse_leader e body of
        None \<Rightarrow> (EINVAL, n)
      | Some (ip, port) \<Rightarrow>
          let idx = fdfs_get_tracker_leader_index_ex (re_eq e) (g_tracker_servers n) ip port in
          if idx < 0 then (ENOENT, n)
          else if idx \<noteq> g_next_leader_index n then (EINVAL, n)
          else (0, relationship_set_tracker_leader idx (listens n ip port) n))"

definition tracker_deal_reselect_leader :: "string \<Rightarrow> tracker_node \<Rightarrow> int \<times> tracker_node" where
  "tracker_deal_reselect_leader body n =
     (if body \<noteq> [] then (EINVAL, n)
      else if \<not> g_if_leader_self n then (EOPNOTSUPP, n)
      else (0, set_leader (-1) (n\<lparr>g_if_leader_self := False,
              g_tracker_leader_chg_count := g_tracker_leader_chg_count n + 1\<rparr>)))"

definition tracker_deal_get_tracker_status :: "fc_api \<Rightarrow> string \<Rightarrow> tracker_node \<Rightarrow> int \<times> bytes" where
  "tracker_deal_get_tracker_status F body n =
     (if body \<noteq> [] then (EINVAL, [])
      else if groups (g_groups n) = [] then (ENOENT, [])
      else
        let (running, restart) = tracker_calc_running_times n
        in (0, (if g_if_leader_self n then 1 else 0) # long2buff F running @ long2buff F restart))"

text \<open>A text field of \<open>k\<close> bytes, padded with NUL bytes, and the text of such a field.\<close>

definition text_field :: "nat \<Rightarrow> string \<Rightarrow> bytes" where
  "text_field k s = take k (map of_char s @ replicate k 0)"

definition field_text :: "bytes \<Rightarrow> string" where
  "field_text bs = map char_of (takeWhile (\<lambda>b. b \<noteq> 0) bs)"

abbreviation (input) FDFS_GROUP_NAME_MAX_LEN :: nat where "FDFS_GROUP_NAME_MAX_LEN \<equiv> 16"
abbreviation (input) FDFS_STORAGE_ID_MAX_SIZE :: nat where "FDFS_STORAGE_ID_MAX_SIZE \<equiv> 16"

text \<open>
  \<open>chg\<close> is \<open>pClientInfo->chg_count.trunk_server\<close>; the header of a package has 10 bytes.
\<close>

definition tracker_deal_ping_leader :: "relation_env \<Rightarrow> string \<Rightarrow> int \<Rightarrow> tracker_node \<Rightarrow> int \<times> bytes \<times> int" where
  "tracker_deal_ping_leader e body chg n =
     (if body \<noteq> [] then (EINVAL, [], chg)
      else if \<not> g_if_leader_self n then (EOPNOTSUPP, [], chg)
      else if chg = g_trunk_server_chg_count n then (0, [], chg)
      else if (FDFS_GROUP_NAME_MAX_LEN + FDFS_STORAGE_ID_MAX_SIZE) * length (groups (g_groups n)) + 10 > re_task_size e
      then (ENOSPC, [], chg)
      else (0, concat (map (\<lambda>g. text_field FDFS_GROUP_NAME_MAX_LEN (group_name g) @
                 text_field FDFS_STORAGE_ID_MAX_SIZE (case pTrunkServer g of Some p \<Rightarrow> st_id (server g p) | None \<Rightarrow> []))
                 (groups (g_groups n))),
            g_trunk_server_chg_count n))"

section \<open>Requests to another tracker\<close>

definition node_dial :: "cluster \<Rightarrow> dial_fun" where
  "node_dial cl conn tp =
     (case ext_call ETIMEDOUT tp of
        (r, tp1) \<Rightarrow> if r \<noteq> 0 then (r, tp1) else if listener cl conn = None then (ECONNREFUSED, tp1) else (0, tp1))"

text \<open>
  \<open>tracker_connect_server\<close> to the entry \<open>k\<close> of the list of tracker \<open>me\<close>: the error
  number and the tracker that answered. \<open>reset\<close> says that the caller forgets the sockets first.
\<close>

definition connect_tracker :: "nat \<Rightarrow> nat \<Rightarrow> bool \<Rightarrow> cluster \<Rightarrow> ext_tape \<Rightarrow> int \<times> nat option \<times> cluster \<times> ext_tape" where
  "connect_tracker me k reset cl tp =
     (let s = servers_of (cl ! me) ! k; s0 = (if reset then fdfs_server_sock_reset s else s) in
      case tracker_connect_server_ex (node_dial cl) s0 tp of
        (err, conn, s1, tp1) \<Rightarrow>
          (err, (case conn of None \<Rightarrow> None | Some c \<Rightarrow> listener cl c), on_node me (set_server k s1) cl, tp1))"

definition no_body :: "int \<Rightarrow> TrackerHeader" where
  "no_body status = \<lparr>hdr_pkg_len = 0, hdr_status = status\<rparr>"

definition leader_body :: "relation_env \<Rightarrow> ConnectionInfo \<Rightarrow> string" where
  "leader_body e pLeader =
     (let t = ip_addr pLeader @ CHR '':'' # fmt_d (conn_port pLeader)
      in t @ replicate (re_ip_size e + 6 - length t) (CHR 0x00))"

text \<open>
  The result is the error number, \<open>bConnectFail\<close> and the cluster. The handler runs at the
  tracker that was reached, also when receiving its response fails.
\<close>

definition do_notify_leader_changed ::
    "relation_env \<Rightarrow> (string \<Rightarrow> tracker_node \<Rightarrow> int \<times> tracker_node) \<Rightarrow> nat \<Rightarrow> nat \<Rightarrow> ConnectionInfo \<Rightarrow> cluster \<Rightarrow> ext_tape \<Rightarrow>
     int \<times> bool \<times> cluster \<times> ext_tape" where
  "do_notify_leader_changed e handler me k pLeader cl tp =
     (case connect_tracker me k True cl tp of
        (result, None, cl1, tp1) \<Rightarrow> (result, True, cl1, tp1)
      | (_, Some peer, cl1, tp1) \<Rightarrow>
          (case ext_call EIO tp1 of
             (result, tp2) \<Rightarrow>
               if result \<noteq> 0 then (if result = ENOENT then EACCES else result, False, cl1, tp2)
               else
                 (case handler (leader_body e pLeader) (cl1 ! peer) of
                    (status, n') \<Rightarrow>
                      (case fdfs_recv_response (Some 0) (no_body status) [] tp2 of
                         (result, in_bytes, _, tp3) \<Rightarrow>
                           (if result \<noteq> 0 then result else if in_bytes \<noteq> 0 then EINVAL else 0,
                            False, cl1[peer := n'], tp3)))))"

text \<open>
  \<open>j\<close> is the entry of \<open>pTrackerStatus->pTrackerServer\<close> in the list of tracker \<open>me\<close>, \<open>b\<close> the value
  of \<open>bConnectFail\<close> before the call.
\<close>

definition relationship_notify_next_leader ::
    "relation_env \<Rightarrow> nat \<Rightarrow> nat \<Rightarrow> nat \<Rightarrow> bool \<Rightarrow> cluster \<Rightarrow> ext_tape \<Rightarrow> int \<times> bool \<times> cluster \<times> ext_tape" where
  "relationship_notify_next_leader e me j k b cl tp =
     (if j = k then (0, b, on_node me (\<lambda>n. n\<lparr>g_next_leader_index := int k\<rparr>) cl, tp)
      else do_notify_leader_changed e (tracker_deal_notify_next_leader e) me k
             (connections (servers_of (cl ! me) ! j) ! 0) cl tp)"

definition relationship_commit_next_leader ::
    "relation_env \<Rightarrow> nat \<Rightarrow> nat \<Rightarrow> nat \<Rightarrow> bool \<Rightarrow> cluster \<Rightarrow> ext_tape \<Rightarrow> int \<times> bool \<times> cluster \<times> ext_tape" where
  "relationship_commit_next_leader e me j k b cl tp =
     (if j = k then
        (if g_next_leader_index (cl ! me) \<noteq> int k
         then (EBUSY, b, on_node me (\<lambda>n. n\<lparr>g_next_leader_index := -1\<rparr>) cl, tp)
         else (0, b, on_node me (\<lambda>n. relationship_set_tracker_leader (g_next_leader_index n) True n) cl, tp))
      else do_notify_leader_changed e (tracker_deal_commit_next_leader e) me k
             (connections (servers_of (cl ! me) ! j) ! 0) cl tp)"

text \<open>
  The loop over the list of trackers, the same for both phases: \<open>call k\<close> is the call for
  entry \<open>k\<close>; an error ends the loop unless the connection failed. The result is \<open>Inl\<close> of the error
  number at once, or \<open>Inr\<close> of the last result and the number of successes.
\<close>

fun notify_loop ::
    "(nat \<Rightarrow> bool \<Rightarrow> cluster \<Rightarrow> ext_tape \<Rightarrow> int \<times> bool \<times> cluster \<times> ext_tape) \<Rightarrow> nat list \<Rightarrow> int \<Rightarrow> nat \<Rightarrow> bool \<Rightarrow> cluster \<Rightarrow> ext_tape \<Rightarrow>
     (int + int \<times> nat) \<times> bool \<times> cluster \<times> ext_tape" where
  "notify_loop call [] result success_count b cl tp = (Inr (result, success_count), b, cl, tp)"
| "notify_loop call (k # ks) result success_count b cl tp =
     (case call k b cl tp of
        (r, b', cl', tp') \<Rightarrow>
          if r \<noteq> 0 then
            (if \<not> b' then (Inl r, b', cl', tp') else notify_loop call ks r success_count b' cl' tp')
          else notify_loop call ks r (Suc success_count) b' cl' tp')"

definition relationship_notify_leader_changed ::
    "relation_env \<Rightarrow> nat \<Rightarrow> nat \<Rightarrow> bool \<Rightarrow> cluster \<Rightarrow> ext_tape \<Rightarrow> int \<times> cluster \<times> ext_tape" where
  "relationship_notify_leader_changed e me j b cl tp =
     (let ks = [0..<length (servers_of (cl ! me))] in
      case notify_loop (relationship_notify_next_leader e me j) ks ENOENT 0 b cl tp of
        (Inl r, _, cl1, tp1) \<Rightarrow> (r, cl1, tp1)
      | (Inr (r, success_count), b1, cl1, tp1) \<Rightarrow>
          if success_count = 0 then (r, cl1, tp1)
          else
            (case notify_loop (relationship_commit_next_leader e me j) ks ENOENT 0 b1 cl1 tp1 of
               (Inl r, _, cl2, tp2) \<Rightarrow> (r, cl2, tp2)
             | (Inr (r, success_count), _, cl2, tp2) \<Rightarrow> (if success_count = 0 then r else 0, cl2, tp2)))"

section \<open>Choosing the candidate\<close>

definition fdfs_get_tracker_status ::
    "relation_env \<Rightarrow> nat \<Rightarrow> nat \<Rightarrow> cluster \<Rightarrow> ext_tape \<Rightarrow> (int + TrackerRunningStatus) \<times> cluster \<times> ext_tape" where
  "fdfs_get_tracker_status e me k cl tp =
     (case connect_tracker me k True cl tp of
        (result, None, cl1, tp1) \<Rightarrow> (Inl result, cl1, tp1)
      | (_, Some peer, cl1, tp1) \<Rightarrow>
          (case ext_call EIO tp1 of
             (result, tp2) \<Rightarrow>
               if result \<noteq> 0 then (Inl (if result = ENOENT then EACCES else result), cl1, tp2)
               else
                 (case tracker_deal_get_tracker_status (re_fc e) [] (cl1 ! peer) of
                    (status, body) \<Rightarrow>
                      (case fdfs_recv_response (Some 17) \<lparr>hdr_pkg_len = int (length body), hdr_status = status\<rparr> body tp2 of
                         (result, in_bytes, in_buff, tp3) \<Rightarrow>
                           if result \<noteq> 0 then (Inl result, cl1, tp3)
                           else if in_bytes \<noteq> 17 then (Inl EINVAL, cl1, tp3)
                           else (Inr \<lparr>status_server = k,
                                  running_time = c_int (buff2long (re_fc e) (take 8 (drop 1 in_buff))),
                                  restart_interval = c_int (buff2long (re_fc e) (take 8 (drop 9 in_buff))),
                                  if_leader = (hd in_buff \<noteq> 0)\<rparr>, cl1, tp3)))))"

definition relationship_get_tracker_status ::
    "relation_env \<Rightarrow> nat \<Rightarrow> nat \<Rightarrow> cluster \<Rightarrow> ext_tape \<Rightarrow> (int + TrackerRunningStatus) \<times> cluster \<times> ext_tape" where
  "relationship_get_tracker_status e me k cl tp =
     (let n = cl ! me in
      if fdfs_server_contain_local_service (re_eq e) (local_host_ips n) (servers_of n ! k) (g_server_port n)
      then (case tracker_calc_running_times n of
              (running, restart) \<Rightarrow>
                (Inr \<lparr>status_server = k, running_time = running, restart_interval = restart, if_leader = g_if_leader_self n\<rparr>, cl, tp))
      else fdfs_get_tracker_status e me k cl tp)"

text \<open>The comparison is in \<open>int\<close>; \<open>srvs\<close> is the list the entries point into.\<close>

definition relationship_cmp_tracker_status ::
    "TrackerServerInfo list \<Rightarrow> TrackerRunningStatus \<Rightarrow> TrackerRunningStatus \<Rightarrow> int" where
  "relationship_cmp_tracker_status srvs p1 p2 =
     (let sub = of_bool (if_leader p1) - of_bool (if_leader p2) in
      if sub \<noteq> 0 then sub
      else
        let sub = c_int (running_time p1 - running_time p2) in
        if sub \<noteq> 0 then sub
        else
          let sub = c_int (restart_interval p2 - restart_interval p1) in
          if sub \<noteq> 0 then sub
          else
            let conn1 = connections (srvs ! status_server p1) ! 0; conn2 = connections (srvs ! status_server p2) ! 0;
                sub = strcmp (ip_addr conn1) (ip_addr conn2)
            in if sub \<noteq> 0 then sub else c_int (conn_port conn1 - conn_port conn2))"

fun status_loop ::
    "relation_env \<Rightarrow> nat \<Rightarrow> nat list \<Rightarrow> int \<Rightarrow> TrackerRunningStatus list \<Rightarrow> cluster \<Rightarrow> ext_tape \<Rightarrow>
     int \<times> TrackerRunningStatus list \<times> cluster \<times> ext_tape" where
  "status_loop e me [] result sts cl tp = (result, sts, cl, tp)"
| "status_loop e me (k # ks) result sts cl tp =
     (case relationship_get_tracker_status e me k cl tp of
        (Inr st, cl1, tp1) \<Rightarrow> status_loop e me ks result (sts @ [st]) cl1 tp1
      | (Inl r, cl1, tp1) \<Rightarrow> status_loop e me ks (if r \<noteq> ENOENT then r else result) sts cl1 tp1)"

definition relationship_get_tracker_leader ::
    "relation_env \<Rightarrow> nat \<Rightarrow> cluster \<Rightarrow> ext_tape \<Rightarrow> (int + TrackerRunningStatus) \<times> cluster \<times> ext_tape" where
  "relationship_get_tracker_leader e me cl tp =
     (case status_loop e me [0..<length (servers_of (cl ! me))] 0 [] cl tp of
        (result, sts, cl1, tp1) \<Rightarrow>
          if sts = [] then (Inl (if result = 0 then ENOENT else result), cl1, tp1)
          else (Inr (last (qsort_by (relationship_cmp_tracker_status (servers_of (cl1 ! me))) sts)), cl1, tp1))"

section \<open>The thread\<close>

text \<open>The call of \<open>tracker_mem_find_trunk_servers\<close> by tracker \<open>n\<close>.\<close>

definition find_trunk_servers :: "relation_env \<Rightarrow> tracker_node \<Rightarrow> ext_tape \<Rightarrow> tracker_node \<times> ext_tape" where
  "find_trunk_servers e n tp =
     (case tracker_mem_find_trunk_servers (re_conf e) (g_if_leader_self n) (g_groups n) (g_trunk_server_chg_count n) tp of
        (gs, cnt, tp1) \<Rightarrow> (n\<lparr>g_groups := gs, g_trunk_server_chg_count := cnt\<rparr>, tp1))"

definition relationship_select_leader ::
    "relation_env \<Rightarrow> nat \<Rightarrow> bool \<Rightarrow> cluster \<Rightarrow> ext_tape \<Rightarrow> int \<times> cluster \<times> ext_tape" where
  "relationship_select_leader e me b cl tp =
     (if servers_of (cl ! me) = [] then (0, cl, tp)
      else
        (case relationship_get_tracker_leader e me cl tp of
           (Inl result, cl1, tp1) \<Rightarrow> (result, cl1, tp1)
         | (Inr st, cl1, tp1) \<Rightarrow>
             let n = cl1 ! me; j = status_server st in
             if fdfs_server_contain_local_service (re_eq e) (local_host_ips n) (servers_of n ! j) (g_server_port n)
             then
               (case relationship_notify_leader_changed e me j b cl1 tp1 of
                  (result, cl2, tp2) \<Rightarrow>
                    if result \<noteq> 0 then (result, cl2, tp2)
                    else
                      (case find_trunk_servers e (cl2 ! me) tp2 of (n2, tp3) \<Rightarrow> (0, cl2[me := n2], tp3)))
             else
               let cl2 = (if if_leader st then on_node me (set_leader (int j)) cl1 else cl1) in
               if if_leader st \<and> (leader_of (cl2 ! me) < 0 \<or> leader_of (cl2 ! me) \<ge> int (length (servers_of n)))
               then (EINVAL, on_node me (set_leader (-1)) cl2, tp1)
               else if leader_of (cl2 ! me) \<ge> 0 then (0, cl2, tp1)
               else (ENOENT, cl2, tp1)))"

text \<open>The body of a ping response, one entry per group; an unknown group is left out.\<close>

definition ping_group :: "string \<Rightarrow> FDFSGroupInfo \<Rightarrow> FDFSGroupInfo" where
  "ping_group trunk_server_id g =
     (if trunk_server_id = [] then g\<lparr>last_trunk_server_id := [], pTrunkServer := None\<rparr>
      else g\<lparr>pTrunkServer := tracker_mem_get_storage g trunk_server_id, last_trunk_server_id := trunk_server_id\<rparr>)"

definition ping_entry :: "bytes \<Rightarrow> FDFSGroups \<Rightarrow> FDFSGroups" where
  "ping_entry p gs =
     (let name = field_text (take FDFS_GROUP_NAME_MAX_LEN p);
          trunk_server_id = field_text (take (FDFS_STORAGE_ID_MAX_SIZE - 1) (drop FDFS_GROUP_NAME_MAX_LEN p))
      in case tracker_mem_get_group_ex gs name of
           None \<Rightarrow> gs
         | Some k \<Rightarrow> gs\<lparr>groups := (groups gs)[k := ping_group trunk_server_id (groups gs ! k)]\<rparr>)"

function ping_loop :: "bytes \<Rightarrow> FDFSGroups \<Rightarrow> FDFSGroups" where
  "ping_loop p gs =
     (if p = [] then gs
      else ping_loop (drop (FDFS_GROUP_NAME_MAX_LEN + FDFS_STORAGE_ID_MAX_SIZE) p) (ping_entry p gs))"
  by pat_completeness auto
termination
  by (relation "measure (\<lambda>(p, gs). length p)") auto

declare ping_loop.simps [simp del]

definition fdfs_ping_leader :: "TrackerHeader \<Rightarrow> bytes \<Rightarrow> FDFSGroups \<Rightarrow> ext_tape \<Rightarrow> int \<times> FDFSGroups \<times> ext_tape" where
  "fdfs_ping_leader resp body gs tp =
     (case ext_call EIO tp of
        (result, tp1) \<Rightarrow>
          if result \<noteq> 0 then (result, gs, tp1)
          else
            (case fdfs_recv_response (Some ((FDFS_GROUP_NAME_MAX_LEN + FDFS_STORAGE_ID_MAX_SIZE) * 512)) resp body tp1 of
               (result, in_bytes, in_buff, tp2) \<Rightarrow>
                 if result \<noteq> 0 then (result, gs, tp2)
                 else if in_bytes = 0 then (0, gs, tp2)
                 else if in_bytes mod int (FDFS_GROUP_NAME_MAX_LEN + FDFS_STORAGE_ID_MAX_SIZE) \<noteq> 0 then (EINVAL, gs, tp2)
                 else (0, ping_loop in_buff gs, tp2)))"

text \<open>\<open>chg\<close> is the change count that the leader keeps for the connection.\<close>

definition relationship_ping_leader :: "relation_env \<Rightarrow> nat \<Rightarrow> int \<Rightarrow> cluster \<Rightarrow> ext_tape \<Rightarrow> int \<times> cluster \<times> ext_tape" where
  "relationship_ping_leader e me chg cl tp =
     (if g_if_leader_self (cl ! me) then (0, cl, tp)
      else
        let leader = leader_of (cl ! me) in
        if leader < 0 then (EINVAL, cl, tp)
        else
          (case connect_tracker me (nat leader) False cl tp of
             (result, None, cl1, tp1) \<Rightarrow> (result, cl1, tp1)
           | (_, Some peer, cl1, tp1) \<Rightarrow>
               (case tracker_deal_ping_leader e [] chg (cl1 ! peer) of
                  (status, body, _) \<Rightarrow>
                    (case fdfs_ping_leader \<lparr>hdr_pkg_len = int (length body), hdr_status = status\<rparr> body (g_groups (cl1 ! me)) tp1 of
                       (result, gs, tp2) \<Rightarrow> (result, on_node me (\<lambda>n. n\<lparr>g_groups := gs\<rparr>) cl1, tp2)))))"

text \<open>
  One round of the loop of \<open>relationship_thread_entrance\<close>. \<open>rnd\<close> is the value of
  \<open>rand()\<close>, \<open>b\<close> the value of the variable \<open>bConnectFail\<close> before it is assigned.
\<close>

definition relationship_thread_round ::
    "relation_env \<Rightarrow> nat \<Rightarrow> int \<Rightarrow> bool \<Rightarrow> int \<Rightarrow> cluster \<Rightarrow> ext_tape \<Rightarrow> cluster \<times> ext_tape" where
  "relationship_thread_round e me rnd b chg cl tp =
     (if servers_of (cl ! me) = [] then (cl, tp)
      else if leader_of (cl ! me) < 0 then
        (case relationship_select_leader e me b cl tp of
           (result, cl1, tp1) \<Rightarrow>
             (on_node me (\<lambda>n. n\<lparr>sleep_seconds := (if result \<noteq> 0 then 1 + rnd * 10 div 2147483647 else 1)\<rparr>) cl1, tp1))
      else
        (case relationship_ping_leader e me chg cl tp of
           (result, cl1, tp1) \<Rightarrow>
             if result = 0 then (on_node me (\<lambda>n. n\<lparr>fail_count := 0, sleep_seconds := 1\<rparr>) cl1, tp1)
             else if fail_count (cl1 ! me) + 1 \<ge> 3
             then (on_node me (\<lambda>n. set_leader (-1) (n\<lparr>fail_count := 0, sleep_seconds := 1\<rparr>)) cl1, tp1)
             else (on_node me (\<lambda>n. n\<lparr>fail_count := fail_count n + 1, sleep_seconds := sleep_seconds n * 2\<rparr>) cl1, tp1)))"

end
