(* ===== verification/Election_Spec.thy ===== *)
theory Election_Spec
  imports Fdfs_Prelude
begin

text \<open>
  The election of a leader as an abstract protocol in two phases, independent of messages
  and of the way a tracker keeps its list. There are \<open>n\<close> trackers; tracker \<open>i\<close> contacts
  tracker \<open>p\<close> as number \<open>pos i p\<close>, in each phase. Every tracker remembers the next leader
  it was told of, and only the last one. A tracker that wants to lead tells all trackers
  (itself included), then asks them to commit; it leads from the moment at which it commits
  itself. A tracker that leads and is told of another next leader stops leading and refuses.

  Shown here: in whatever order the steps of the trackers are interleaved, and whatever
  responses are lost, there is never more than one leader.
\<close>

section \<open>The protocol\<close>

text \<open>
  Where a tracker is in its round: it has told (or asked to commit) the trackers with
  numbers below \<open>k\<close>.
\<close>

datatype election_pc = EIdle | ENotify nat | ECommit nat

record election =
  e_lead :: "nat \<Rightarrow> bool"
  e_next :: "nat \<Rightarrow> nat option"
  e_pc :: "nat \<Rightarrow> election_pc"

definition at_pc :: "nat \<Rightarrow> election_pc \<Rightarrow> election \<Rightarrow> election" where
  "at_pc i c s = s\<lparr>e_pc := (e_pc s)(i := c)\<rparr>"

definition told :: "nat \<Rightarrow> nat option \<Rightarrow> election \<Rightarrow> election" where
  "told i p s = s\<lparr>e_next := (e_next s)(i := p)\<rparr>"

definition leads :: "nat \<Rightarrow> bool \<Rightarrow> election \<Rightarrow> election" where
  "leads i b s = s\<lparr>e_lead := (e_lead s)(i := b)\<rparr>"

lemma election_upd_simps [simp]:
  "e_lead (at_pc i c s) = e_lead s" "e_next (at_pc i c s) = e_next s" "e_pc (at_pc i c s) = (e_pc s)(i := c)"
  "e_lead (told i p s) = e_lead s" "e_next (told i p s) = (e_next s)(i := p)" "e_pc (told i p s) = e_pc s"
  "e_lead (leads i b s) = (e_lead s)(i := b)" "e_next (leads i b s) = e_next s" "e_pc (leads i b s) = e_pc s"
  by (simp_all add: at_pc_def told_def leads_def)

inductive election_step :: "nat \<Rightarrow> (nat \<Rightarrow> nat \<Rightarrow> nat) \<Rightarrow> election \<Rightarrow> election \<Rightarrow> bool" for n pos where
  start: "i < n \<Longrightarrow> e_pc s i = EIdle \<Longrightarrow> election_step n pos s (at_pc i (ENotify 0) s)"
| abort: "i < n \<Longrightarrow> election_step n pos s (at_pc i EIdle s)"
| notify_self: "i < n \<Longrightarrow> e_pc s i = ENotify (pos i i) \<Longrightarrow>
    election_step n pos s (told i (Some i) (at_pc i (ENotify (Suc (pos i i))) s))"
| notify: "i < n \<Longrightarrow> p < n \<Longrightarrow> p \<noteq> i \<Longrightarrow> e_pc s i = ENotify (pos i p) \<Longrightarrow> \<not> e_lead s p \<Longrightarrow>
    election_step n pos s (told p (Some i) (at_pc i (ENotify (Suc (pos i p))) s))"
| notify_lost: "i < n \<Longrightarrow> p < n \<Longrightarrow> p \<noteq> i \<Longrightarrow> e_pc s i = ENotify (pos i p) \<Longrightarrow> \<not> e_lead s p \<Longrightarrow>
    election_step n pos s (told p (Some i) (at_pc i EIdle s))"
| notify_refused: "i < n \<Longrightarrow> p < n \<Longrightarrow> p \<noteq> i \<Longrightarrow> e_pc s i = ENotify (pos i p) \<Longrightarrow> e_lead s p \<Longrightarrow>
    election_step n pos s (leads p False (at_pc i EIdle s))"
| turn: "i < n \<Longrightarrow> e_pc s i = ENotify n \<Longrightarrow> election_step n pos s (at_pc i (ECommit 0) s)"
| commit_self: "i < n \<Longrightarrow> e_pc s i = ECommit (pos i i) \<Longrightarrow> e_next s i = Some i \<Longrightarrow>
    election_step n pos s (leads i True (told i None (at_pc i (ECommit (Suc (pos i i))) s)))"
| commit_busy: "i < n \<Longrightarrow> e_pc s i = ECommit (pos i i) \<Longrightarrow> e_next s i \<noteq> Some i \<Longrightarrow> c \<in> {EIdle, ECommit (Suc (pos i i))} \<Longrightarrow>
    election_step n pos s (told i None (at_pc i c s))"
| commit: "i < n \<Longrightarrow> p < n \<Longrightarrow> p \<noteq> i \<Longrightarrow> e_pc s i = ECommit (pos i p) \<Longrightarrow> e_next s p = Some i \<Longrightarrow>
    c \<in> {EIdle, ECommit (Suc (pos i p))} \<Longrightarrow> election_step n pos s (told p None (at_pc i c s))"
| step_down: "i < n \<Longrightarrow> election_step n pos s (leads i False s)"

definition election_init :: "election \<Rightarrow> bool" where
  "election_init s \<longleftrightarrow> (\<forall>i. e_pc s i = EIdle) \<and> (\<forall>i. \<not> e_lead s i)"

section \<open>At most one leader\<close>

text \<open>The trackers that \<open>i\<close> has told, and has asked to commit, in its current round.\<close>

definition notified :: "(nat \<Rightarrow> nat \<Rightarrow> nat) \<Rightarrow> election \<Rightarrow> nat \<Rightarrow> nat \<Rightarrow> bool" where
  "notified pos s i p = (case e_pc s i of EIdle \<Rightarrow> False | ENotify k \<Rightarrow> pos i p < k | ECommit _ \<Rightarrow> True)"

definition committed_to :: "(nat \<Rightarrow> nat \<Rightarrow> nat) \<Rightarrow> election \<Rightarrow> nat \<Rightarrow> nat \<Rightarrow> bool" where
  "committed_to pos s i p = (case e_pc s i of ECommit k \<Rightarrow> pos i p < k | _ \<Rightarrow> False)"

text \<open>
  Tracker \<open>i\<close> is ahead of \<open>p\<close>: it is still its own next leader, and it either has the commit
  of \<open>p\<close>, or told \<open>p\<close> after itself. Two trackers are never ahead of each other, and no
  tracker is ahead of a leader.
\<close>

definition ahead :: "(nat \<Rightarrow> nat \<Rightarrow> nat) \<Rightarrow> election \<Rightarrow> nat \<Rightarrow> nat \<Rightarrow> bool" where
  "ahead pos s i p \<longleftrightarrow>
     e_next s i = Some i \<and> (committed_to pos s i p \<or> notified pos s i p \<and> pos i i < pos i p)"

definition election_inv :: "nat \<Rightarrow> (nat \<Rightarrow> nat \<Rightarrow> nat) \<Rightarrow> election \<Rightarrow> bool" where
  "election_inv n pos s \<longleftrightarrow>
     (\<forall>i < n. e_lead s i \<longrightarrow> e_next s i = None \<or> e_next s i = Some i) \<and>
     (\<forall>i < n. \<forall>p < n. i \<noteq> p \<longrightarrow> ahead pos s i p \<longrightarrow> \<not> ahead pos s p i \<and> \<not> e_lead s p) \<and>
     (\<forall>i < n. \<forall>p < n. e_lead s i \<longrightarrow> e_lead s p \<longrightarrow> i = p)"

definition pos_ok :: "nat \<Rightarrow> (nat \<Rightarrow> nat \<Rightarrow> nat) \<Rightarrow> bool" where
  "pos_ok n pos \<longleftrightarrow> (\<forall>i < n. bij_betw (pos i) {..<n} {..<n})"

lemma pos_ok_less: "pos_ok n pos \<Longrightarrow> i < n \<Longrightarrow> p < n \<Longrightarrow> pos i p < n"
  unfolding pos_ok_def bij_betw_def by blast

lemma pos_ok_inj: "pos_ok n pos \<Longrightarrow> i < n \<Longrightarrow> p < n \<Longrightarrow> q < n \<Longrightarrow> pos i p = pos i q \<longleftrightarrow> p = q"
  unfolding pos_ok_def bij_betw_def by (metis inj_on_eq_iff lessThan_iff)

lemma pos_ok_surj: "pos_ok n pos \<Longrightarrow> i < n \<Longrightarrow> k < n \<Longrightarrow> \<exists>p < n. pos i p = k"
  unfolding pos_ok_def bij_betw_def by (metis imageE lessThan_iff)

lemma pos_less_Suc:
  "pos_ok n pos \<Longrightarrow> i < n \<Longrightarrow> p < n \<Longrightarrow> q < n \<Longrightarrow> pos i q < Suc (pos i p) \<longleftrightarrow> pos i q < pos i p \<or> q = p"
  using pos_ok_inj by (metis less_Suc_eq)

lemmas ahead_defs = ahead_def notified_def committed_to_def

lemma ahead_idle: "e_pc s i = EIdle \<Longrightarrow> \<not> ahead pos s i p"
  by (simp add: ahead_defs)

lemma ahead_cong:
  "e_pc s' i = e_pc s i \<Longrightarrow> e_next s' i = e_next s i \<Longrightarrow> ahead pos s' i p = ahead pos s i p"
  by (simp add: ahead_defs)

lemma ahead_other_next: "e_next s i \<noteq> Some i \<Longrightarrow> \<not> ahead pos s i p"
  by (simp add: ahead_def)

text \<open>A tracker that is about to commit itself is ahead of all others.\<close>

lemma ahead_of_all:
  assumes "pos_ok n pos" "i < n" "p < n" "p \<noteq> i" "e_pc s i = ECommit (pos i i)" "e_next s i = Some i"
  shows "ahead pos s i p"
  using assms pos_ok_inj [OF assms(1,2,3,2)] by (auto simp: ahead_defs)

text \<open>How to keep the invariant: nobody new leads, and who is newly ahead of another tracker must be safe.\<close>

lemma election_inv_keep:
  assumes inv: "election_inv n pos s"
    and lead: "\<And>i. e_lead s' i \<Longrightarrow> e_lead s i \<and> (e_next s' i = e_next s i \<or> e_next s' i = None \<or> e_next s' i = Some i)"
    and ahead: "\<And>i p. i < n \<Longrightarrow> p < n \<Longrightarrow> i \<noteq> p \<Longrightarrow> ahead pos s' i p \<Longrightarrow>
      ahead pos s i p \<or> \<not> ahead pos s' p i \<and> \<not> e_lead s' p"
  shows "election_inv n pos s'"
proof -
  have 1: "e_next s' i = None \<or> e_next s' i = Some i" if "i < n" "e_lead s' i" for i
    using inv lead [OF that(2)] that(1) unfolding election_inv_def by auto
  have 2: "\<not> ahead pos s' p i \<and> \<not> e_lead s' p" if "i < n" "p < n" "i \<noteq> p" "ahead pos s' i p" for i p
  proof (cases "ahead pos s i p")
    case True
    then have "\<not> ahead pos s p i" "\<not> e_lead s p" using inv that unfolding election_inv_def by blast+
    then show ?thesis using ahead [OF that(2,1)] lead that(3,4) by blast
  qed (use ahead [OF that] in blast)
  have 3: "i = p" if "i < n" "p < n" "e_lead s' i" "e_lead s' p" for i p
    using inv lead that unfolding election_inv_def by blast
  show ?thesis unfolding election_inv_def using 1 2 3 by blast
qed

text \<open>Steps of tracker \<open>i\<close> that change the next leader of other trackers at most to another tracker.\<close>

lemma inv_move:
  assumes "election_inv n pos s"
    and "\<And>q. q \<noteq> i \<Longrightarrow> e_pc s' q = e_pc s q"
    and "\<And>q. q \<noteq> i \<Longrightarrow> e_next s' q = e_next s q \<or> e_next s' q \<noteq> Some q"
    and "\<And>q. e_lead s' q \<Longrightarrow> e_lead s q \<and> (e_next s' q = e_next s q \<or> e_next s' q = None \<or> e_next s' q = Some q)"
    and "\<And>p. p < n \<Longrightarrow> p \<noteq> i \<Longrightarrow> ahead pos s' i p \<Longrightarrow> ahead pos s i p \<or> \<not> ahead pos s' p i \<and> \<not> e_lead s' p"
  shows "election_inv n pos s'"
proof (rule election_inv_keep [OF assms(1,4)])
  fix a p assume *: "p < n" "a \<noteq> p" "ahead pos s' a p"
  show "ahead pos s a p \<or> \<not> ahead pos s' p a \<and> \<not> e_lead s' p"
  proof (cases "a = i")
    case False
    with * show ?thesis
      using ahead_cong [OF assms(2), of a] assms(3) [of a] ahead_other_next by metis
  qed (use assms(5) * in blast)
qed

lemma election_step_inv:
  assumes pos: "pos_ok n pos" and inv: "election_inv n pos s" and step: "election_step n pos s s'"
  shows "election_inv n pos s'"
  using step
proof cases
  case (start i)
  show ?thesis by (rule inv_move [OF inv, of i]) (simp_all add: start ahead_defs)
next
  case (abort i)
  show ?thesis by (rule inv_move [OF inv, of i]) (simp_all add: abort ahead_defs)
next
  case (notify_self i)
  show ?thesis by (rule inv_move [OF inv, of i]) (auto simp: notify_self(1) ahead_defs)
next
  case (notify i p)
  have "ahead pos s i q \<or> \<not> ahead pos s' q i \<and> \<not> e_lead s' q" if "q < n" "ahead pos s' i q" for q
  proof (cases "q = p")
    case True
    then show ?thesis using notify by (auto simp: ahead_def)
  next
    case False
    then show ?thesis using that notify pos_less_Suc [OF pos notify(2,3), of q] by (auto simp: ahead_defs)
  qed
  then show ?thesis by (intro inv_move [OF inv, of i]) (use notify in auto)
next
  case (notify_lost i p)
  show ?thesis by (rule inv_move [OF inv, of i]) (use notify_lost in \<open>auto simp: ahead_idle\<close>)
next
  case (notify_refused i p)
  show ?thesis by (rule inv_move [OF inv, of i]) (use notify_refused in \<open>auto simp: ahead_idle split: if_splits\<close>)
next
  case (turn i)
  show ?thesis
    by (rule inv_move [OF inv, of i]) (use turn pos_ok_less [OF pos turn(2)] in \<open>auto simp: ahead_defs\<close>)
next
  case (commit_self i)
  have all: "\<not> ahead pos s q i \<and> \<not> e_lead s q" if "q < n" "q \<noteq> i" for q
    using inv ahead_of_all [OF pos commit_self(2) that] commit_self that unfolding election_inv_def by blast
  have a: "ahead pos s' a q \<longleftrightarrow> a \<noteq> i \<and> ahead pos s a q" for a q
    by (simp add: commit_self(1) ahead_defs)
  have l: "e_lead s' q \<longleftrightarrow> q = i" if "q < n" for q
    using all [OF that] by (auto simp: commit_self(1))
  have x: "e_next s' i = None" by (simp add: commit_self(1))
  have old: "\<not> ahead pos s q a" if "a < n" "q < n" "a \<noteq> q" "ahead pos s a q" for a q
    using inv that unfolding election_inv_def by blast
  have "\<not> ahead pos s' q a \<and> \<not> e_lead s' q" if "a < n" "q < n" "a \<noteq> q" "ahead pos s' a q" for a q
    using that a [of a q] a [of q a] l [OF that(2)] old [OF that(1-3)] all [OF that(1)] by blast
  then show ?thesis
    unfolding election_inv_def using l x by blast
next
  case (commit_busy i c)
  show ?thesis by (rule inv_move [OF inv, of i]) (auto simp: commit_busy(1) ahead_def)
next
  case (commit i p c)
  have np: "\<not> e_lead s p" using inv commit(3,4,6) unfolding election_inv_def by auto
  have "ahead pos s i q \<or> \<not> ahead pos s' q i \<and> \<not> e_lead s' q" if "q < n" "ahead pos s' i q" for q
  proof (cases "q = p")
    case True
    then show ?thesis using np by (auto simp: commit(1) ahead_def)
  next
    case False
    then show ?thesis
      using that commit(4,5,7) pos_less_Suc [OF pos commit(2,3), of q] by (auto simp: commit(1) ahead_defs)
  qed
  then show ?thesis by (intro inv_move [OF inv, of i]) (use np in \<open>auto simp: commit(1)\<close>)
next
  case (step_down i)
  show ?thesis by (rule inv_move [OF inv, of i]) (auto simp: step_down ahead_defs split: if_splits)
qed

lemma election_init_inv: "election_init s \<Longrightarrow> election_inv n pos s"
  by (auto simp: election_init_def election_inv_def ahead_defs)

end
