(* ===== verification/Tracker_Election.thy ===== *)
theory Tracker_Election
  imports Tracker_Relationship Tracker_Groups Election_Spec
begin

text \<open>
  The election of \<open>tracker_relationship.c\<close> with the threads of all trackers running at the
  same time: every call to another tracker is one step, and the steps of different trackers
  are interleaved in any order. The steps refine the protocol of \<open>Election_Spec\<close> as
  long as no connection fails; so there is at most one leader at any time.
\<close>

section \<open>Threads that run at the same time\<close>

text \<open>
  Where a thread is inside \<open>relationship_notify_leader_changed\<close>: the entry \<open>j\<close> of the
  candidate, the next entry \<open>k\<close> of its list, \<open>success_count\<close> and \<open>bConnectFail\<close>.
\<close>

datatype relation_pc = Idle | Notifying nat nat nat bool | Committing nat nat nat bool

type_synonym threads = "cluster \<times> (nat \<Rightarrow> relation_pc)"

text \<open>
  What the loop does with the result of one call: \<open>next_call\<close> is the next position.
\<close>

definition after_call :: "(nat \<Rightarrow> nat \<Rightarrow> nat \<Rightarrow> bool \<Rightarrow> relation_pc) \<Rightarrow> nat \<Rightarrow> nat \<Rightarrow> nat \<Rightarrow> int \<Rightarrow> bool \<Rightarrow> relation_pc" where
  "after_call next_call j k cnt r b =
     (if r \<noteq> 0 \<and> \<not> b then Idle else next_call j (Suc k) (if r = 0 then Suc cnt else cnt) b)"

text \<open>
  The candidate a thread chooses depends on the states of the other trackers, which it asks
  one after the other and which can change meanwhile; so a thread that has no leader can find
  itself to be the candidate at any time, and can take any other tracker for the leader.
  \<open>lossless\<close> restricts the steps to those in which a connection is made.
\<close>

inductive tracker_step :: "relation_env \<Rightarrow> bool \<Rightarrow> threads \<Rightarrow> threads \<Rightarrow> bool" for e lossless where
  poll: "i < length cl \<Longrightarrow> pcs i = Idle \<Longrightarrow> k < length (servers_of (cl ! i)) \<Longrightarrow>
    relationship_get_tracker_status e i k cl tp = (st, cl', tp') \<Longrightarrow> tracker_step e lossless (cl, pcs) (cl', pcs)"
| candidate: "i < length cl \<Longrightarrow> pcs i = Idle \<Longrightarrow> leader_of (cl ! i) < 0 \<Longrightarrow> j < length (servers_of (cl ! i)) \<Longrightarrow>
    fdfs_server_contain_local_service (re_eq e) (local_host_ips (cl ! i)) (servers_of (cl ! i) ! j) (g_server_port (cl ! i)) \<Longrightarrow>
    tracker_step e lossless (cl, pcs) (cl, pcs(i := Notifying j 0 0 b))"
| follow: "i < length cl \<Longrightarrow> pcs i = Idle \<Longrightarrow> leader_of (cl ! i) < 0 \<Longrightarrow> j < length (servers_of (cl ! i)) \<Longrightarrow>
    \<not> fdfs_server_contain_local_service (re_eq e) (local_host_ips (cl ! i)) (servers_of (cl ! i) ! j) (g_server_port (cl ! i)) \<Longrightarrow>
    tracker_step e lossless (cl, pcs) (on_node i (set_leader (int j)) cl, pcs)"
| notify: "i < length cl \<Longrightarrow> pcs i = Notifying j k cnt b \<Longrightarrow> k < length (servers_of (cl ! i)) \<Longrightarrow>
    relationship_notify_next_leader e i j k b cl tp = (r, b', cl', tp') \<Longrightarrow> lossless \<longrightarrow> j = k \<or> \<not> b' \<Longrightarrow>
    tracker_step e lossless (cl, pcs) (cl', pcs(i := after_call Notifying j k cnt r b'))"
| turn: "i < length cl \<Longrightarrow> pcs i = Notifying j (length (servers_of (cl ! i))) cnt b \<Longrightarrow>
    tracker_step e lossless (cl, pcs) (cl, pcs(i := (if cnt = 0 then Idle else Committing j 0 0 b)))"
| commit: "i < length cl \<Longrightarrow> pcs i = Committing j k cnt b \<Longrightarrow> k < length (servers_of (cl ! i)) \<Longrightarrow>
    relationship_commit_next_leader e i j k b cl tp = (r, b', cl', tp') \<Longrightarrow> lossless \<longrightarrow> j = k \<or> \<not> b' \<Longrightarrow>
    tracker_step e lossless (cl, pcs) (cl', pcs(i := after_call Committing j k cnt r b'))"
| over: "i < length cl \<Longrightarrow> pcs i = Committing j (length (servers_of (cl ! i))) cnt b \<Longrightarrow>
    (if cnt = 0 then (cl ! i, tp) else find_trunk_servers e (cl ! i) tp) = (n', tp') \<Longrightarrow>
    tracker_step e lossless (cl, pcs) (cl[i := n'], pcs(i := Idle))"
| ping: "i < length cl \<Longrightarrow> pcs i = Idle \<Longrightarrow> 0 \<le> leader_of (cl ! i) \<Longrightarrow> leader_of (cl ! i) < int (length (servers_of (cl ! i))) \<Longrightarrow>
    relationship_thread_round e i rnd b chg cl tp = (cl', tp') \<Longrightarrow> tracker_step e lossless (cl, pcs) (cl', pcs)"
| reselect: "i < length cl \<Longrightarrow> tracker_deal_reselect_leader body (cl ! i) = (status, n') \<Longrightarrow>
    tracker_step e lossless (cl, pcs) (cl[i := n'], pcs)"
| clock: "i < length cl \<Longrightarrow> tracker_step e lossless (cl, pcs) (on_node i (\<lambda>n. n\<lparr>g_current_time := t\<rparr>) cl, pcs)"

section \<open>Clusters\<close>

text \<open>An address whose text fits a request and can be taken apart again.\<close>

definition addr_ok :: "relation_env \<Rightarrow> string \<Rightarrow> int \<Rightarrow> bool" where
  "addr_ok e ip port \<longleftrightarrow> CHR '':'' \<notin> set ip \<and> CHR 0x00 \<notin> set ip \<and>
     length ip + 1 + length (fmt_d port) \<le> re_ip_size e + 6"

definition index_ok :: "TrackerServerInfo \<Rightarrow> bool" where
  "index_ok s \<longleftrightarrow> 0 \<le> server_index s \<and> nat (server_index s) < length (connections s)"

text \<open>The entry \<open>s\<close> of a list of trackers is that of tracker \<open>n\<close>.\<close>

definition entry_of :: "relation_env \<Rightarrow> tracker_node \<Rightarrow> TrackerServerInfo \<Rightarrow> bool" where
  "entry_of e n s \<longleftrightarrow> index_ok s \<and> (\<forall>(ip, port) \<in> endpoints s. listens n ip port \<and> addr_ok e ip port)"

definition relation_env_ok :: "relation_env \<Rightarrow> bool" where
  "relation_env_ok e \<longleftrightarrow> splitEx_ok (re_split e) \<and> conn_eq_ok (re_eq e) \<and> fc_ok (re_fc e)"

text \<open>
  Every tracker knows all trackers: tracker \<open>p\<close> is entry \<open>pos i p\<close> of the list of tracker \<open>i\<close>. The
  lists need not have the same order. No two trackers listen at the same address.
\<close>

definition cluster_ok :: "relation_env \<Rightarrow> (nat \<Rightarrow> nat \<Rightarrow> nat) \<Rightarrow> cluster \<Rightarrow> bool" where
  "cluster_ok e pos cl \<longleftrightarrow> relation_env_ok e \<and> pos_ok (length cl) pos \<and>
     (\<forall>i < length cl. \<forall>p < length cl. i \<noteq> p \<longrightarrow> (\<forall>ip port. listens (cl ! i) ip port \<longrightarrow> \<not> listens (cl ! p) ip port)) \<and>
     (\<forall>i < length cl. length (servers_of (cl ! i)) = length cl \<and>
        (\<forall>p < length cl. entry_of e (cl ! p) (servers_of (cl ! i) ! pos i p)))"

section \<open>What calls keep\<close>

text \<open>
  Two states of a cluster that differ only in the sockets and the preferred addresses of
  the entries, and in what is no part of the election: \<open>same_net\<close> for the addresses,
  \<open>same_vote\<close> for the rest.
\<close>

definition same_entry :: "TrackerServerInfo \<Rightarrow> TrackerServerInfo \<Rightarrow> bool" where
  "same_entry s s' \<longleftrightarrow> map (\<lambda>c. (ip_addr c, conn_port c)) (connections s') = map (\<lambda>c. (ip_addr c, conn_port c)) (connections s) \<and>
     (index_ok s \<longrightarrow> index_ok s')"

definition same_net :: "tracker_node \<Rightarrow> tracker_node \<Rightarrow> bool" where
  "same_net n n' \<longleftrightarrow> g_server_port n' = g_server_port n \<and> local_host_ips n' = local_host_ips n \<and>
     list_all2 same_entry (servers_of n) (servers_of n')"

definition same_vote :: "tracker_node \<Rightarrow> tracker_node \<Rightarrow> bool" where
  "same_vote n n' \<longleftrightarrow> g_if_leader_self n' = g_if_leader_self n \<and> g_next_leader_index n' = g_next_leader_index n \<and>
     leader_of n' = leader_of n"

definition kept :: "cluster \<Rightarrow> cluster \<Rightarrow> bool" where
  "kept cl cl' \<longleftrightarrow> list_all2 (\<lambda>n n'. same_net n n' \<and> same_vote n n') cl cl'"

lemma same_entry_refl [simp]: "same_entry s s"
  by (simp add: same_entry_def)

lemma same_net_refl [simp]: "same_net n n"
  by (simp add: same_net_def list_all2_refl)

lemma same_vote_refl [simp]: "same_vote n n"
  by (simp add: same_vote_def)

lemma kept_refl [simp]: "kept cl cl"
  by (simp add: kept_def list_all2_refl)

lemma same_entry_endpoints: "same_entry s s' \<Longrightarrow> endpoints s' = endpoints s"
  by (simp add: same_entry_def endpoints_def)

lemma same_net_listens: "same_net n n' \<Longrightarrow> listens n' = listens n"
  by (simp add: same_net_def listens_def fun_eq_iff)

lemma entry_of_same: "entry_of e n s \<Longrightarrow> same_net n n' \<Longrightarrow> same_entry s s' \<Longrightarrow> entry_of e n' s'"
  by (simp add: entry_of_def same_net_listens same_entry_endpoints) (simp add: same_entry_def)

lemma cluster_ok_same:
  assumes "cluster_ok e pos cl" "list_all2 same_net cl cl'"
  shows "cluster_ok e pos cl'"
proof -
  have len: "length cl' = length cl" using list_all2_lengthD [OF assms(2)] by simp
  have net: "same_net (cl ! i) (cl' ! i)" if "i < length cl" for i using list_all2_nthD [OF assms(2) that] .
  have srv: "list_all2 same_entry (servers_of (cl ! i)) (servers_of (cl' ! i))" if "i < length cl" for i
    using net [OF that] by (simp add: same_net_def)
  have "length (servers_of (cl' ! i)) = length cl \<and> (\<forall>p < length cl. entry_of e (cl' ! p) (servers_of (cl' ! i) ! pos i p))"
    if i: "i < length cl" for i
  proof (intro conjI allI impI)
    have l: "length (servers_of (cl ! i)) = length cl" using assms(1) i by (simp add: cluster_ok_def)
    then show "length (servers_of (cl' ! i)) = length cl" using list_all2_lengthD [OF srv [OF i]] by simp
    fix p assume p: "p < length cl"
    have "pos i p < length (servers_of (cl ! i))"
      using assms(1) i p l pos_ok_less unfolding cluster_ok_def by metis
    then have "same_entry (servers_of (cl ! i) ! pos i p) (servers_of (cl' ! i) ! pos i p)"
      by (rule list_all2_nthD [OF srv [OF i]])
    moreover have "entry_of e (cl ! p) (servers_of (cl ! i) ! pos i p)" using assms(1) i p by (simp add: cluster_ok_def)
    ultimately show "entry_of e (cl' ! p) (servers_of (cl' ! i) ! pos i p)" using entry_of_same net [OF p] by blast
  qed
  then show ?thesis
    using assms(1) same_net_listens [OF net] unfolding cluster_ok_def len by simp
qed

lemma kept_cluster_ok: "cluster_ok e pos cl \<Longrightarrow> kept cl cl' \<Longrightarrow> cluster_ok e pos cl'"
  by (rule cluster_ok_same) (auto simp: kept_def elim: list_all2_mono)

lemma kept_nth: "kept cl cl' \<Longrightarrow> i < length cl \<Longrightarrow> same_net (cl ! i) (cl' ! i) \<and> same_vote (cl ! i) (cl' ! i)"
  unfolding kept_def by (rule list_all2_nthD)

lemma kept_length: "kept cl cl' \<Longrightarrow> length cl' = length cl"
  unfolding kept_def using list_all2_lengthD by fastforce

lemma on_node_length [simp]: "length (on_node i f cl) = length cl"
  by (simp add: on_node_def)

lemma on_node_nth [simp]: "i < length cl \<Longrightarrow> on_node i f cl ! j = (if j = i then f (cl ! i) else cl ! j)"
  by (simp add: on_node_def nth_list_update)

lemma list_update_nth_if: "p < length cl \<Longrightarrow> cl[p := n] ! j = (if j = p then n else cl ! j)"
  by (simp add: nth_list_update)

lemma kept_update:
  assumes "i < length cl" "same_net (cl ! i) n" "same_vote (cl ! i) n"
  shows "kept cl (cl[i := n])"
  using assms by (simp add: kept_def list_all2_conv_all_nth nth_list_update)

lemma kept_on_node:
  "i < length cl \<Longrightarrow> same_net (cl ! i) (f (cl ! i)) \<Longrightarrow> same_vote (cl ! i) (f (cl ! i)) \<Longrightarrow> kept cl (on_node i f cl)"
  unfolding on_node_def by (rule kept_update)

section \<open>Connecting\<close>

definition reached :: "TrackerServerInfo \<Rightarrow> nat \<Rightarrow> ConnectionInfo list \<Rightarrow> int \<times> ConnectionInfo option \<times> TrackerServerInfo \<times> ext_tape \<Rightarrow> bool" where
  "reached s m cs res \<longleftrightarrow>
     (case res of
        (err, None, s', tp) \<Rightarrow> s' = s \<and> err \<noteq> 0
      | (err, Some c, s', tp) \<Rightarrow> (\<exists>k < m. s' = s\<lparr>server_index := int k\<rparr>) \<and> c \<in> set cs)"

lemma reached_mono: "reached s m cs res \<Longrightarrow> set cs \<subseteq> set ds \<Longrightarrow> reached s m ds res"
  by (auto simp: reached_def split: option.splits prod.splits)

lemma connect_loop_spec:
  "err \<noteq> 0 \<Longrightarrow> i + length cs \<le> m \<Longrightarrow> reached s m cs (connect_loop dial s i cs err tp)"
proof (induction cs arbitrary: i err tp)
  case (Cons c cs)
  obtain e1 t1 where d: "dial c tp = (e1, t1)" by force
  have rec: "reached s m (c # cs) (connect_loop dial s (Suc i) cs err' tp')" if "err' \<noteq> 0" for err' tp'
    using Cons.IH [OF that, of "Suc i" tp'] Cons.prems by (auto elim!: reached_mono)
  have now: "reached s m (c # cs) (0, Some c, s\<lparr>server_index := int i\<rparr>, t1)"
    using Cons.prems by (auto simp: reached_def intro: exI [of _ i])
  show ?case using rec [OF Cons.prems(1)] rec [of e1 t1] now by (simp add: d)
qed (simp add: reached_def)

lemma connect_server_spec:
  assumes "tracker_connect_server_ex dial s tp = (err, conn, s', tp')" "index_ok s"
  shows "index_ok s' \<and> connections s' = connections s \<and> (conn = None \<longrightarrow> err \<noteq> 0) \<and> (\<forall>c. conn = Some c \<longrightarrow> c \<in> set (connections s))"
proof -
  define c where "c = connections s ! nat (server_index s)"
  have c: "c \<in> set (connections s)" using assms(2) by (simp add: c_def index_ok_def)
  obtain e1 t1 where d: "dial c tp = (e1, t1)" by force
  show ?thesis
  proof (cases "e1 = 0 \<or> length (connections s) = 1")
    case True
    with assms d c show ?thesis by (auto simp: tracker_connect_server_ex_def c_def split: if_splits)
  next
    case False
    then have "connect_loop dial s 0 (connections s) e1 t1 = (err, conn, s', tp')"
      using assms(1) d by (simp add: tracker_connect_server_ex_def c_def)
    then have "reached s (length (connections s)) (connections s) (err, conn, s', tp')"
      using connect_loop_spec [of e1 0 "connections s" _ s dial t1] False by simp
    with assms(2) show ?thesis by (cases conn) (auto simp: index_ok_def reached_def)
  qed
qed

lemma same_vote_set_server [simp]: "same_vote n (set_server k s n)"
  by (simp add: same_vote_def set_server_def)

lemma same_net_set_server:
  "same_entry (servers_of n ! k) s \<Longrightarrow> same_net n (set_server k s n)"
  by (cases "k < length (servers_of n)")
    (auto simp: same_net_def set_server_def list_all2_conv_all_nth nth_list_update list_update_beyond)

lemma sock_reset_same: "same_entry s (fdfs_server_sock_reset s)"
  by (simp add: same_entry_def fdfs_server_sock_reset_def index_ok_def)

text \<open>Only the tracker of the entry listens at its addresses.\<close>

lemma cluster_env: "cluster_ok e pos cl \<Longrightarrow> relation_env_ok e" "cluster_ok e pos cl \<Longrightarrow> pos_ok (length cl) pos"
  by (simp_all add: cluster_ok_def)

lemma cluster_entry:
  assumes "cluster_ok e pos cl" "i < length cl" "p < length cl"
  shows "entry_of e (cl ! p) (servers_of (cl ! i) ! pos i p)" "length (servers_of (cl ! i)) = length cl" "pos i p < length cl"
  using assms pos_ok_less [OF cluster_env(2) [OF assms(1)]] by (simp_all add: cluster_ok_def)

lemma cluster_listens_unique:
  "cluster_ok e pos cl \<Longrightarrow> i < length cl \<Longrightarrow> p < length cl \<Longrightarrow> listens (cl ! i) ip port \<Longrightarrow> listens (cl ! p) ip port \<Longrightarrow> i = p"
  unfolding cluster_ok_def by blast

lemma listener_entry:
  assumes "cluster_ok e pos cl" "p < length cl" "listens (cl ! p) (ip_addr c) (conn_port c)"
  shows "listener cl c = Some p"
proof (cases "listener cl c")
  case None
  with assms(2,3) show ?thesis by (auto simp: listener_def find_None_iff)
next
  case (Some q)
  then have "q < length cl" "listens (cl ! q) (ip_addr c) (conn_port c)"
    by (auto simp: listener_def dest: find_Some_in)
  with cluster_listens_unique [OF assms(1)] assms(2,3) Some show ?thesis by blast
qed

lemma connect_tracker_spec:
  assumes ok: "cluster_ok e pos cl" and me: "me < length cl" and p: "p < length cl"
    and c: "connect_tracker me (pos me p) reset cl tp = (err, peer, cl1, tp1)"
  shows "kept cl cl1 \<and> (peer = None \<and> err \<noteq> 0 \<or> peer = Some p)"
proof -
  define s where "s = servers_of (cl ! me) ! pos me p"
  define s0 where "s0 = (if reset then fdfs_server_sock_reset s else s)"
  obtain err' conn s1 tp' where r: "tracker_connect_server_ex (node_dial cl) s0 tp = (err', conn, s1, tp')"
    by (metis prod_cases4)
  have ent: "entry_of e (cl ! p) s" unfolding s_def by (rule cluster_entry(1) [OF ok me p])
  have s0: "same_entry s s0" by (simp add: s0_def sock_reset_same)
  then have "index_ok s0" using ent by (simp add: same_entry_def entry_of_def)
  from connect_server_spec [OF r this] have s1: "index_ok s1" "connections s1 = connections s0" "conn = None \<longrightarrow> err' \<noteq> 0"
    "\<forall>c. conn = Some c \<longrightarrow> c \<in> set (connections s0)" by auto
  have "same_entry s s1" using s0 s1 by (simp add: same_entry_def)
  then have k: "kept cl (on_node me (set_server (pos me p) s1) cl)"
    by (intro kept_on_node [OF me] same_net_set_server same_vote_set_server) (simp add: s_def)
  have eq: "err = err'" "peer = (case conn of None \<Rightarrow> None | Some c \<Rightarrow> listener cl c)"
    "cl1 = on_node me (set_server (pos me p) s1) cl"
    using c unfolding connect_tracker_def Let_def s_def [symmetric] s0_def [symmetric] r by simp_all
  have "listener cl x = Some p" if "conn = Some x" for x
  proof -
    have "(ip_addr x, conn_port x) \<in> endpoints s0" using s1(4) that by (auto simp: endpoints_def)
    then have "(ip_addr x, conn_port x) \<in> endpoints s" using same_entry_endpoints [OF s0] by simp
    then have "listens (cl ! p) (ip_addr x) (conn_port x)" using ent unfolding entry_of_def by blast
    then show ?thesis by (rule listener_entry [OF ok p])
  qed
  with k eq s1(3) show ?thesis by (cases conn) auto
qed

section \<open>Requests\<close>

lemma fmt_d_no_NUL: "CHR 0x00 \<notin> set (fmt_d n)"
proof -
  have "digit_char d \<noteq> CHR 0x00" if "d < 10" for d using of_char_digit_char [OF that] by auto
  then show ?thesis using fmt_base_10_no_char [of "CHR 0x00"] by (auto simp: fmt_d_def)
qed

text \<open>The address in a request is what the sender put into it.\<close>

lemma parse_leader_body:
  assumes "relation_env_ok e" "addr_ok e (ip_addr c) (conn_port c)"
  shows "parse_leader e (leader_body e c) = Some (ip_addr c, conn_port c)"
proof -
  define t where "t = join_cols (CHR '':'') [ip_addr c, fmt_d (conn_port c)]"
  have t: "t = ip_addr c @ CHR '':'' # fmt_d (conn_port c)" by (simp add: t_def)
  have nul: "CHR 0x00 \<notin> set t" using assms(2) by (simp add: t addr_ok_def fmt_d_no_NUL)
  have body: "leader_body e c = t @ replicate (re_ip_size e + 6 - length t) (CHR 0x00)" by (simp add: leader_body_def t)
  have len: "length t \<le> re_ip_size e + 6" using assms(2) by (simp add: t addr_ok_def)
  have "takeWhile (\<lambda>x. x \<noteq> CHR 0x00) (t @ replicate m (CHR 0x00)) = t" for m
    using nul by (subst takeWhile_append2) (auto simp: takeWhile_eq_Nil_iff)
  then have str: "c_str (leader_body e c) = t" unfolding c_str_def body .
  have "splitEx_ok (re_split e)" using assms(1) by (simp add: relation_env_ok_def)
  from splitEx_full [OF this, of "[ip_addr c, fmt_d (conn_port c)]" "CHR '':''"] assms(2)
  have "re_split e t (CHR '':'') 2 = [ip_addr c, fmt_d (conn_port c)]" by (simp add: t_def addr_ok_def numeral_2_eq_2)
  with str len show ?thesis by (simp add: parse_leader_def) (simp add: body)
qed

text \<open>
  The index of tracker \<open>i\<close> in the list of tracker \<open>p\<close>, looked up by an address of tracker \<open>i\<close>.
\<close>

lemma leader_index_pos:
  assumes ok: "cluster_ok e pos cl" and p: "p < length cl" and i: "i < length cl" and l: "listens (cl ! i) ip port"
  shows "fdfs_get_tracker_leader_index_ex (re_eq e) (g_tracker_servers (cl ! p)) ip port \<in> {-1, int (pos p i)}"
proof (cases "group_get_loop (re_eq e) (servers_of (cl ! p)) 0 ip port")
  case (Some k)
  have eq: "conn_eq_ok (re_eq e)" using cluster_env(1) [OF ok] by (simp add: relation_env_ok_def)
  have k: "k < length (servers_of (cl ! p))" "(ip, port) \<in> endpoints (servers_of (cl ! p) ! k)"
    using group_get_loop_SomeD [OF Some] by (simp_all add: server_contain_iff [OF eq])
  then obtain q where q: "q < length cl" "pos p q = k"
    using pos_ok_surj [OF cluster_env(2) [OF ok] p] cluster_entry(2) [OF ok p i] by metis
  then have "listens (cl ! q) ip port" using cluster_entry(1) [OF ok p q(1)] k(2) by (auto simp: entry_of_def)
  then have "q = i" using cluster_listens_unique [OF ok q(1) i] l by blast
  with Some q(2) show ?thesis by (simp add: fdfs_get_tracker_leader_index_ex_def)
qed (simp add: fdfs_get_tracker_leader_index_ex_def)

text \<open>One request to tracker \<open>p\<close> over a connection that was made.\<close>

lemma do_notify_spec:
  assumes ok: "cluster_ok e pos cl" and me: "me < length cl" and p: "p < length cl"
    and c: "do_notify_leader_changed e handler me (pos me p) L cl tp = (r, b', cl', tp')" and b: "\<not> b'"
  shows "\<exists>cl1. kept cl cl1 \<and> (r \<noteq> 0 \<and> cl' = cl1 \<or>
    (\<exists>status n'. handler (leader_body e L) (cl1 ! p) = (status, n') \<and> cl' = cl1[p := n'] \<and> (r = 0 \<longrightarrow> status = 0)))"
proof -
  obtain err peer cl1 tp1 where con: "connect_tracker me (pos me p) True cl tp = (err, peer, cl1, tp1)" by (metis prod_cases4)
  note spec = connect_tracker_spec [OF ok me p con]
  obtain r2 tp2 where x: "ext_call EIO tp1 = (r2, tp2)" by fastforce
  obtain status n' where h: "handler (leader_body e L) (cl1 ! p) = (status, n')" by fastforce
  obtain r3 ib bf tp3 where v: "fdfs_recv_response (Some 0) (no_body status) [] tp2 = (r3, ib, bf, tp3)" by (metis prod_cases4)
  have "r3 = 0 \<longrightarrow> status = 0"
    using v by (auto simp: fdfs_recv_response_def fdfs_recv_header_ex_def no_body_def split: prod.splits if_splits)
  with c b spec con x h v show ?thesis
    by (cases peer) (auto simp: do_notify_leader_changed_def split: if_splits)
qed

section \<open>The steps follow the protocol\<close>

text \<open>
  How a state of the trackers corresponds to a state of the protocol. The index of the next
  leader is the one of the list of the tracker that keeps it.
\<close>

fun same_pc :: "nat \<Rightarrow> nat \<Rightarrow> relation_pc \<Rightarrow> election_pc \<Rightarrow> bool" where
  "same_pc n j0 Idle c \<longleftrightarrow> c = EIdle"
| "same_pc n j0 (Notifying j k cnt b) c \<longleftrightarrow> c = ENotify k \<and> j = j0 \<and> k \<le> n"
| "same_pc n j0 (Committing j k cnt b) c \<longleftrightarrow> c = ECommit k \<and> j = j0 \<and> k \<le> n"

definition corresponds :: "(nat \<Rightarrow> nat \<Rightarrow> nat) \<Rightarrow> threads \<Rightarrow> election \<Rightarrow> bool" where
  "corresponds pos th s \<longleftrightarrow>
     (\<forall>i < length (fst th). e_lead s i = g_if_leader_self (fst th ! i) \<and>
        (\<forall>x. e_next s i = Some x \<longleftrightarrow> x < length (fst th) \<and> g_next_leader_index (fst th ! i) = int (pos i x)) \<and>
        same_pc (length (fst th)) (pos i i) (snd th i) (e_pc s i))"

lemma corresponds_kept: "corresponds pos (cl, pcs) s \<Longrightarrow> kept cl cl' \<Longrightarrow> corresponds pos (cl', pcs) s"
  using kept_nth [of cl cl'] by (auto simp: corresponds_def kept_length same_vote_def)

lemma corresponds_pc:
  "corresponds pos (cl, pcs) s \<Longrightarrow> same_pc (length cl) (pos i i) c ec \<Longrightarrow> corresponds pos (cl, pcs(i := c)) (at_pc i ec s)"
  by (simp add: corresponds_def)

text \<open>A change of the state of one tracker.\<close>

lemma corresponds_told:
  assumes "corresponds pos (cl, pcs) s" "p < length cl" "g_if_leader_self n' = g_if_leader_self (cl ! p)"
    and "\<forall>x. q = Some x \<longleftrightarrow> x < length cl \<and> g_next_leader_index n' = int (pos p x)"
  shows "corresponds pos (cl[p := n'], pcs) (told p q s)"
  using assms by (auto simp: corresponds_def nth_list_update)

lemma corresponds_leads:
  assumes "corresponds pos (cl, pcs) s" "p < length cl" "g_next_leader_index n' = g_next_leader_index (cl ! p)"
  shows "corresponds pos (cl[p := n'], pcs) (leads p (g_if_leader_self n') s)"
  using assms by (auto simp: corresponds_def nth_list_update)

definition refines :: "relation_env \<Rightarrow> (nat \<Rightarrow> nat \<Rightarrow> nat) \<Rightarrow> election \<Rightarrow> threads \<Rightarrow> bool" where
  "refines e pos s th' \<longleftrightarrow> cluster_ok e pos (fst th') \<and>
     (\<exists>s'. (s' = s \<or> election_step (length (fst th')) pos s s') \<and> corresponds pos th' s')"

lemma refines_stutter: "cluster_ok e pos cl \<Longrightarrow> corresponds pos (cl, pcs) s \<Longrightarrow> refines e pos s (cl, pcs)"
  by (auto simp: refines_def)

lemma refines_kept:
  "cluster_ok e pos cl \<Longrightarrow> corresponds pos (cl, pcs) s \<Longrightarrow> kept cl cl' \<Longrightarrow> refines e pos s (cl', pcs)"
  using kept_cluster_ok corresponds_kept refines_stutter by metis

lemma refines_step:
  "cluster_ok e pos cl \<Longrightarrow> election_step (length cl) pos s s' \<Longrightarrow> corresponds pos (cl, pcs) s' \<Longrightarrow> refines e pos s (cl, pcs)"
  by (auto simp: refines_def)

lemma cluster_ok_update: "cluster_ok e pos cl \<Longrightarrow> same_net (cl ! p) n' \<Longrightarrow> cluster_ok e pos (cl[p := n'])"
proof (cases "p < length cl")
  case True
  assume "cluster_ok e pos cl" "same_net (cl ! p) n'"
  then show ?thesis using True by (elim cluster_ok_same) (auto simp: list_all2_conv_all_nth nth_list_update)
qed (simp add: list_update_beyond)

text \<open>What the handlers change of the net: nothing.\<close>

lemma same_net_set_leader [simp]: "same_net n (set_leader i n)"
  by (simp add: same_net_def set_leader_def list_all2_refl)

lemma set_leader_simps [simp]:
  "g_if_leader_self (set_leader i n) = g_if_leader_self n" "g_next_leader_index (set_leader i n) = g_next_leader_index n"
  "servers_of (set_leader i n) = servers_of n" "leader_of (set_leader i n) = i"
  "g_server_port (set_leader i n) = g_server_port n" "local_host_ips (set_leader i n) = local_host_ips n"
  by (simp_all add: set_leader_def)

lemma set_tracker_leader_simps:
  "same_net n (relationship_set_tracker_leader idx b n)"
  "g_if_leader_self (relationship_set_tracker_leader idx b n) = (b \<or> g_if_leader_self n)"
  "g_next_leader_index (relationship_set_tracker_leader idx b n) = -1"
  by (simp_all add: relationship_set_tracker_leader_def Let_def same_net_def list_all2_refl)

lemma own_address:
  assumes "cluster_ok e pos cl" "i < length cl" "L = connections (servers_of (cl ! i) ! pos i i) ! 0"
  shows "listens (cl ! i) (ip_addr L) (conn_port L) \<and> addr_ok e (ip_addr L) (conn_port L)"
proof -
  let ?s = "servers_of (cl ! i) ! pos i i"
  have ent: "entry_of e (cl ! i) ?s" by (rule cluster_entry(1) [OF assms(1,2,2)])
  then have "0 < length (connections ?s)" by (auto simp: entry_of_def index_ok_def)
  then have "L \<in> set (connections ?s)" using assms(3) nth_mem by blast
  then have "(ip_addr L, conn_port L) \<in> endpoints ?s" by (auto simp: endpoints_def)
  with ent show ?thesis by (auto simp: entry_of_def)
qed

lemma handler_notify:
  assumes ok: "cluster_ok e pos cl" and i: "i < length cl" and p: "p < length cl" "p \<noteq> i"
    and L: "listens (cl ! i) (ip_addr L) (conn_port L)" "addr_ok e (ip_addr L) (conn_port L)"
    and h: "tracker_deal_notify_next_leader e (leader_body e L) (cl ! p) = (status, n')"
  shows "status \<noteq> 0 \<and> n' = cl ! p \<or>
    g_if_leader_self (cl ! p) \<and> status \<noteq> 0 \<and> same_net (cl ! p) n' \<and> \<not> g_if_leader_self n' \<and>
      g_next_leader_index n' = g_next_leader_index (cl ! p) \<or>
    \<not> g_if_leader_self (cl ! p) \<and> status = 0 \<and> n' = (cl ! p)\<lparr>g_next_leader_index := int (pos p i)\<rparr>"
proof -
  have nl: "\<not> listens (cl ! p) (ip_addr L) (conn_port L)" using cluster_listens_unique [OF ok p(1) i] L(1) p(2) by blast
  show ?thesis
    using h leader_index_pos [OF ok p(1) i L(1)] parse_leader_body [OF cluster_env(1) [OF ok] L(2)] nl
    by (auto simp: tracker_deal_notify_next_leader_def Let_def same_net_def list_all2_refl split: if_splits)
qed

lemma handler_commit:
  assumes ok: "cluster_ok e pos cl" and i: "i < length cl" and p: "p < length cl" "p \<noteq> i"
    and L: "listens (cl ! i) (ip_addr L) (conn_port L)" "addr_ok e (ip_addr L) (conn_port L)"
    and h: "tracker_deal_commit_next_leader e (leader_body e L) (cl ! p) = (status, n')"
  shows "status \<noteq> 0 \<and> n' = cl ! p \<or>
    status = 0 \<and> g_next_leader_index (cl ! p) = int (pos p i) \<and> n' = relationship_set_tracker_leader (int (pos p i)) False (cl ! p)"
proof -
  have nl: "\<not> listens (cl ! p) (ip_addr L) (conn_port L)" using cluster_listens_unique [OF ok p(1) i] L(1) p(2) by blast
  show ?thesis
    using h leader_index_pos [OF ok p(1) i L(1)] parse_leader_body [OF cluster_env(1) [OF ok] L(2)] nl
    by (auto simp: tracker_deal_commit_next_leader_def Let_def split: if_splits)
qed

lemma corresponds_abort:
  "corresponds pos (cl, pcs) s \<Longrightarrow> corresponds pos (cl, pcs(i := Idle)) (at_pc i EIdle s)"
  by (rule corresponds_pc) simp_all

lemma next_iff:
  assumes "cluster_ok e pos cl" "p < length cl" "i < length cl"
  shows "Some i = Some x \<longleftrightarrow> x < length cl \<and> int (pos p i) = int (pos p x)"
  using assms(3) pos_ok_inj [OF cluster_env(2) [OF assms(1)] assms(2), of i x] by auto

lemma notify_self_refines:
  assumes ok: "cluster_ok e pos cl" and co: "corresponds pos (cl, pcs) s" and i: "i < length cl"
    and pc: "pcs i = Notifying (pos i i) (pos i i) cnt b"
  shows "refines e pos s (on_node i (\<lambda>n. n\<lparr>g_next_leader_index := int (pos i i)\<rparr>) cl,
    pcs(i := after_call Notifying (pos i i) (pos i i) cnt 0 b))"
proof -
  have e: "e_pc s i = ENotify (pos i i)" using co i pc by (auto simp: corresponds_def)
  have lt: "pos i i < length cl" by (rule cluster_entry(3) [OF ok i i])
  have "corresponds pos (cl, pcs(i := after_call Notifying (pos i i) (pos i i) cnt 0 b)) (at_pc i (ENotify (Suc (pos i i))) s)"
    by (rule corresponds_pc [OF co]) (use lt in \<open>simp add: after_call_def\<close>)
  from corresponds_told [OF this i, of "(cl ! i)\<lparr>g_next_leader_index := int (pos i i)\<rparr>" "Some i"] next_iff [OF ok i i]
  have "corresponds pos (cl[i := (cl ! i)\<lparr>g_next_leader_index := int (pos i i)\<rparr>], pcs(i := after_call Notifying (pos i i) (pos i i) cnt 0 b))
    (told i (Some i) (at_pc i (ENotify (Suc (pos i i))) s))" by simp
  moreover have "cluster_ok e pos (cl[i := (cl ! i)\<lparr>g_next_leader_index := int (pos i i)\<rparr>])"
    by (rule cluster_ok_update [OF ok]) (simp add: same_net_def list_all2_refl)
  moreover have "election_step (length cl) pos s (told i (Some i) (at_pc i (ENotify (Suc (pos i i))) s))"
    by (rule notify_self) (use i e in simp_all)
  ultimately show ?thesis unfolding on_node_def by (intro refines_step) simp_all
qed

text \<open>A request to another tracker, and what both phases need to know of the state it is handled in.\<close>

lemma request_spec:
  assumes ok: "cluster_ok e pos cl" and co: "corresponds pos (cl, pcs) s" and i: "i < length cl" and p: "p < length cl"
    and L: "L = connections (servers_of (cl ! i) ! pos i i) ! 0"
    and c: "do_notify_leader_changed e handler i (pos i p) L cl tp = (r, b', cl', tp')" and b': "\<not> b'"
  obtains cl1 where "cluster_ok e pos cl1" "length cl1 = length cl" "corresponds pos (cl1, pcs) s"
    "listens (cl1 ! i) (ip_addr L) (conn_port L)" "addr_ok e (ip_addr L) (conn_port L)" "refines e pos s (cl1, pcs(i := Idle))"
    "r \<noteq> 0 \<and> cl' = cl1 \<or>
      (\<exists>status n'. handler (leader_body e L) (cl1 ! p) = (status, n') \<and> cl' = cl1[p := n'] \<and> (r = 0 \<longrightarrow> status = 0))"
proof -
  obtain cl1 where k: "kept cl cl1" and res: "r \<noteq> 0 \<and> cl' = cl1 \<or>
      (\<exists>status n'. handler (leader_body e L) (cl1 ! p) = (status, n') \<and> cl' = cl1[p := n'] \<and> (r = 0 \<longrightarrow> status = 0))"
    using do_notify_spec [OF ok i p c b'] by blast
  have ok1: "cluster_ok e pos cl1" and len: "length cl1 = length cl" using kept_cluster_ok [OF ok k] kept_length [OF k] by simp_all
  have co1: "corresponds pos (cl1, pcs) s" by (rule corresponds_kept [OF co k])
  have "listens (cl1 ! i) (ip_addr L) (conn_port L)" "addr_ok e (ip_addr L) (conn_port L)"
    using own_address [OF ok i L] kept_nth [OF k i] same_net_listens by auto
  moreover have "refines e pos s (cl1, pcs(i := Idle))"
    by (rule refines_step [OF ok1 abort corresponds_abort [OF co1]]) (simp add: len i)
  ultimately show thesis using that ok1 len co1 res by blast
qed

lemma notify_other_refines:
  assumes ok: "cluster_ok e pos cl" and co: "corresponds pos (cl, pcs) s" and i: "i < length cl" and p: "p < length cl" "p \<noteq> i"
    and pc: "pcs i = Notifying (pos i i) (pos i p) cnt b"
    and c: "do_notify_leader_changed e (tracker_deal_notify_next_leader e) i (pos i p) (connections (servers_of (cl ! i) ! pos i i) ! 0) cl tp
      = (r, b', cl', tp')" and b': "\<not> b'"
  shows "refines e pos s (cl', pcs(i := after_call Notifying (pos i i) (pos i p) cnt r b'))" (is "refines e pos s (cl', ?pcs)")
proof -
  define L where "L = connections (servers_of (cl ! i) ! pos i i) ! 0"
  obtain cl1 where ok1: "cluster_ok e pos cl1" and len: "length cl1 = length cl" and co1: "corresponds pos (cl1, pcs) s"
    and L: "listens (cl1 ! i) (ip_addr L) (conn_port L)" "addr_ok e (ip_addr L) (conn_port L)"
    and ab: "refines e pos s (cl1, pcs(i := Idle))" and res: "r \<noteq> 0 \<and> cl' = cl1 \<or>
      (\<exists>status n'. tracker_deal_notify_next_leader e (leader_body e L) (cl1 ! p) = (status, n') \<and> cl' = cl1[p := n'] \<and> (r = 0 \<longrightarrow> status = 0))"
    using request_spec [OF ok co i p(1) L_def c [folded L_def] b'] by metis
  have e: "e_pc s i = ENotify (pos i p)" using co i pc by (auto simp: corresponds_def)
  have lt: "pos i p < length cl" by (rule cluster_entry(3) [OF ok i p(1)])
  have lead: "e_lead s p = g_if_leader_self (cl1 ! p)" using co1 p(1) len by (simp add: corresponds_def)
  have idle: "?pcs = pcs(i := Idle)" if "r \<noteq> 0" using that b' by (simp add: after_call_def)
  from res show ?thesis
  proof (elim disjE exE conjE)
    fix status n' assume h: "tracker_deal_notify_next_leader e (leader_body e L) (cl1 ! p) = (status, n')"
      and cl': "cl' = cl1[p := n']" and st: "r = 0 \<longrightarrow> status = 0"
    from handler_notify [OF ok1 _ _ p(2) L h] i p(1) len
    consider "status \<noteq> 0" "n' = cl1 ! p"
      | "g_if_leader_self (cl1 ! p)" "status \<noteq> 0" "same_net (cl1 ! p) n'" "\<not> g_if_leader_self n'" "g_next_leader_index n' = g_next_leader_index (cl1 ! p)"
      | "\<not> g_if_leader_self (cl1 ! p)" "status = 0" "n' = (cl1 ! p)\<lparr>g_next_leader_index := int (pos p i)\<rparr>" by auto
    then show ?thesis
    proof cases
      case 1
      with ab idle st cl' show ?thesis by simp
    next
      case 2
      have "corresponds pos (cl1[p := n'], pcs(i := Idle)) (leads p False (at_pc i EIdle s))"
        using corresponds_leads [OF corresponds_abort [OF co1], of p n' i] 2 p(1) len by simp
      moreover have "election_step (length cl1) pos s (leads p False (at_pc i EIdle s))"
        by (rule notify_refused) (use i p e 2 lead len in simp_all)
      ultimately show ?thesis using refines_step [OF cluster_ok_update [OF ok1 2(3)]] idle st 2(2) cl' by simp
    next
      case 3
      have net: "same_net (cl1 ! p) n'" by (simp add: 3 same_net_def list_all2_refl)
      have nx: "\<forall>x. Some i = Some x \<longleftrightarrow> x < length cl1 \<and> g_next_leader_index n' = int (pos p x)"
        using next_iff [OF ok1, of p i] i p(1) len 3 by simp
      define c where "c = (if r = 0 then ENotify (Suc (pos i p)) else EIdle)"
      have "corresponds pos (cl1, ?pcs) (at_pc i c s)"
        by (rule corresponds_pc [OF co1]) (use lt len b' in \<open>simp add: after_call_def c_def\<close>)
      then have "corresponds pos (cl1[p := n'], ?pcs) (told p (Some i) (at_pc i c s))"
        by (rule corresponds_told) (use p(1) len nx 3 in simp_all)
      moreover have "election_step (length cl1) pos s (told p (Some i) (at_pc i c s))"
        using election_step.notify [of i "length cl1" p s pos] notify_lost [of i "length cl1" p s pos] i p e lead 3(1) len by (simp add: c_def)
      ultimately show ?thesis using refines_step [OF cluster_ok_update [OF ok1 net]] cl' by simp
    qed
  qed (use ab idle in simp)
qed

lemma commit_self_refines:
  assumes ok: "cluster_ok e pos cl" and co: "corresponds pos (cl, pcs) s" and i: "i < length cl"
    and pc: "pcs i = Committing (pos i i) (pos i i) cnt b"
    and c: "relationship_commit_next_leader e i (pos i i) (pos i i) b cl tp = (r, b', cl', tp')"
  shows "refines e pos s (cl', pcs(i := after_call Committing (pos i i) (pos i i) cnt r b'))" (is "refines e pos s (cl', ?pcs)")
proof -
  have e: "e_pc s i = ECommit (pos i i)" using co i pc by (auto simp: corresponds_def)
  have lt: "pos i i < length cl" by (rule cluster_entry(3) [OF ok i i])
  have nx: "e_next s i = Some i \<longleftrightarrow> g_next_leader_index (cl ! i) = int (pos i i)" using co i by (auto simp: corresponds_def)
  have none: "\<forall>x. (None :: nat option) = Some x \<longleftrightarrow> x < length cl \<and> - 1 = int (pos i x)" by simp
  show ?thesis
  proof (cases "g_next_leader_index (cl ! i) = int (pos i i)")
    case True
    let ?n = "relationship_set_tracker_leader (int (pos i i)) True (cl ! i)"
    have eq: "r = 0" "b' = b" "cl' = cl[i := ?n]" using c True by (auto simp: relationship_commit_next_leader_def on_node_def)
    have "corresponds pos (cl, ?pcs) (at_pc i (ECommit (Suc (pos i i))) s)"
      by (rule corresponds_pc [OF co]) (use lt eq in \<open>simp add: after_call_def\<close>)
    from corresponds_told [OF this i, of "(cl ! i)\<lparr>g_next_leader_index := -1\<rparr>" None] none
    have "corresponds pos (cl[i := (cl ! i)\<lparr>g_next_leader_index := -1\<rparr>], ?pcs) (told i None (at_pc i (ECommit (Suc (pos i i))) s))" by simp
    from corresponds_leads [OF this, of i ?n] i
    have "corresponds pos (cl[i := ?n], ?pcs) (leads i True (told i None (at_pc i (ECommit (Suc (pos i i))) s)))"
      by (simp add: set_tracker_leader_simps)
    moreover have "election_step (length cl) pos s (leads i True (told i None (at_pc i (ECommit (Suc (pos i i))) s)))"
      by (rule commit_self) (use i e nx True in simp_all)
    moreover have "cluster_ok e pos (cl[i := ?n])" by (rule cluster_ok_update [OF ok set_tracker_leader_simps(1)])
    ultimately show ?thesis using refines_step eq(3) by simp
  next
    case False
    let ?n = "(cl ! i)\<lparr>g_next_leader_index := -1\<rparr>"
    have eq: "r = EBUSY" "b' = b" "cl' = cl[i := ?n]" using c False by (auto simp: relationship_commit_next_leader_def on_node_def)
    define ec where "ec = (if b then ECommit (Suc (pos i i)) else EIdle)"
    have "corresponds pos (cl, ?pcs) (at_pc i ec s)"
      by (rule corresponds_pc [OF co]) (use lt eq in \<open>simp add: after_call_def ec_def\<close>)
    from corresponds_told [OF this i, of ?n None] none
    have "corresponds pos (cl[i := ?n], ?pcs) (told i None (at_pc i ec s))" by simp
    moreover have "election_step (length cl) pos s (told i None (at_pc i ec s))"
      by (rule commit_busy) (use i e nx False in \<open>simp_all add: ec_def\<close>)
    moreover have "cluster_ok e pos (cl[i := ?n])" by (rule cluster_ok_update [OF ok]) (simp add: same_net_def list_all2_refl)
    ultimately show ?thesis using refines_step eq(3) by simp
  qed
qed

lemma commit_other_refines:
  assumes ok: "cluster_ok e pos cl" and co: "corresponds pos (cl, pcs) s" and i: "i < length cl" and p: "p < length cl" "p \<noteq> i"
    and pc: "pcs i = Committing (pos i i) (pos i p) cnt b"
    and c: "do_notify_leader_changed e (tracker_deal_commit_next_leader e) i (pos i p) (connections (servers_of (cl ! i) ! pos i i) ! 0) cl tp
      = (r, b', cl', tp')" and b': "\<not> b'"
  shows "refines e pos s (cl', pcs(i := after_call Committing (pos i i) (pos i p) cnt r b'))" (is "refines e pos s (cl', ?pcs)")
proof -
  define L where "L = connections (servers_of (cl ! i) ! pos i i) ! 0"
  obtain cl1 where ok1: "cluster_ok e pos cl1" and len: "length cl1 = length cl" and co1: "corresponds pos (cl1, pcs) s"
    and L: "listens (cl1 ! i) (ip_addr L) (conn_port L)" "addr_ok e (ip_addr L) (conn_port L)"
    and ab: "refines e pos s (cl1, pcs(i := Idle))" and res: "r \<noteq> 0 \<and> cl' = cl1 \<or>
      (\<exists>status n'. tracker_deal_commit_next_leader e (leader_body e L) (cl1 ! p) = (status, n') \<and> cl' = cl1[p := n'] \<and> (r = 0 \<longrightarrow> status = 0))"
    using request_spec [OF ok co i p(1) L_def c [folded L_def] b'] by metis
  have e: "e_pc s i = ECommit (pos i p)" using co i pc by (auto simp: corresponds_def)
  have lt: "pos i p < length cl" by (rule cluster_entry(3) [OF ok i p(1)])
  have idle: "?pcs = pcs(i := Idle)" if "r \<noteq> 0" using that b' by (simp add: after_call_def)
  from res show ?thesis
  proof (elim disjE exE conjE)
    fix status n' assume h: "tracker_deal_commit_next_leader e (leader_body e L) (cl1 ! p) = (status, n')"
      and cl': "cl' = cl1[p := n']" and st: "r = 0 \<longrightarrow> status = 0"
    from handler_commit [OF ok1 _ _ p(2) L h] i p(1) len
    consider "status \<noteq> 0" "n' = cl1 ! p"
      | "g_next_leader_index (cl1 ! p) = int (pos p i)" "n' = relationship_set_tracker_leader (int (pos p i)) False (cl1 ! p)" by auto
    then show ?thesis
    proof cases
      case 1
      with ab idle st cl' show ?thesis by simp
    next
      case 2
      define c where "c = (if r = 0 then ECommit (Suc (pos i p)) else EIdle)"
      have "corresponds pos (cl1, ?pcs) (at_pc i c s)"
        by (rule corresponds_pc [OF co1]) (use lt len b' in \<open>simp add: after_call_def c_def\<close>)
      then have "corresponds pos (cl1[p := n'], ?pcs) (told p None (at_pc i c s))"
        by (rule corresponds_told) (use p(1) len 2 in \<open>simp_all add: set_tracker_leader_simps\<close>)
      moreover have "e_next s p = Some i" using co1 p(1) i len 2(1) by (auto simp: corresponds_def)
      then have "election_step (length cl1) pos s (told p None (at_pc i c s))"
        using election_step.commit [of i "length cl1" p s pos c] i p e len by (simp add: c_def)
      moreover have "same_net (cl1 ! p) n'" by (simp add: 2 set_tracker_leader_simps)
      ultimately show ?thesis using refines_step [OF cluster_ok_update [OF ok1]] cl' by simp
    qed
  qed (use ab idle in simp)
qed

text \<open>Changes that the protocol does not see.\<close>

definition unseen :: "tracker_node \<Rightarrow> tracker_node \<Rightarrow> bool" where
  "unseen n n' \<longleftrightarrow> same_net n n' \<and> g_if_leader_self n' = g_if_leader_self n \<and> g_next_leader_index n' = g_next_leader_index n"

lemma corresponds_unseen:
  assumes "corresponds pos (cl, pcs) s" "unseen (cl ! i) n'"
  shows "corresponds pos (cl[i := n'], pcs) s"
proof (cases "i < length cl")
  case True
  with assms show ?thesis by (auto simp: corresponds_def unseen_def nth_list_update)
qed (use assms in \<open>simp add: list_update_beyond\<close>)

lemma refines_unseen:
  assumes "cluster_ok e pos cl" "corresponds pos (cl, pcs) s" "unseen (cl ! i) n'"
  shows "refines e pos s (cl[i := n'], pcs)"
  using refines_stutter [OF cluster_ok_update corresponds_unseen [OF assms(2,3)]] assms(1,3) by (simp add: unseen_def)

lemma get_status_kept:
  assumes ok: "cluster_ok e pos cl" and i: "i < length cl" and k: "k < length (servers_of (cl ! i))"
    and c: "relationship_get_tracker_status e i k cl tp = (st, cl', tp')"
  shows "kept cl cl'"
proof -
  obtain p where p: "p < length cl" "pos i p = k" using pos_ok_surj [OF cluster_env(2) [OF ok] i] k cluster_entry(2) [OF ok i i] by metis
  have "kept cl cl1" if "connect_tracker i k True cl tp0 = (err, peer, cl1, tp1)" for err peer cl1 tp0 tp1
    using connect_tracker_spec [OF ok i p(1)] that p(2) by blast
  then show ?thesis using c
    by (auto simp: relationship_get_tracker_status_def fdfs_get_tracker_status_def Let_def split: if_splits prod.splits option.splits)
qed

lemma local_service_iff:
  assumes "conn_eq_ok eq"
  shows "fdfs_server_contain_local_service eq ips s port \<longleftrightarrow> (\<exists>ip \<in> set ips. (ip, port) \<in> endpoints s)"
  by (induction ips) (auto simp: server_contain_iff [OF assms])

text \<open>The entry of a tracker in its own list is the one with its address.\<close>

lemma own_entry:
  assumes ok: "cluster_ok e pos cl" and i: "i < length cl" and p: "p < length cl"
  shows "fdfs_server_contain_local_service (re_eq e) (local_host_ips (cl ! i)) (servers_of (cl ! i) ! pos i p) (g_server_port (cl ! i)) \<longleftrightarrow> p = i"
proof -
  have eq: "conn_eq_ok (re_eq e)" using cluster_env(1) [OF ok] by (simp add: relation_env_ok_def)
  have ent: "entry_of e (cl ! p) (servers_of (cl ! i) ! pos i p)" by (rule cluster_entry(1) [OF ok i p])
  have "p = i" if "ip \<in> set (local_host_ips (cl ! i))" "(ip, g_server_port (cl ! i)) \<in> endpoints (servers_of (cl ! i) ! pos i p)" for ip
    using ent that cluster_listens_unique [OF ok p i, of ip "g_server_port (cl ! i)"] by (auto simp: entry_of_def listens_def)
  moreover have "\<exists>ip \<in> set (local_host_ips (cl ! i)). (ip, g_server_port (cl ! i)) \<in> endpoints (servers_of (cl ! i) ! pos i i)"
  proof -
    let ?s = "servers_of (cl ! i) ! pos i i"
    have "(ip_addr (connections ?s ! 0), conn_port (connections ?s ! 0)) \<in> endpoints ?s"
      using cluster_entry(1) [OF ok i i] by (auto simp: entry_of_def index_ok_def endpoints_def intro!: imageI nth_mem)
    with own_address [OF ok i refl] show ?thesis by (auto simp: listens_def)
  qed
  ultimately show ?thesis unfolding local_service_iff [OF eq] by blast
qed

lemma find_trunk_unseen: "find_trunk_servers e n tp = (n', tp') \<Longrightarrow> unseen n n'"
  by (auto simp: find_trunk_servers_def unseen_def same_net_def list_all2_refl split: prod.splits)

lemma same_entry_trans: "same_entry a b \<Longrightarrow> same_entry b c \<Longrightarrow> same_entry a c"
  by (simp add: same_entry_def)

lemma same_net_trans: "same_net a b \<Longrightarrow> same_net b c \<Longrightarrow> same_net a c"
  unfolding same_net_def by (elim conjE, intro conjI) (simp_all add: list_all2_trans [OF same_entry_trans])

lemma kept_trans: "kept cl cl1 \<Longrightarrow> kept cl1 cl2 \<Longrightarrow> kept cl cl2"
  unfolding kept_def list_all2_conv_all_nth using same_net_trans by (auto simp: same_vote_def)

lemma ping_leader_kept:
  assumes ok: "cluster_ok e pos cl" and i: "i < length cl" and l: "leader_of (cl ! i) < int (length cl)"
    and c: "relationship_ping_leader e i chg cl tp = (r, cl', tp')"
  shows "kept cl cl'"
proof (cases "g_if_leader_self (cl ! i) \<or> leader_of (cl ! i) < 0")
  case True
  with c show ?thesis by (auto simp: relationship_ping_leader_def Let_def split: if_splits)
next
  case False
  then have "nat (leader_of (cl ! i)) < length cl" using l by linarith
  then obtain p where p: "p < length cl" "pos i p = nat (leader_of (cl ! i))" using pos_ok_surj [OF cluster_env(2) [OF ok] i] by blast
  have con: "kept cl cl1" if "connect_tracker i (nat (leader_of (cl ! i))) False cl tp = (err, peer, cl1, tp1)" for err peer cl1 tp1
    using connect_tracker_spec [OF ok i p(1)] that p(2) by metis
  have grp: "kept cl (on_node i (\<lambda>n. n\<lparr>g_groups := gs\<rparr>) cl1)" if "kept cl cl1" for cl1 gs
    using that kept_length [OF that] i
    by (intro kept_trans [OF that] kept_on_node) (simp_all add: same_net_def same_vote_def list_all2_refl)
  show ?thesis
    using c False con grp unfolding relationship_ping_leader_def Let_def
    by (auto split: if_splits prod.splits option.splits)
qed

lemma ping_refines:
  assumes ok: "cluster_ok e pos cl" and co: "corresponds pos (cl, pcs) s" and i: "i < length cl"
    and l: "0 \<le> leader_of (cl ! i)" "leader_of (cl ! i) < int (length (servers_of (cl ! i)))"
    and c: "relationship_thread_round e i rnd b chg cl tp = (cl', tp')"
  shows "refines e pos s (cl', pcs)"
proof -
  obtain r cl1 tp1 where ping: "relationship_ping_leader e i chg cl tp = (r, cl1, tp1)" by (metis prod_cases3)
  have k: "kept cl cl1" using ping_leader_kept [OF ok i _ ping] l(2) cluster_entry(2) [OF ok i i] by simp
  note un = refines_unseen [OF kept_cluster_ok [OF ok k] corresponds_kept [OF co k], of i]
  have "refines e pos s (on_node i f cl1, pcs)" if "\<And>n. unseen n (f n)" for f
    unfolding on_node_def by (rule un) (rule that)
  then show ?thesis
    using c ping l(1,2) unfolding relationship_thread_round_def
    by (auto split: if_splits simp: unseen_def) (simp_all add: same_net_def list_all2_refl)
qed

lemma tracker_step_refines:
  assumes "tracker_step e True (cl, pcs) th'" and ok: "cluster_ok e pos cl" and co: "corresponds pos (cl, pcs) s"
  shows "refines e pos s th'"
  using assms(1)
proof cases
  case (poll i k tp st cl' tp')
  with refines_kept [OF ok co get_status_kept [OF ok]] show ?thesis by simp
next
  case (candidate i j b)
  obtain p where p: "p < length cl" "pos i p = j"
    using pos_ok_surj [OF cluster_env(2) [OF ok] candidate(2)] candidate(5) cluster_entry(2) [OF ok candidate(2,2)] by metis
  then have j: "j = pos i i" using own_entry [OF ok candidate(2) p(1)] candidate(6) by simp
  have "e_pc s i = EIdle" using co candidate(2,3) by (auto simp: corresponds_def)
  then have "election_step (length cl) pos s (at_pc i (ENotify 0) s)" using candidate(2) by (intro start)
  moreover have "corresponds pos (cl, pcs(i := Notifying j 0 0 b)) (at_pc i (ENotify 0) s)" by (rule corresponds_pc [OF co]) (simp add: j)
  ultimately show ?thesis using refines_step [OF ok] candidate(1) by simp
next
  case (follow i j)
  have "unseen (cl ! i) (set_leader (int j) (cl ! i))" by (simp add: unseen_def)
  with refines_unseen [OF ok co] follow(1) show ?thesis by (simp add: on_node_def)
next
  case (notify i j k cnt b tp r b' cl' tp')
  then have j: "j = pos i i" using co by (auto simp: corresponds_def)
  obtain p where p: "p < length cl" "k = pos i p"
    using pos_ok_surj [OF cluster_env(2) [OF ok] notify(2)] notify(4) cluster_entry(2) [OF ok notify(2,2)] by metis
  show ?thesis
  proof (cases "p = i")
    case True
    with notify_self_refines [OF ok co notify(2)] notify j p show ?thesis by (auto simp: relationship_notify_next_leader_def)
  next
    case False
    then have "j \<noteq> k" using j p pos_ok_inj [OF cluster_env(2) [OF ok] notify(2,2) p(1)] by auto
    with notify_other_refines [OF ok co notify(2) p(1) False] notify j p show ?thesis by (simp add: relationship_notify_next_leader_def)
  qed
next
  case (turn i j cnt b)
  have n: "length (servers_of (cl ! i)) = length cl" by (rule cluster_entry(2) [OF ok turn(2,2)])
  show ?thesis
  proof (cases "cnt = 0")
    case True
    with turn refines_step [OF ok abort corresponds_abort [OF co]] show ?thesis by simp
  next
    case False
    have e: "e_pc s i = ENotify (length cl)" "j = pos i i" using co turn(2,3) n by (auto simp: corresponds_def)
    have "corresponds pos (cl, pcs(i := Committing j 0 0 b)) (at_pc i (ECommit 0) s)" by (rule corresponds_pc [OF co]) (simp add: e)
    with turn(1,2) False refines_step [OF ok election_step.turn] e show ?thesis by simp
  qed
next
  case (commit i j k cnt b tp r b' cl' tp')
  then have j: "j = pos i i" using co by (auto simp: corresponds_def)
  obtain p where p: "p < length cl" "k = pos i p"
    using pos_ok_surj [OF cluster_env(2) [OF ok] commit(2)] commit(4) cluster_entry(2) [OF ok commit(2,2)] by metis
  show ?thesis
  proof (cases "p = i")
    case True
    with commit_self_refines [OF ok co commit(2)] commit j p show ?thesis by simp
  next
    case False
    then have "j \<noteq> k" using j p pos_ok_inj [OF cluster_env(2) [OF ok] commit(2,2) p(1)] by auto
    with commit_other_refines [OF ok co commit(2) p(1) False] commit j p show ?thesis by (simp add: relationship_commit_next_leader_def)
  qed
next
  case (over i j cnt b tp n' tp')
  have u: "unseen (cl ! i) n'" using over(4) find_trunk_unseen by (auto split: if_splits simp: unseen_def)
  have "corresponds pos (cl[i := n'], pcs(i := Idle)) (at_pc i EIdle s)" by (rule corresponds_unseen [OF corresponds_abort [OF co] u])
  moreover have "election_step (length (cl[i := n'])) pos s (at_pc i EIdle s)" using over(2) by (intro abort) simp
  moreover have "cluster_ok e pos (cl[i := n'])" using u by (intro cluster_ok_update [OF ok]) (simp add: unseen_def)
  ultimately show ?thesis using refines_step over(1) by simp
next
  case (ping i rnd b chg tp cl' tp')
  with ping_refines [OF ok co] show ?thesis by simp
next
  case (reselect i body status n')
  have net: "same_net (cl ! i) n'" "g_next_leader_index n' = g_next_leader_index (cl ! i)"
    "n' = cl ! i \<or> \<not> g_if_leader_self n'"
    using reselect(3) by (auto simp: tracker_deal_reselect_leader_def same_net_def list_all2_refl split: if_splits)
  show ?thesis
  proof (cases "n' = cl ! i")
    case True
    with reselect(1) refines_stutter [OF ok co] show ?thesis by simp
  next
    case False
    then have "corresponds pos (cl[i := n'], pcs) (leads i False s)" using corresponds_leads [OF co reselect(2) net(2)] net(3) by simp
    moreover have "election_step (length (cl[i := n'])) pos s (leads i False s)" using reselect(2) by (intro step_down) simp
    ultimately show ?thesis using refines_step [OF cluster_ok_update [OF ok net(1)]] reselect(1) by simp
  qed
next
  case (clock i t)
  have "unseen (cl ! i) ((cl ! i)\<lparr>g_current_time := t\<rparr>)" by (simp add: unseen_def same_net_def list_all2_refl)
  with refines_unseen [OF ok co] clock(1) show ?thesis by (simp add: on_node_def)
qed

section \<open>At most one leader\<close>

definition election_start :: "relation_env \<Rightarrow> (nat \<Rightarrow> nat \<Rightarrow> nat) \<Rightarrow> threads \<Rightarrow> bool" where
  "election_start e pos th \<longleftrightarrow> cluster_ok e pos (fst th) \<and> (\<forall>i. snd th i = Idle) \<and> (\<forall>n \<in> set (fst th). \<not> g_if_leader_self n)"

lemma start_corresponds:
  assumes "election_start e pos (cl, pcs)"
  shows "\<exists>s. election_init s \<and> corresponds pos (cl, pcs) s"
proof -
  have "\<exists>q. \<forall>x. q = Some x \<longleftrightarrow> x < length cl \<and> g_next_leader_index (cl ! i) = int (pos i x)" if i: "i < length cl" for i
  proof (cases "\<exists>x < length cl. g_next_leader_index (cl ! i) = int (pos i x)")
    case True
    then obtain y where y: "y < length cl" "g_next_leader_index (cl ! i) = int (pos i y)" by blast
    have "Some y = Some x \<longleftrightarrow> x < length cl \<and> g_next_leader_index (cl ! i) = int (pos i x)" for x
      using y next_iff [OF _ i y(1), of e pos x] assms by (simp add: election_start_def)
    then show ?thesis by blast
  qed auto
  then obtain f where f: "\<forall>i < length cl. \<forall>x. f i = Some x \<longleftrightarrow> x < length cl \<and> g_next_leader_index (cl ! i) = int (pos i x)" by metis
  define s where "s = \<lparr>e_lead = (\<lambda>_. False), e_next = f, e_pc = (\<lambda>_. EIdle)\<rparr>"
  have "election_init s" "corresponds pos (cl, pcs) s"
    using f assms by (auto simp: s_def election_init_def corresponds_def election_start_def)
  then show ?thesis by blast
qed

definition election_ok :: "relation_env \<Rightarrow> (nat \<Rightarrow> nat \<Rightarrow> nat) \<Rightarrow> threads \<Rightarrow> bool" where
  "election_ok e pos th \<longleftrightarrow> cluster_ok e pos (fst th) \<and> (\<exists>s. corresponds pos th s \<and> election_inv (length (fst th)) pos s)"

lemma request_lengths:
  "connect_tracker me k reset cl tp = (err, peer, cl1, tp1) \<Longrightarrow> length cl1 = length cl"
  "do_notify_leader_changed e handler me k L cl tp = (r, b', cl1, tp1) \<Longrightarrow> length cl1 = length cl"
  "fdfs_get_tracker_status e me k cl tp = (st, cl1, tp1) \<Longrightarrow> length cl1 = length cl"
  "relationship_ping_leader e me chg cl tp = (r, cl1, tp1) \<Longrightarrow> length cl1 = length cl"
proof -
  have con: "length cl1 = length cl" if "connect_tracker me k reset cl tp = (err, peer, cl1, tp1)" for me k reset cl tp err peer cl1 tp1
    using that by (auto simp: connect_tracker_def Let_def split: prod.splits)
  then show "connect_tracker me k reset cl tp = (err, peer, cl1, tp1) \<Longrightarrow> length cl1 = length cl" .
  show "do_notify_leader_changed e handler me k L cl tp = (r, b', cl1, tp1) \<Longrightarrow> length cl1 = length cl"
    by (auto simp: do_notify_leader_changed_def split: prod.splits option.splits if_splits dest: con)
  show "fdfs_get_tracker_status e me k cl tp = (st, cl1, tp1) \<Longrightarrow> length cl1 = length cl"
    by (auto simp: fdfs_get_tracker_status_def split: prod.splits option.splits if_splits dest: con)
  show "relationship_ping_leader e me chg cl tp = (r, cl1, tp1) \<Longrightarrow> length cl1 = length cl"
    by (auto simp: relationship_ping_leader_def Let_def split: prod.splits option.splits if_splits dest: con)
qed

lemma tracker_step_length: "tracker_step e b th th' \<Longrightarrow> length (fst th') = length (fst th)"
proof (induction rule: tracker_step.induct)
  case (poll i cl pcs k tp st cl' tp')
  then show ?case by (auto simp: relationship_get_tracker_status_def Let_def split: if_splits prod.splits dest: request_lengths(3))
next
  case (notify i cl pcs j k cnt b tp r b' cl' tp')
  then show ?case by (auto simp: relationship_notify_next_leader_def split: if_splits dest: request_lengths(2))
next
  case (commit i cl pcs j k cnt b tp r b' cl' tp')
  then show ?case by (auto simp: relationship_commit_next_leader_def split: if_splits dest: request_lengths(2))
next
  case (ping i cl pcs rnd b chg tp cl' tp')
  then show ?case by (auto simp: relationship_thread_round_def split: if_splits prod.splits dest: request_lengths(4))
qed simp_all

interpretation election_steps: step_system "election_start e pos" "tracker_step e True" "election_ok e pos" for e pos
proof
  fix th :: threads
  assume "election_start e pos th"
  with start_corresponds [of e pos "fst th" "snd th"] show "election_ok e pos th"
    using election_init_inv by (auto simp: election_ok_def election_start_def)
next
  fix th th' :: threads
  assume "election_ok e pos th" and step: "tracker_step e True th th'"
  then obtain s where s: "cluster_ok e pos (fst th)" "corresponds pos th s" "election_inv (length (fst th)) pos s"
    by (auto simp: election_ok_def)
  have "refines e pos s th'" using tracker_step_refines [of e "fst th" "snd th" th' pos s] s step by simp
  moreover have "length (fst th') = length (fst th)" by (rule tracker_step_length [OF step])
  ultimately show "election_ok e pos th'"
    using s election_step_inv [OF cluster_env(2)] by (auto simp: refines_def election_ok_def)
qed


text \<open>Two trackers; the first one is elected.\<close>

definition tracker_entry :: "string \<Rightarrow> TrackerServerInfo" where
  "tracker_entry ip = Shared_Func.sample_server [ip] 80"

definition sample_tracker :: "string \<Rightarrow> tracker_node" where
  "sample_tracker ip = \<lparr>g_tracker_servers = \<lparr>servers = map tracker_entry [''10.0.0.1'', ''10.0.0.2''], leader_index = -1\<rparr>,
     g_next_leader_index = -1, g_if_leader_self = False, g_tracker_leader_chg_count = 0, g_server_port = 80,
     local_host_ips = [ip], g_groups = id_groups, g_trunk_server_chg_count = 0, g_current_time = 100, g_up_time = 100,
     g_last_check_time = 0, fail_count = 0, sleep_seconds = 1\<rparr>"

definition sample_env :: relation_env where
  "sample_env = \<lparr>re_split = split_cols, re_eq = plain_eq, re_conf = Tracker_Groups.sample_conf, re_ip_size = 16, re_task_size = 1024\<rparr>"

definition sample_cluster :: cluster where
  "sample_cluster = [sample_tracker ''10.0.0.1'', sample_tracker ''10.0.0.2'']"

definition elect_notified :: cluster where
  "elect_notified = fst (snd (snd (relationship_notify_next_leader sample_env 0 0 1 False
     (fst (snd (snd (relationship_notify_next_leader sample_env 0 0 0 False sample_cluster [])))) [])))"

definition elect_committed :: cluster where
  "elect_committed = fst (snd (snd (relationship_commit_next_leader sample_env 0 0 1 False
     (fst (snd (snd (relationship_commit_next_leader sample_env 0 0 0 False elect_notified [])))) [])))"

lemma less_2: "i < 2 \<longleftrightarrow> i = 0 \<or> i = (1::nat)"
  by auto

lemma sample_cluster_ok: "cluster_ok sample_env (\<lambda>i p. p) sample_cluster"
proof -
  have "relation_env_ok sample_env"
    by (simp add: relation_env_ok_def sample_env_def split_cols_ok plain_eq_ok Tracker_Groups.sample_conf_def fc_impl_ok)
  moreover have "pos_ok 2 (\<lambda>i p. p)" by (simp add: pos_ok_def bij_betw_def)
  moreover have "entry_of sample_env (sample_tracker ip) (tracker_entry ip)" if "ip \<in> {''10.0.0.1'', ''10.0.0.2''}" for ip
  proof -
    have "length (fmt_d 80) = 2" by code_simp
    with that show ?thesis
      by (auto simp: entry_of_def index_ok_def endpoints_def tracker_entry_def Shared_Func.sample_server_def listens_def sample_tracker_def
        addr_ok_def sample_env_def)
  qed
  moreover have "listens (sample_tracker a) ip port \<longleftrightarrow> ip = a \<and> port = 80" for a ip port by (auto simp: listens_def sample_tracker_def)
  moreover have "servers_of (sample_tracker a) = [tracker_entry ''10.0.0.1'', tracker_entry ''10.0.0.2'']" for a by (simp add: sample_tracker_def)
  moreover have "length sample_cluster = 2" "sample_cluster ! 0 = sample_tracker ''10.0.0.1''" "sample_cluster ! 1 = sample_tracker ''10.0.0.2''"
    by (simp_all add: sample_cluster_def)
  ultimately show ?thesis unfolding cluster_ok_def by (simp add: less_2 all_conj_distrib imp_conjR)
qed

lemma elect_steps: "(tracker_step sample_env True)\<^sup>*\<^sup>* (sample_cluster, \<lambda>_. Idle) (elect_committed, (\<lambda>_. Idle)(0 := Committing 0 2 2 False))"
proof -
  let ?pc = "\<lambda>c. (\<lambda>_. Idle)(0 := c) :: nat \<Rightarrow> relation_pc"
  define c1 where "c1 = fst (snd (snd (relationship_notify_next_leader sample_env 0 0 0 False sample_cluster [])))"
  define c3 where "c3 = fst (snd (snd (relationship_commit_next_leader sample_env 0 0 0 False elect_notified [])))"
  have len: "length c = 2 \<and> length (servers_of (c ! 0)) = 2" if "c \<in> {sample_cluster, c1, elect_notified, c3}" for c
    using that unfolding c1_def c3_def by (elim insertE emptyE; hypsubst; code_simp)
  have n1: "relationship_notify_next_leader sample_env 0 0 0 False sample_cluster [] = (0, False, c1, [])" unfolding c1_def by code_simp
  have n2: "relationship_notify_next_leader sample_env 0 0 1 False c1 [] = (0, False, elect_notified, [])" unfolding c1_def by code_simp
  have m1: "relationship_commit_next_leader sample_env 0 0 0 False elect_notified [] = (0, False, c3, [])" unfolding c3_def by code_simp
  have m2: "relationship_commit_next_leader sample_env 0 0 1 False c3 [] = (0, False, elect_committed, [])" unfolding c3_def by code_simp
  have s0: "tracker_step sample_env True (sample_cluster, \<lambda>_. Idle) (sample_cluster, ?pc (Notifying 0 0 0 False))"
    using len by (intro candidate) (simp_all, code_simp+)
  have s1: "tracker_step sample_env True (sample_cluster, ?pc (Notifying 0 0 0 False)) (c1, ?pc (Notifying 0 1 1 False))"
    using tracker_step.notify [of 0 sample_cluster "?pc (Notifying 0 0 0 False)" 0 0 0 False sample_env "[]", OF _ _ _ n1] len by (simp add: after_call_def)
  have s2: "tracker_step sample_env True (c1, ?pc (Notifying 0 1 1 False)) (elect_notified, ?pc (Notifying 0 2 2 False))"
    using tracker_step.notify [of 0 c1 "?pc (Notifying 0 1 1 False)" 0 1 1 False sample_env "[]", OF _ _ _ n2] len by (simp add: after_call_def numeral_2_eq_2)
  have s3: "tracker_step sample_env True (elect_notified, ?pc (Notifying 0 2 2 False)) (elect_notified, ?pc (Committing 0 0 0 False))"
    using tracker_step.turn [of 0 elect_notified "?pc (Notifying 0 2 2 False)" 0 2 False sample_env True] len by simp
  have s4: "tracker_step sample_env True (elect_notified, ?pc (Committing 0 0 0 False)) (c3, ?pc (Committing 0 1 1 False))"
    using tracker_step.commit [of 0 elect_notified "?pc (Committing 0 0 0 False)" 0 0 0 False sample_env "[]", OF _ _ _ m1] len by (simp add: after_call_def)
  have s5: "tracker_step sample_env True (c3, ?pc (Committing 0 1 1 False)) (elect_committed, ?pc (Committing 0 2 2 False))"
    using tracker_step.commit [of 0 c3 "?pc (Committing 0 1 1 False)" 0 1 1 False sample_env "[]", OF _ _ _ m2] len by (simp add: after_call_def numeral_2_eq_2)
  from s0 s1 s2 s3 s4 s5 show ?thesis by (meson converse_rtranclp_into_rtranclp rtranclp.rtrancl_refl)
qed


end
