(* ===== verification/Tracker_Liveness.thy ===== *)
theory Tracker_Liveness
  imports Tracker_Election
begin

text \<open>
  When nothing fails the trackers agree on a leader. The threads run one round at a time,
  in any order; the trackers have the same list of addresses, know at least one group, and
  there is at most one leader at the start. After four rounds of every tracker all trackers
  follow the same leader: a tracker needs up to three rounds to find out that a tracker it
  follows does not lead, and one to find the leader or to be elected.
\<close>

section \<open>Choosing the candidate\<close>

definition status_in_range :: "TrackerServerInfo list \<Rightarrow> TrackerRunningStatus \<Rightarrow> bool" where
  "status_in_range srvs st \<longleftrightarrow> 0 \<le> running_time st \<and> running_time st < 2 ^ 31 \<and> 0 \<le> restart_interval st \<and> restart_interval st < 2 ^ 31 \<and>
     0 \<le> conn_port (connections (srvs ! status_server st) ! 0) \<and> conn_port (connections (srvs ! status_server st) ! 0) < 2 ^ 16"

definition status_order :: "TrackerServerInfo list \<Rightarrow> TrackerRunningStatus \<Rightarrow> TrackerRunningStatus \<Rightarrow> int" where
  "status_order srvs =
     lex_cmp (\<lambda>x y. of_bool (if_leader x) - of_bool (if_leader y))
       (lex_cmp (\<lambda>x y. running_time x - running_time y)
         (lex_cmp (\<lambda>x y. restart_interval y - restart_interval x)
           (lex_cmp (\<lambda>x y. strcmp (ip_addr (connections (srvs ! status_server x) ! 0)) (ip_addr (connections (srvs ! status_server y) ! 0)))
             (\<lambda>x y. conn_port (connections (srvs ! status_server x) ! 0) - conn_port (connections (srvs ! status_server y) ! 0)))))"

lemma comparison_status_order: "comparison (status_order srvs) (\<lambda>_. True)"
  unfolding status_order_def
  by (intro comparison_lex comparison_key_int_down comparison_key_str comparison_key_int)

lemma status_order_cmp:
  assumes "status_in_range srvs x" "status_in_range srvs y"
  shows "relationship_cmp_tracker_status srvs x y = status_order srvs x y"
proof -
  have c: "c_int (a - b) = a - b" if "0 \<le> a" "a < 2 ^ 31" "0 \<le> b" "b < 2 ^ 31" for a b
    using that by (intro c_int_id) (simp add: in_i32_def)
  show ?thesis using assms c unfolding status_in_range_def relationship_cmp_tracker_status_def status_order_def lex_cmp_def Let_def by simp
qed

interpretation status_cmp: comparison "relationship_cmp_tracker_status srvs" "status_in_range srvs" for srvs
  by (rule comparison_on [OF comparison_status_order]) (rule status_order_cmp)

section \<open>Calls when nothing fails\<close>

text \<open>Trackers that differ only in their sockets and the preferred addresses of their list.\<close>

definition socks :: "tracker_node \<Rightarrow> tracker_node \<Rightarrow> bool" where
  "socks n n' \<longleftrightarrow> same_net n n' \<and> leader_of n' = leader_of n \<and> n'\<lparr>g_tracker_servers := g_tracker_servers n\<rparr> = n"

lemma socks_fields:
  assumes "socks n n'"
  shows "same_net n n'" "leader_of n' = leader_of n" "g_next_leader_index n' = g_next_leader_index n"
    "g_if_leader_self n' = g_if_leader_self n" "g_server_port n' = g_server_port n" "local_host_ips n' = local_host_ips n"
    "g_groups n' = g_groups n" "g_trunk_server_chg_count n' = g_trunk_server_chg_count n" "g_current_time n' = g_current_time n"
    "g_up_time n' = g_up_time n" "g_last_check_time n' = g_last_check_time n" "fail_count n' = fail_count n"
  using assms by (cases n; cases n'; simp add: socks_def)+

lemma socks_refl [simp]: "socks n n"
  by (simp add: socks_def)

lemma socks_trans: "socks a b \<Longrightarrow> socks b c \<Longrightarrow> socks a c"
  by (cases a; cases b; cases c) (auto simp: socks_def intro: same_net_trans)

lemma socks_cl_trans: "list_all2 socks xs ys \<Longrightarrow> list_all2 socks ys zs \<Longrightarrow> list_all2 socks xs zs"
  by (rule list_all2_trans [OF socks_trans])

lemma socks_kept: "list_all2 socks cl cl' \<Longrightarrow> kept cl cl'"
  unfolding kept_def by (erule list_all2_mono) (auto simp: same_vote_def dest: socks_fields)

lemma connect_quiet:
  assumes ok: "cluster_ok e pos cl" and me: "me < length cl" and p: "p < length cl"
  obtains cl1 where "connect_tracker me (pos me p) reset cl [] = (0, Some p, cl1, [])" "list_all2 socks cl cl1"
proof -
  define s where "s = servers_of (cl ! me) ! pos me p"
  define s0 where "s0 = (if reset then fdfs_server_sock_reset s else s)"
  define c where "c = connections s0 ! nat (server_index s0)"
  have ent: "entry_of e (cl ! p) s" unfolding s_def by (rule cluster_entry(1) [OF ok me p])
  have s0: "same_entry s s0" by (simp add: s0_def sock_reset_same)
  then have "index_ok s0" using ent by (simp add: same_entry_def entry_of_def)
  then have "c \<in> set (connections s0)" by (simp add: c_def index_ok_def)
  then have "(ip_addr c, conn_port c) \<in> endpoints s" using same_entry_endpoints [OF s0] by (auto simp: endpoints_def)
  then have "listens (cl ! p) (ip_addr c) (conn_port c)" using ent unfolding entry_of_def by blast
  then have l: "listener cl c = Some p" by (rule listener_entry [OF ok p])
  then have con: "tracker_connect_server_ex (node_dial cl) s0 [] = (0, Some c, s0, [])"
    by (simp add: tracker_connect_server_ex_def c_def [symmetric] node_dial_def Let_def)
  have "socks (cl ! me) (set_server (pos me p) s0 (cl ! me))"
    using same_net_set_server [of "cl ! me" "pos me p" s0] s0 by (simp add: socks_def s_def) (simp add: set_server_def)
  then have "list_all2 socks cl (on_node me (set_server (pos me p) s0) cl)"
    using me by (simp add: list_all2_conv_all_nth)
  moreover have "connect_tracker me (pos me p) reset cl [] = (0, Some p, on_node me (set_server (pos me p) s0) cl, [])"
    unfolding connect_tracker_def Let_def s_def [symmetric] s0_def [symmetric] con by (simp add: l)
  ultimately show thesis using that by blast
qed

text \<open>A request of the election, answered.\<close>

lemma do_notify_quiet:
  assumes ok: "cluster_ok e pos cl" and me: "me < length cl" and p: "p < length cl"
  obtains cl1 where "list_all2 socks cl cl1"
    "\<And>status n'. handler (leader_body e L) (cl1 ! p) = (status, n') \<Longrightarrow>
      do_notify_leader_changed e handler me (pos me p) L cl [] = (status, False, cl1[p := n'], [])"
proof -
  obtain cl1 where c: "connect_tracker me (pos me p) True cl [] = (0, Some p, cl1, [])" "list_all2 socks cl cl1"
    by (rule connect_quiet [OF ok me p])
  have "do_notify_leader_changed e handler me (pos me p) L cl [] = (status, False, cl1[p := n'], [])"
    if "handler (leader_body e L) (cl1 ! p) = (status, n')" for status n'
    by (simp add: do_notify_leader_changed_def c that fdfs_recv_response_def fdfs_recv_header_ex_def no_body_def)
  with c(2) show thesis using that by blast
qed

section \<open>The states the trackers report\<close>

text \<open>
  A tracker that answers requests for its state and pings: it knows a group, the list of its trunk
  servers fits the buffers, and its times fit an \<open>int\<close>.
\<close>

definition tracker_ready :: "relation_env \<Rightarrow> tracker_node \<Rightarrow> bool" where
  "tracker_ready e n \<longleftrightarrow> groups (g_groups n) \<noteq> [] \<and> length (groups (g_groups n)) \<le> 512 \<and>
     32 * length (groups (g_groups n)) + 10 \<le> re_task_size e \<and>
     0 \<le> fst (tracker_calc_running_times n) \<and> fst (tracker_calc_running_times n) < 2 ^ 31 \<and>
     0 \<le> snd (tracker_calc_running_times n) \<and> snd (tracker_calc_running_times n) < 2 ^ 31"

definition seen :: "(nat \<Rightarrow> nat \<Rightarrow> nat) \<Rightarrow> cluster \<Rightarrow> nat \<Rightarrow> nat \<Rightarrow> TrackerRunningStatus" where
  "seen pos cl i p = \<lparr>status_server = pos i p, running_time = fst (tracker_calc_running_times (cl ! p)),
     restart_interval = snd (tracker_calc_running_times (cl ! p)), if_leader = g_if_leader_self (cl ! p)\<rparr>"

lemma socks_times: "socks n n' \<Longrightarrow> tracker_calc_running_times n' = tracker_calc_running_times n"
  by (simp add: tracker_calc_running_times_def socks_fields)

lemma socks_ready: "socks n n' \<Longrightarrow> tracker_ready e n' = tracker_ready e n"
  by (simp add: tracker_ready_def socks_times socks_fields)

lemma socks_seen: "list_all2 socks cl cl' \<Longrightarrow> p < length cl \<Longrightarrow> seen pos cl' i p = seen pos cl i p"
  using list_all2_nthD [of socks cl cl' p] by (simp add: seen_def socks_times socks_fields)

lemma socks_cluster_ok: "list_all2 socks cl cl' \<Longrightarrow> cluster_ok e pos cl \<Longrightarrow> cluster_ok e pos cl'"
  using kept_cluster_ok socks_kept by blast

lemma status_answer:
  assumes F: "fc_ok F" and rd: "tracker_ready e n"
  shows "\<exists>body. tracker_deal_get_tracker_status F [] n = (0, body) \<and> length body = 17 \<and>
    (hd body \<noteq> 0 \<longleftrightarrow> g_if_leader_self n) \<and>
    c_int (buff2long F (take 8 (drop 1 body))) = fst (tracker_calc_running_times n) \<and>
    c_int (buff2long F (take 8 (drop 9 body))) = snd (tracker_calc_running_times n)"
proof -
  obtain a b where t: "tracker_calc_running_times n = (a, b)" by fastforce
  have r: "in_i64 a" "in_i64 b" "c_int a = a" "c_int b = b"
    using rd by (simp_all add: tracker_ready_def t in_i64_def c_int_def)
  then show ?thesis
    using rd fc_int2buff [OF F] fc_buff2long [OF F]
    by (simp add: tracker_deal_get_tracker_status_def t tracker_ready_def numeral_nat)
qed

lemma get_status_quiet:
  assumes ok: "cluster_ok e pos cl" and i: "i < length cl" and p: "p < length cl" and rd: "tracker_ready e (cl ! p)"
  obtains cl1 where "relationship_get_tracker_status e i (pos i p) cl [] = (Inr (seen pos cl i p), cl1, [])" "list_all2 socks cl cl1"
proof (cases "p = i")
  case True
  then have "fdfs_server_contain_local_service (re_eq e) (local_host_ips (cl ! i)) (servers_of (cl ! i) ! pos i p) (g_server_port (cl ! i))"
    using own_entry [OF ok i p] by simp
  then have "relationship_get_tracker_status e i (pos i p) cl [] = (Inr (seen pos cl i p), cl, [])"
    using True by (simp add: relationship_get_tracker_status_def Let_def seen_def split: prod.splits)
  then show thesis using that list_all2_refl [of socks cl] by simp
next
  case False
  then have nl: "\<not> fdfs_server_contain_local_service (re_eq e) (local_host_ips (cl ! i)) (servers_of (cl ! i) ! pos i p) (g_server_port (cl ! i))"
    using own_entry [OF ok i p] by simp
  obtain cl1 where c: "connect_tracker i (pos i p) True cl [] = (0, Some p, cl1, [])" "list_all2 socks cl cl1"
    by (rule connect_quiet [OF ok i p])
  have sk: "socks (cl ! p) (cl1 ! p)" using list_all2_nthD [OF c(2) p] .
  have F: "fc_ok (re_fc e)" using cluster_env(1) [OF ok] by (simp add: relation_env_ok_def)
  from status_answer [OF this, of e "cl1 ! p"] rd socks_ready [OF sk] obtain body where
    b: "tracker_deal_get_tracker_status (re_fc e) [] (cl1 ! p) = (0, body)" "length body = 17" "hd body \<noteq> 0 \<longleftrightarrow> g_if_leader_self (cl1 ! p)"
      "c_int (buff2long (re_fc e) (take 8 (drop 1 body))) = fst (tracker_calc_running_times (cl1 ! p))"
      "c_int (buff2long (re_fc e) (take 8 (drop 9 body))) = snd (tracker_calc_running_times (cl1 ! p))" by blast
  have "relationship_get_tracker_status e i (pos i p) cl [] = (Inr (seen pos cl i p), cl1, [])"
    using b nl socks_times [OF sk] socks_fields(4) [OF sk]
    by (simp add: relationship_get_tracker_status_def Let_def fdfs_get_tracker_status_def c(1) fdfs_recv_response_def
      fdfs_recv_header_ex_def seen_def)
  then show thesis using that c(2) by blast
qed

lemma status_loop_quiet:
  assumes "cluster_ok e pos cl" "i < length cl" "\<forall>p < length cl. tracker_ready e (cl ! p)"
  shows "\<forall>k \<in> set ks. k < length cl \<Longrightarrow> \<exists>sts' cl'. status_loop e i ks r sts cl [] = (r, sts @ sts', cl', []) \<and>
    set sts' = {seen pos cl i p |p. p < length cl \<and> pos i p \<in> set ks} \<and> list_all2 socks cl cl'"
  using assms
proof (induction ks arbitrary: sts cl)
  case Nil
  then show ?case by (simp add: list_all2_refl)
next
  case (Cons k ks)
  obtain p where p: "p < length cl" "pos i p = k"
    using pos_ok_surj [OF cluster_env(2) [OF Cons.prems(2)] Cons.prems(3)] Cons.prems(1) by auto
  obtain cl1 where c: "relationship_get_tracker_status e i k cl [] = (Inr (seen pos cl i p), cl1, [])" "list_all2 socks cl cl1"
    using get_status_quiet [OF Cons.prems(2,3) p(1)] Cons.prems(4) p by metis
  have len: "length cl1 = length cl" using list_all2_lengthD [OF c(2)] by simp
  have rd: "\<forall>p < length cl1. tracker_ready e (cl1 ! p)"
    using Cons.prems(4) socks_ready list_all2_nthD [OF c(2)] unfolding len by blast
  have "\<exists>sts' cl'. status_loop e i ks r (sts @ [seen pos cl i p]) cl1 [] = (r, (sts @ [seen pos cl i p]) @ sts', cl', []) \<and>
    set sts' = {seen pos cl1 i p |p. p < length cl1 \<and> pos i p \<in> set ks} \<and> list_all2 socks cl1 cl'"
    by (rule Cons.IH) (use Cons.prems len rd socks_cluster_ok [OF c(2)] in simp_all)
  then obtain sts' cl' where l: "status_loop e i ks r (sts @ [seen pos cl i p]) cl1 [] = (r, (sts @ [seen pos cl i p]) @ sts', cl', [])"
    "set sts' = {seen pos cl1 i p |p. p < length cl1 \<and> pos i p \<in> set ks}" "list_all2 socks cl1 cl'" by blast
  have s: "set sts' = {seen pos cl i p |p. p < length cl \<and> pos i p \<in> set ks}"
    using l(2) socks_seen [OF c(2), of _ pos i] len by auto
  have "set (seen pos cl i p # sts') = {seen pos cl i p |p. p < length cl \<and> pos i p \<in> set (k # ks)}"
  proof -
    have "q < length cl \<and> pos i q = k \<longleftrightarrow> q = p" for q
      using pos_ok_inj [OF cluster_env(2) [OF Cons.prems(2)] Cons.prems(3) p(1), of q] p by metis
    then have "{q. q < length cl \<and> pos i q \<in> set (k # ks)} = insert p {q. q < length cl \<and> pos i q \<in> set ks}"
      unfolding set_eq_iff list.set mem_Collect_eq insert_iff by blast
    then have "seen pos cl i ` {q. q < length cl \<and> pos i q \<in> set (k # ks)} = insert (seen pos cl i p) (set sts')"
      unfolding s setcompr_eq_image by (simp only: image_insert)
    then show ?thesis unfolding setcompr_eq_image by (simp only: list.set)
  qed
  then show ?case
    using l(1,3) c socks_cl_trans by (intro exI [of _ "seen pos cl i p # sts'"] exI [of _ cl']) auto
qed

text \<open>Tracker \<open>p\<close> has the address \<open>addr p\<close> in the list of every tracker.\<close>

definition same_addrs :: "(nat \<Rightarrow> nat \<Rightarrow> nat) \<Rightarrow> (nat \<Rightarrow> string \<times> int) \<Rightarrow> cluster \<Rightarrow> bool" where
  "same_addrs pos addr cl \<longleftrightarrow>
     (\<forall>p < length cl. 0 \<le> snd (addr p) \<and> snd (addr p) < 2 ^ 16) \<and>
     (\<forall>i < length cl. \<forall>p < length cl. ip_addr (connections (servers_of (cl ! i) ! pos i p) ! 0) = fst (addr p) \<and>
        conn_port (connections (servers_of (cl ! i) ! pos i p) ! 0) = snd (addr p))"

lemma same_addrs_net:
  assumes "same_addrs pos addr cl" "list_all2 same_net cl cl'" "cluster_ok e pos cl"
  shows "same_addrs pos addr cl'"
proof -
  have len: "length cl' = length cl" using list_all2_lengthD [OF assms(2)] by simp
  have "ip_addr (connections (servers_of (cl' ! i) ! pos i p) ! 0) = fst (addr p) \<and>
        conn_port (connections (servers_of (cl' ! i) ! pos i p) ! 0) = snd (addr p)" if i: "i < length cl" and p: "p < length cl" for i p
  proof -
    let ?s = "servers_of (cl ! i) ! pos i p" and ?s' = "servers_of (cl' ! i) ! pos i p"
    have "same_net (cl ! i) (cl' ! i)" by (rule list_all2_nthD [OF assms(2) i])
    then have "same_entry ?s ?s'"
      using cluster_entry(2,3) [OF assms(3) i p] list_all2_nthD [of same_entry "servers_of (cl ! i)" "servers_of (cl' ! i)" "pos i p"]
      by (simp add: same_net_def)
    then have m: "map (\<lambda>c. (ip_addr c, conn_port c)) (connections ?s') = map (\<lambda>c. (ip_addr c, conn_port c)) (connections ?s)"
      by (simp add: same_entry_def)
    have "0 < length (connections ?s)" using cluster_entry(1) [OF assms(3) i p] by (auto simp: entry_of_def index_ok_def)
    moreover have "length (connections ?s') = length (connections ?s)" using m by (rule map_eq_imp_length_eq)
    ultimately have "(ip_addr (connections ?s' ! 0), conn_port (connections ?s' ! 0)) = (ip_addr (connections ?s ! 0), conn_port (connections ?s ! 0))"
      using m by (metis (no_types, lifting) nth_map)
    then show ?thesis using assms(1) i p by (simp add: same_addrs_def)
  qed
  then show ?thesis using assms(1) len by (simp add: same_addrs_def)
qed

text \<open>The order of the trackers does not depend on who compares them.\<close>

definition tracker_order :: "(nat \<Rightarrow> string \<times> int) \<Rightarrow> cluster \<Rightarrow> nat \<Rightarrow> nat \<Rightarrow> int" where
  "tracker_order addr cl =
     lex_cmp (\<lambda>p q. of_bool (g_if_leader_self (cl ! p)) - of_bool (g_if_leader_self (cl ! q)))
       (lex_cmp (\<lambda>p q. fst (tracker_calc_running_times (cl ! p)) - fst (tracker_calc_running_times (cl ! q)))
         (lex_cmp (\<lambda>p q. snd (tracker_calc_running_times (cl ! q)) - snd (tracker_calc_running_times (cl ! p)))
           (lex_cmp (\<lambda>p q. strcmp (fst (addr p)) (fst (addr q))) (\<lambda>p q. snd (addr p) - snd (addr q)))))"

interpretation order_cmp: comparison "tracker_order addr cl" "\<lambda>_. True" for addr cl
  unfolding tracker_order_def
  by (intro comparison_lex comparison_key_int_down comparison_key_str comparison_key_int)

lemma seen_in_range:
  assumes "same_addrs pos addr cl1" "length cl1 = length cl" "i < length cl" "p < length cl" "tracker_ready e (cl ! p)"
  shows "status_in_range (servers_of (cl1 ! i)) (seen pos cl i p)"
  using assms by (simp add: status_in_range_def seen_def same_addrs_def tracker_ready_def)

lemma cmp_seen:
  assumes "same_addrs pos addr cl1" "length cl1 = length cl" "i < length cl" "p < length cl" "q < length cl"
    and "tracker_ready e (cl ! p)" "tracker_ready e (cl ! q)"
  shows "relationship_cmp_tracker_status (servers_of (cl1 ! i)) (seen pos cl i p) (seen pos cl i q) = tracker_order addr cl p q"
  using assms unfolding status_order_cmp [OF seen_in_range [OF assms(1-4,6)] seen_in_range [OF assms(1-3,5,7)]]
  by (simp add: status_order_def tracker_order_def lex_cmp_def seen_def same_addrs_def)

lemma get_leader_quiet:
  assumes ok: "cluster_ok e pos cl" and i: "i < length cl" and rd: "\<forall>p < length cl. tracker_ready e (cl ! p)" and ad: "same_addrs pos addr cl"
  obtains c cl1 where "relationship_get_tracker_leader e i cl [] = (Inr (seen pos cl i c), cl1, [])" "list_all2 socks cl cl1"
    "c < length cl" "\<forall>p < length cl. p \<noteq> c \<longrightarrow> tracker_order addr cl p c \<le> 0"
proof -
  let ?ks = "[0..<length (servers_of (cl ! i))]"
  have n: "length (servers_of (cl ! i)) = length cl" by (rule cluster_entry(2) [OF ok i i])
  obtain sts cl1 where l: "status_loop e i ?ks 0 [] cl [] = (0, [] @ sts, cl1, [])"
    "set sts = {seen pos cl i p |p. p < length cl \<and> pos i p \<in> set ?ks}" "list_all2 socks cl cl1"
    using status_loop_quiet [OF ok i rd, of ?ks 0 "[]"] n by auto
  have sts: "set sts = seen pos cl i ` {..<length cl}" using l(2) n cluster_entry(3) [OF ok i] by auto
  define st where "st = last (qsort_by (relationship_cmp_tracker_status (servers_of (cl1 ! i))) sts)"
  have ne: "sts \<noteq> []" using sts i by auto
  then have "st \<in> set sts" using last_in_set [of "qsort_by (relationship_cmp_tracker_status (servers_of (cl1 ! i))) sts"] by (simp add: st_def)
  then obtain c where c: "c < length cl" "st = seen pos cl i c" using sts by auto
  have net: "list_all2 same_net cl cl1" using l(3) by (rule list_all2_mono) (simp add: socks_def)
  note ad1 = same_addrs_net [OF ad net ok] and len = list_all2_lengthD [OF net, symmetric]
  have "\<forall>x \<in> set sts. status_in_range (servers_of (cl1 ! i)) x" using sts seen_in_range [OF ad1 len i] rd by auto
  note last = status_cmp.qsort_last [OF this, folded st_def]
  have "tracker_order addr cl p c \<le> 0" if p: "p < length cl" "p \<noteq> c" for p
  proof -
    have "seen pos cl i p \<noteq> seen pos cl i c"
      using pos_ok_inj [OF cluster_env(2) [OF ok] i p(1) c(1)] p(2) by (auto simp: seen_def)
    then have "relationship_cmp_tracker_status (servers_of (cl1 ! i)) (seen pos cl i p) (seen pos cl i c) \<le> 0"
      using last [of "seen pos cl i p"] sts p(1) c(2) by auto
    then show ?thesis using cmp_seen [OF ad1 len i p(1) c(1), of e] rd p(1) c(1) by simp
  qed
  moreover have "relationship_get_tracker_leader e i cl [] = (Inr (seen pos cl i c), cl1, [])"
    using l(1) ne c(2) by (simp add: relationship_get_tracker_leader_def st_def [symmetric])
  ultimately show thesis using that l(3) c(1) by blast
qed

section \<open>Trackers that stay as they are\<close>

text \<open>What no call changes: addresses, running times and the number of groups.\<close>

definition steady :: "tracker_node \<Rightarrow> tracker_node \<Rightarrow> bool" where
  "steady n n' \<longleftrightarrow> same_net n n' \<and> tracker_calc_running_times n' = tracker_calc_running_times n \<and>
     length (groups (g_groups n')) = length (groups (g_groups n))"

text \<open>What the election changes.\<close>

definition vote :: "tracker_node \<Rightarrow> int \<times> bool \<times> int \<times> int" where
  "vote n = (g_next_leader_index n, g_if_leader_self n, leader_of n, fail_count n)"

definition calm :: "relation_env \<Rightarrow> (nat \<Rightarrow> nat \<Rightarrow> nat) \<Rightarrow> (nat \<Rightarrow> string \<times> int) \<Rightarrow> cluster \<Rightarrow> bool" where
  "calm e pos addr cl \<longleftrightarrow> cluster_ok e pos cl \<and> same_addrs pos addr cl \<and> (\<forall>p < length cl. tracker_ready e (cl ! p))"

text \<open>Only the vote of tracker \<open>p\<close> changes, to \<open>x\<close>.\<close>

definition changed :: "cluster \<Rightarrow> nat \<Rightarrow> int \<times> bool \<times> int \<times> int \<Rightarrow> cluster \<Rightarrow> bool" where
  "changed cl p x cl' \<longleftrightarrow> list_all2 steady cl cl' \<and> (\<forall>q < length cl. vote (cl' ! q) = (if q = p then x else vote (cl ! q)))"

lemma steady_refl [simp]: "steady n n"
  by (simp add: steady_def)

lemma steady_trans: "steady a b \<Longrightarrow> steady b c \<Longrightarrow> steady a c"
  by (auto simp: steady_def intro: same_net_trans)

lemma steady_cl_trans: "list_all2 steady xs ys \<Longrightarrow> list_all2 steady ys zs \<Longrightarrow> list_all2 steady xs zs"
  by (rule list_all2_trans [OF steady_trans])

lemma socks_steady: "socks n n' \<Longrightarrow> steady n n' \<and> vote n' = vote n"
  by (simp add: steady_def vote_def socks_fields socks_times)

lemma socks_steady_cl: "list_all2 socks cl cl' \<Longrightarrow> list_all2 steady cl cl'"
  by (erule list_all2_mono) (simp add: socks_steady)

lemma calmD:
  assumes "calm e pos addr cl"
  shows "cluster_ok e pos cl" "same_addrs pos addr cl" "\<forall>p < length cl. tracker_ready e (cl ! p)"
  using assms by (simp_all add: calm_def)

lemma steady_calm:
  assumes "list_all2 steady cl cl'" "calm e pos addr cl"
  shows "calm e pos addr cl'"
proof -
  have net: "list_all2 same_net cl cl'" using assms(1) by (rule list_all2_mono) (simp add: steady_def)
  have rd: "tracker_ready e n'" if "steady n n'" "tracker_ready e n" for n n'
    using that unfolding tracker_ready_def steady_def by (metis length_0_conv)
  have "\<forall>p < length cl'. tracker_ready e (cl' ! p)"
    using calmD(3) [OF assms(2)] list_all2_nthD [OF assms(1)] list_all2_lengthD [OF assms(1)] rd by metis
  then show ?thesis
    using same_addrs_net [OF calmD(2) [OF assms(2)] net calmD(1) [OF assms(2)]] cluster_ok_same [OF calmD(1) [OF assms(2)] net]
    by (simp add: calm_def)
qed

lemma steady_update: "list_all2 steady cl cl' \<Longrightarrow> p < length cl \<Longrightarrow> steady (cl' ! p) n' \<Longrightarrow> list_all2 steady cl (cl'[p := n'])"
  using steady_trans by (auto simp: list_all2_conv_all_nth nth_list_update)

lemma changed_update:
  assumes "list_all2 socks cl cl1" "p < length cl" "steady (cl1 ! p) n'"
  shows "changed cl p (vote n') (cl1[p := n'])"
  using steady_update [OF socks_steady_cl [OF assms(1)] assms(2,3)] list_all2_nthD [OF assms(1)] list_all2_lengthD [OF assms(1)] assms(2)
  by (simp add: changed_def nth_list_update socks_steady)

section \<open>An election when nothing fails\<close>

lemma leader_index_found:
  assumes cm: "calm e pos addr cl" and p: "p < length cl" and i: "i < length cl"
    and ip: "ip = fst (addr i)" and port: "port = snd (addr i)"
  shows "fdfs_get_tracker_leader_index_ex (re_eq e) (g_tracker_servers (cl ! p)) ip port = int (pos p i)"
proof -
  note ok = calmD(1) [OF cm] and ad = calmD(2) [OF cm]
  let ?s = "servers_of (cl ! p) ! pos p i"
  have eq: "conn_eq_ok (re_eq e)" using cluster_env(1) [OF ok] by (simp add: relation_env_ok_def)
  note ent = cluster_entry [OF ok p i]
  have "0 < length (connections ?s)" using ent(1) by (auto simp: entry_of_def index_ok_def)
  then have "connections ?s ! 0 \<in> set (connections ?s)" by simp
  then have ep: "(ip, port) \<in> endpoints ?s" using ad p i by (force simp: same_addrs_def endpoints_def ip port)
  then have "listens (cl ! i) ip port" using ent(1) unfolding entry_of_def by blast
  from leader_index_pos [OF ok p i this]
  have "fdfs_get_tracker_leader_index_ex (re_eq e) (g_tracker_servers (cl ! p)) ip port \<in> {-1, int (pos p i)}" .
  moreover have "?s \<in> set (servers_of (cl ! p))" using ent(2,3) by simp
  then have "group_get_loop (re_eq e) (servers_of (cl ! p)) 0 ip port \<noteq> None"
    unfolding group_get_loop_None server_contain_iff [OF eq] using ep by blast
  then have "fdfs_get_tracker_leader_index_ex (re_eq e) (g_tracker_servers (cl ! p)) ip port \<noteq> -1"
    using \<open>?s \<in> set _\<close> by (auto simp: fdfs_get_tracker_leader_index_ex_def)
  ultimately show ?thesis by simp
qed

lemma request_quiet:
  assumes cm: "calm e pos addr cl" and i: "i < length cl" and p: "p < length cl"
    and h: "\<And>cl1. list_all2 socks cl cl1 \<Longrightarrow> calm e pos addr cl1 \<Longrightarrow>
      \<exists>n'. handler (leader_body e L) (cl1 ! p) = (0, n') \<and> steady (cl1 ! p) n' \<and> vote n' = x"
  shows "\<exists>cl'. do_notify_leader_changed e handler i (pos i p) L cl [] = (0, False, cl', []) \<and> changed cl p x cl'"
proof (rule do_notify_quiet [OF calmD(1) [OF cm] i p, where handler = handler and L = L])
  fix cl1 assume s: "list_all2 socks cl cl1" and r: "\<And>status n'. handler (leader_body e L) (cl1 ! p) = (status, n') \<Longrightarrow>
      do_notify_leader_changed e handler i (pos i p) L cl [] = (status, False, cl1[p := n'], [])"
  obtain n' where n': "handler (leader_body e L) (cl1 ! p) = (0, n')" "steady (cl1 ! p) n'" "vote n' = x"
    using h [OF s steady_calm [OF socks_steady_cl [OF s] cm]] by blast
  show ?thesis using r [OF n'(1)] changed_update [OF s p n'(2)] n'(3) by blast
qed

text \<open>The address a candidate sends with its requests.\<close>

lemma candidate_body:
  assumes cm: "calm e pos addr cl" and i: "i < length cl" and L: "L = connections (servers_of (cl ! i) ! pos i i) ! 0"
  shows "parse_leader e (leader_body e L) = Some (addr i)" "listens (cl ! i) (fst (addr i)) (snd (addr i))"
proof -
  have "ip_addr L = fst (addr i)" "conn_port L = snd (addr i)" using calmD(2) [OF cm] i by (simp_all add: same_addrs_def L)
  then show "parse_leader e (leader_body e L) = Some (addr i)" "listens (cl ! i) (fst (addr i)) (snd (addr i))"
    using own_address [OF calmD(1) [OF cm] i L] parse_leader_body [OF cluster_env(1) [OF calmD(1) [OF cm]]] by auto
qed

definition told :: "(nat \<Rightarrow> nat \<Rightarrow> nat) \<Rightarrow> nat \<Rightarrow> nat \<Rightarrow> int \<times> bool \<times> int \<times> int \<Rightarrow> int \<times> bool \<times> int \<times> int" where
  "told pos i p x = (int (pos p i), snd x)"

definition committed_to :: "(nat \<Rightarrow> nat \<Rightarrow> nat) \<Rightarrow> nat \<Rightarrow> nat \<Rightarrow> int \<times> bool \<times> int \<times> int \<Rightarrow> int \<times> bool \<times> int \<times> int" where
  "committed_to pos i p x = (-1, fst (snd x) \<or> p = i, int (pos p i), snd (snd (snd x)))"

lemma pos_own: "calm e pos addr cl \<Longrightarrow> i < length cl \<Longrightarrow> p < length cl \<Longrightarrow> pos i i = pos i p \<longleftrightarrow> p = i"
  using pos_ok_inj [OF cluster_env(2) [OF calmD(1)], of e pos addr cl i i p] by auto

lemma set_next_vote:
  "vote (n\<lparr>g_next_leader_index := k\<rparr>) = (k, snd (vote n))" "steady n (n\<lparr>g_next_leader_index := k\<rparr>)"
  by (simp_all add: vote_def steady_def same_net_def list_all2_refl tracker_calc_running_times_def)

lemma notify_call:
  assumes cm: "calm e pos addr cl" and i: "i < length cl" and p: "p < length cl" and nl: "\<not> g_if_leader_self (cl ! p)"
  shows "\<exists>b' cl'. relationship_notify_next_leader e i (pos i i) (pos i p) b cl [] = (0, b', cl', []) \<and>
    changed cl p (told pos i p (vote (cl ! p))) cl'"
proof (cases "p = i")
  case True
  then show ?thesis
    using changed_update [OF list_all2_refl [of socks cl] i, of "(cl ! i)\<lparr>g_next_leader_index := int (pos i i)\<rparr>"]
    by (simp add: relationship_notify_next_leader_def on_node_def told_def set_next_vote)
next
  case False
  let ?L = "connections (servers_of (cl ! i) ! pos i i) ! 0"
  note body = candidate_body [OF cm i refl]
  have "\<exists>cl'. do_notify_leader_changed e (tracker_deal_notify_next_leader e) i (pos i p) ?L cl [] = (0, False, cl', []) \<and>
    changed cl p (told pos i p (vote (cl ! p))) cl'"
  proof (rule request_quiet [OF cm i p])
    fix cl1 assume s: "list_all2 socks cl cl1" and cm1: "calm e pos addr cl1"
    have len: "length cl1 = length cl" using list_all2_lengthD [OF s] by simp
    have sp: "socks (cl ! p) (cl1 ! p)" by (rule list_all2_nthD [OF s p])
    have "fdfs_get_tracker_leader_index_ex (re_eq e) (g_tracker_servers (cl1 ! p)) (fst (addr i)) (snd (addr i)) = int (pos p i)"
      by (rule leader_index_found [OF cm1]) (use p i len in simp_all)
    then have "tracker_deal_notify_next_leader e (leader_body e ?L) (cl1 ! p) = (0, (cl1 ! p)\<lparr>g_next_leader_index := int (pos p i)\<rparr>)"
      using nl socks_fields(4) [OF sp] body(1) by (simp add: tracker_deal_notify_next_leader_def Let_def case_prod_beta)
    then show "\<exists>n'. tracker_deal_notify_next_leader e (leader_body e ?L) (cl1 ! p) = (0, n') \<and> steady (cl1 ! p) n' \<and>
        vote n' = told pos i p (vote (cl ! p))"
      using socks_steady [OF sp] by (simp add: told_def set_next_vote)
  qed
  then show ?thesis using pos_own [OF cm i p] False by (auto simp: relationship_notify_next_leader_def)
qed

lemma set_tracker_leader_vote:
  "vote (relationship_set_tracker_leader idx b n) = (-1, b \<or> g_if_leader_self n, idx, fail_count n)"
  "steady n (relationship_set_tracker_leader idx b n)"
  by (auto simp: relationship_set_tracker_leader_def Let_def vote_def steady_def same_net_def list_all2_refl
    tracker_calc_running_times_def set_leader_def)

lemma commit_call:
  assumes cm: "calm e pos addr cl" and i: "i < length cl" and p: "p < length cl" and nx: "g_next_leader_index (cl ! p) = int (pos p i)"
  shows "\<exists>b' cl'. relationship_commit_next_leader e i (pos i i) (pos i p) b cl [] = (0, b', cl', []) \<and>
    changed cl p (committed_to pos i p (vote (cl ! p))) cl'"
proof (cases "p = i")
  case True
  then show ?thesis
    using nx changed_update [OF list_all2_refl [of socks cl] i, of "relationship_set_tracker_leader (int (pos i i)) True (cl ! i)"]
    by (simp add: relationship_commit_next_leader_def on_node_def set_tracker_leader_vote committed_to_def vote_def [of "cl ! i"])
next
  case False
  let ?L = "connections (servers_of (cl ! i) ! pos i i) ! 0"
  note body = candidate_body [OF cm i refl]
  have "\<exists>cl'. do_notify_leader_changed e (tracker_deal_commit_next_leader e) i (pos i p) ?L cl [] = (0, False, cl', []) \<and>
    changed cl p (committed_to pos i p (vote (cl ! p))) cl'"
  proof (rule request_quiet [OF cm i p])
    fix cl1 assume s: "list_all2 socks cl cl1" and cm1: "calm e pos addr cl1"
    have len: "length cl1 = length cl" using list_all2_lengthD [OF s] by simp
    have sp: "socks (cl ! p) (cl1 ! p)" by (rule list_all2_nthD [OF s p])
    have idx: "fdfs_get_tracker_leader_index_ex (re_eq e) (g_tracker_servers (cl1 ! p)) (fst (addr i)) (snd (addr i)) = int (pos p i)"
      by (rule leader_index_found [OF cm1]) (use p i len in simp_all)
    have "\<not> listens (cl ! p) (fst (addr i)) (snd (addr i))"
      using cluster_listens_unique [OF calmD(1) [OF cm] i p body(2)] False by blast
    then have nl: "\<not> listens (cl1 ! p) (fst (addr i)) (snd (addr i))" using socks_fields [OF sp] by (simp add: listens_def)
    have "tracker_deal_commit_next_leader e (leader_body e ?L) (cl1 ! p) = (0, relationship_set_tracker_leader (int (pos p i)) False (cl1 ! p))"
      using idx nl nx socks_fields(3) [OF sp] body(1) by (simp add: tracker_deal_commit_next_leader_def Let_def case_prod_beta)
    then show "\<exists>n'. tracker_deal_commit_next_leader e (leader_body e ?L) (cl1 ! p) = (0, n') \<and> steady (cl1 ! p) n' \<and>
        vote n' = committed_to pos i p (vote (cl ! p))"
      using socks_fields [OF sp] False by (simp add: set_tracker_leader_vote committed_to_def vote_def [of "cl ! p"])
  qed
  then show ?thesis using pos_own [OF cm i p] False by (auto simp: relationship_commit_next_leader_def)
qed

text \<open>
  Both phases: \<open>f p\<close> is what the call for tracker \<open>p\<close> makes of its vote, if that is as \<open>pre\<close>
  says.
\<close>

lemma loop_quiet:
  assumes call: "\<And>p b cl. calm e pos addr cl \<Longrightarrow> length cl = n \<Longrightarrow> p < n \<Longrightarrow> pre p (vote (cl ! p)) \<Longrightarrow>
      \<exists>b' cl'. call (pos i p) b cl [] = (0, b', cl', []) \<and> changed cl p (f p (vote (cl ! p))) cl'"
    and i: "i < n" and pos: "pos_ok n pos"
  shows "distinct ks \<Longrightarrow> \<forall>k \<in> set ks. k < n \<Longrightarrow> calm e pos addr cl \<Longrightarrow> length cl = n \<Longrightarrow>
    \<forall>p < n. pos i p \<in> set ks \<longrightarrow> pre p (vote (cl ! p)) \<Longrightarrow>
    \<exists>b' cl'. notify_loop call ks r cnt b cl [] = (Inr (if ks = [] then r else 0, cnt + length ks), b', cl', []) \<and>
      list_all2 steady cl cl' \<and> (\<forall>q < n. vote (cl' ! q) = (if pos i q \<in> set ks then f q (vote (cl ! q)) else vote (cl ! q)))"
proof (induction ks arbitrary: r cnt b cl)
  case Nil
  then show ?case by (simp add: list_all2_refl)
next
  case (Cons k ks)
  obtain p where p: "p < n" "pos i p = k" using pos_ok_surj [OF pos i] Cons.prems(2) by auto
  have only: "pos i q = k \<longleftrightarrow> q = p" if "q < n" for q using pos_ok_inj [OF pos i p(1) that] p(2) by auto
  have "pre p (vote (cl ! p))" using Cons.prems(5) p by auto
  then obtain b1 cl1 where c: "call k b cl [] = (0, b1, cl1, [])" "changed cl p (f p (vote (cl ! p))) cl1"
    using call [OF Cons.prems(3,4) p(1), of b] unfolding p(2) by blast
  have st: "list_all2 steady cl cl1" and v: "\<And>q. q < n \<Longrightarrow> vote (cl1 ! q) = (if q = p then f p (vote (cl ! p)) else vote (cl ! q))"
    using c(2) Cons.prems(4) by (simp_all add: changed_def)
  have len: "length cl1 = n" using list_all2_lengthD [OF st] Cons.prems(4) by simp
  have pre: "pre q (vote (cl1 ! q))" if "q < n" "pos i q \<in> set ks" for q
    using that Cons.prems(1,5) v only by auto
  have "\<exists>b' cl'. notify_loop call ks 0 (Suc cnt) b1 cl1 [] = (Inr (if ks = [] then 0 else 0, Suc cnt + length ks), b', cl', []) \<and>
    list_all2 steady cl1 cl' \<and> (\<forall>q < n. vote (cl' ! q) = (if pos i q \<in> set ks then f q (vote (cl1 ! q)) else vote (cl1 ! q)))"
    by (rule Cons.IH [OF _ _ steady_calm [OF st Cons.prems(3)] len]) (use Cons.prems(1,2) pre in simp_all)
  then obtain b' cl' where l: "notify_loop call ks 0 (Suc cnt) b1 cl1 [] = (Inr (0, Suc cnt + length ks), b', cl', [])"
    "list_all2 steady cl1 cl'" "\<forall>q < n. vote (cl' ! q) = (if pos i q \<in> set ks then f q (vote (cl1 ! q)) else vote (cl1 ! q))"
    unfolding if_cancel by blast
  have "vote (cl' ! q) = (if pos i q \<in> set (k # ks) then f q (vote (cl ! q)) else vote (cl ! q))" if "q < n" for q
    using l(3) v [OF that] only [OF that] that Cons.prems(1) by auto
  then show ?case using c(1) l(1) steady_cl_trans [OF st l(2)] by simp
qed

text \<open>A tracker that finds itself to be the candidate while nobody leads is elected.\<close>

lemma election_quiet:
  assumes cm: "calm e pos addr cl" and i: "i < length cl" and nl: "\<forall>p < length cl. \<not> g_if_leader_self (cl ! p)"
  shows "\<exists>cl'. relationship_notify_leader_changed e i (pos i i) b cl [] = (0, cl', []) \<and> list_all2 steady cl cl' \<and>
    (\<forall>q < length cl. vote (cl' ! q) = (-1, q = i, int (pos q i), fail_count (cl ! q)))"
proof -
  let ?n = "length cl" and ?ks = "[0..<length (servers_of (cl ! i))]"
  note pos = cluster_env(2) [OF calmD(1) [OF cm]] and len = cluster_entry(2) [OF calmD(1) [OF cm] i i]
  have all: "pos i q \<in> set ?ks" if "q < ?n" for q using cluster_entry(3) [OF calmD(1) [OF cm] i that] len by simp
  have ne: "?ks \<noteq> []" using len i by auto
  obtain b1 cl1 where n1: "notify_loop (relationship_notify_next_leader e i (pos i i)) ?ks ENOENT 0 b cl [] = (Inr (0, ?n), b1, cl1, [])"
    "list_all2 steady cl cl1" "\<forall>q < ?n. vote (cl1 ! q) = told pos i q (vote (cl ! q))"
    using loop_quiet [where call = "relationship_notify_next_leader e i (pos i i)" and pre = "\<lambda>p x. \<not> fst (snd x)" and f = "told pos i" and n = ?n
      and ks = ?ks and r = ENOENT and cnt = 0 and b = b, OF _ i pos _ _ cm refl] notify_call [of e pos addr _ i] i nl all ne len
    by (auto simp: vote_def)
  have c1: "calm e pos addr cl1" "length cl1 = ?n" using steady_calm [OF n1(2) cm] list_all2_lengthD [OF n1(2)] by simp_all
  obtain b2 cl2 where n2: "notify_loop (relationship_commit_next_leader e i (pos i i)) ?ks ENOENT 0 b1 cl1 [] = (Inr (0, ?n), b2, cl2, [])"
    "list_all2 steady cl1 cl2" "\<forall>q < ?n. vote (cl2 ! q) = committed_to pos i q (vote (cl1 ! q))"
    using loop_quiet [where call = "relationship_commit_next_leader e i (pos i i)" and pre = "\<lambda>p x. fst x = int (pos p i)" and f = "committed_to pos i" and n = ?n
      and ks = ?ks and r = ENOENT and cnt = 0 and b = b1, OF _ i pos _ _ c1] commit_call [of e pos addr _ i] i n1(3) all ne len
    by (auto simp: vote_def told_def)
  have "relationship_notify_leader_changed e i (pos i i) b cl [] = (0, cl2, [])"
    using n1(1) n2(1) i by (auto simp: relationship_notify_leader_changed_def Let_def)
  moreover have "vote (cl2 ! q) = (-1, q = i, int (pos q i), fail_count (cl ! q))" if "q < ?n" for q
    using that nl n1(3) n2(3) by (simp add: told_def committed_to_def vote_def [of "cl ! q"])
  ultimately show ?thesis using steady_cl_trans [OF n1(2) n2(2)] by blast
qed

section \<open>Pings and the choice of trunk servers\<close>

lemma length_text_field [simp]: "length (text_field k s) = k"
  by (simp add: text_field_def)

lemma ping_entry_groups: "length (groups (ping_entry p gs)) = length (groups gs)"
  by (simp add: ping_entry_def Let_def split: option.splits)

lemma ping_loop_groups: "length (groups (ping_loop p gs)) = length (groups gs)"
proof (induction p gs rule: ping_loop.induct)
  case (1 p gs)
  then show ?case using ping_entry_groups by (subst ping_loop.simps) auto
qed

lemma find_trunk_loop_length: "find_trunk_servers_loop c gs cnt tp = (gs', cnt', tp') \<Longrightarrow> length gs' = length gs"
  by (induction gs arbitrary: gs' cnt tp cnt' tp') (auto split: prod.splits if_splits)

lemma find_trunk_steady:
  assumes "find_trunk_servers e n tp = (n', tp')"
  shows "steady n n'" "vote n' = vote n"
  using assms find_trunk_loop_length
  by (auto simp: find_trunk_servers_def tracker_mem_find_trunk_servers_def steady_def vote_def same_net_def list_all2_refl
    tracker_calc_running_times_def split: prod.splits if_splits)

lemma ping_answer:
  assumes "tracker_ready e n" "tracker_deal_ping_leader e [] chg n = (status, body, chg')"
    "fdfs_ping_leader \<lparr>hdr_pkg_len = int (length body), hdr_status = status\<rparr> body gs [] = (r, gs', tp)"
  shows "(r = 0 \<longleftrightarrow> g_if_leader_self n) \<and> tp = [] \<and> length (groups gs') = length (groups gs)"
proof -
  have "length (concat (map (\<lambda>g. text_field 16 (a g) @ text_field 16 (b g)) gl)) = 32 * length gl" for gl :: "FDFSGroupInfo list" and a b
    by (induction gl) simp_all
  then show ?thesis
    using assms ping_loop_groups
    by (auto simp: tracker_deal_ping_leader_def fdfs_ping_leader_def fdfs_recv_response_def fdfs_recv_header_ex_def tracker_ready_def
      split: if_splits)
qed

lemma ping_quiet:
  assumes cm: "calm e pos addr cl" and i: "i < length cl" and p: "p < length cl" and l: "leader_of (cl ! i) = int (pos i p)"
  shows "\<exists>r cl'. relationship_ping_leader e i chg cl [] = (r, cl', []) \<and> (r = 0 \<longleftrightarrow> g_if_leader_self (cl ! i) \<or> g_if_leader_self (cl ! p)) \<and>
    changed cl i (vote (cl ! i)) cl'"
proof (cases "g_if_leader_self (cl ! i)")
  case True
  then show ?thesis by (simp add: relationship_ping_leader_def changed_def list_all2_refl)
next
  case False
  obtain cl1 where c: "connect_tracker i (pos i p) False cl [] = (0, Some p, cl1, [])" "list_all2 socks cl cl1"
    by (rule connect_quiet [OF calmD(1) [OF cm] i p])
  have sp: "socks (cl ! p) (cl1 ! p)" "socks (cl ! i) (cl1 ! i)" using list_all2_nthD [OF c(2)] p i by blast+
  obtain status body chg' where a: "tracker_deal_ping_leader e [] chg (cl1 ! p) = (status, body, chg')" by (metis prod_cases3)
  obtain r gs tp where f: "fdfs_ping_leader \<lparr>hdr_pkg_len = int (length body), hdr_status = status\<rparr> body (g_groups (cl1 ! i)) [] = (r, gs, tp)"
    by (metis prod_cases3)
  have "tracker_ready e (cl1 ! p)" using calmD(3) [OF cm] p socks_ready [OF sp(1)] by blast
  note r = ping_answer [OF this a f]
  have "relationship_ping_leader e i chg cl [] = (r, cl1[i := (cl1 ! i)\<lparr>g_groups := gs\<rparr>], [])"
    using False l c(1) a f r by (simp add: relationship_ping_leader_def Let_def on_node_def)
  moreover have "steady (cl1 ! i) ((cl1 ! i)\<lparr>g_groups := gs\<rparr>)"
    using r by (simp add: steady_def same_net_def list_all2_refl tracker_calc_running_times_def)
  moreover have "vote ((cl1 ! i)\<lparr>g_groups := gs\<rparr>) = vote (cl ! i)"
    using socks_steady [OF sp(2)] by (simp add: vote_def)
  ultimately show ?thesis
    using r False socks_fields(4) [OF sp(1)] changed_update [OF c(2) i, of "(cl1 ! i)\<lparr>g_groups := gs\<rparr>"] by auto
qed

section \<open>One round of a thread\<close>

lemma set_leader_fail_count [simp]: "fail_count (set_leader k n) = fail_count n"
  by (simp add: set_leader_def)

lemma changed_then:
  assumes "changed cl i x cl1" "i < length cl" "steady (cl1 ! i) n'"
  shows "changed cl i (vote n') (cl1[i := n'])"
  using assms steady_update [of cl cl1 i n'] list_all2_lengthD [of steady cl cl1] by (simp add: changed_def nth_list_update)

text \<open>The vote of a tracker after it pinged the tracker it follows; \<open>ok\<close> says that this one leads.\<close>

definition pinged :: "bool \<Rightarrow> int \<times> bool \<times> int \<times> int \<Rightarrow> int \<times> bool \<times> int \<times> int" where
  "pinged ok x = (case x of (nx, ld, l, f) \<Rightarrow>
     if ok then (nx, ld, l, 0) else if f + 1 \<ge> 3 then (nx, ld, -1, 0) else (nx, ld, l, f + 1))"

lemma ping_round:
  assumes cm: "calm e pos addr cl" and i: "i < length cl" and p: "p < length cl" and l: "leader_of (cl ! i) = int (pos i p)"
  shows "changed cl i (pinged (g_if_leader_self (cl ! i) \<or> g_if_leader_self (cl ! p)) (vote (cl ! i)))
    (fst (relationship_thread_round e i rnd b chg cl []))"
proof -
  obtain r cl1 where c: "relationship_ping_leader e i chg cl [] = (r, cl1, [])" "r = 0 \<longleftrightarrow> g_if_leader_self (cl ! i) \<or> g_if_leader_self (cl ! p)"
    "changed cl i (vote (cl ! i)) cl1" using ping_quiet [OF cm i p l] by blast
  have v: "vote (cl1 ! i) = vote (cl ! i)" using c(3) i by (simp add: changed_def)
  have ne: "servers_of (cl ! i) \<noteq> []" using cluster_entry(2) [OF calmD(1) [OF cm] i i] i by auto
  have st: "steady n (n\<lparr>fail_count := f, sleep_seconds := w\<rparr>)" "steady n (set_leader k (n\<lparr>fail_count := f, sleep_seconds := w\<rparr>))" for n f w k
    by (simp_all add: steady_def same_net_def list_all2_refl tracker_calc_running_times_def set_leader_def)
  show ?thesis
    using c l ne v changed_then [OF c(3) i st(1)] changed_then [OF c(3) i st(2)]
    by (auto simp: relationship_thread_round_def on_node_def pinged_def vote_def)
qed

lemma sleep_steady: "steady n (n\<lparr>sleep_seconds := w\<rparr>)" "vote (n\<lparr>sleep_seconds := w\<rparr>) = vote n"
  by (simp_all add: steady_def same_net_def list_all2_refl tracker_calc_running_times_def vote_def)

text \<open>The vote of a tracker that looked for a leader and found tracker \<open>c\<close> to be first.\<close>

definition followed :: "(nat \<Rightarrow> nat \<Rightarrow> nat) \<Rightarrow> nat \<Rightarrow> nat \<Rightarrow> bool \<Rightarrow> int \<times> bool \<times> int \<times> int \<Rightarrow> int \<times> bool \<times> int \<times> int" where
  "followed pos i c lead x = (if lead then (fst x, fst (snd x), int (pos i c), snd (snd (snd x))) else x)"

lemma select_other:
  assumes cm: "calm e pos addr cl" and i: "i < length cl" and c: "c < length cl" "c \<noteq> i" and l: "leader_of (cl ! i) < 0"
    and s: "relationship_get_tracker_leader e i cl [] = (Inr (seen pos cl i c), cl1, [])" "list_all2 socks cl cl1"
  shows "changed cl i (followed pos i c (g_if_leader_self (cl ! c)) (vote (cl ! i))) (fst (relationship_thread_round e i rnd b chg cl []))"
proof -
  have sp: "socks (cl ! i) (cl1 ! i)" by (rule list_all2_nthD [OF s(2) i])
  have len: "length cl1 = length cl" using list_all2_lengthD [OF s(2)] by simp
  have ok1: "cluster_ok e pos cl1" by (rule socks_cluster_ok [OF s(2) calmD(1) [OF cm]])
  note ent = cluster_entry [OF ok1, of i c, unfolded len, OF i c(1)]
  have ne: "servers_of (cl ! i) \<noteq> []" using cluster_entry(2) [OF calmD(1) [OF cm] i i] i by auto
  have nl: "\<not> fdfs_server_contain_local_service (re_eq e) (local_host_ips (cl1 ! i)) (servers_of (cl1 ! i) ! pos i c) (g_server_port (cl1 ! i))"
    using own_entry [OF ok1, of i c] i c len by simp
  have st: "steady (cl1 ! i) ((if ld then set_leader (int (pos i c)) (cl1 ! i) else cl1 ! i)\<lparr>sleep_seconds := w\<rparr>)" for ld w
    by (simp add: steady_def same_net_def list_all2_refl tracker_calc_running_times_def set_leader_def)
  show ?thesis
    using l ne s(1) nl ent(2,3) i len socks_fields [OF sp] changed_update [OF s(2) i st [where ld = "g_if_leader_self (cl ! c)"]]
    by (auto simp: relationship_thread_round_def relationship_select_leader_def on_node_def seen_def followed_def vote_def Let_def
      split: if_splits)
qed

text \<open>A tracker that finds itself to be first while nobody leads, at the end of its round.\<close>

lemma select_self:
  assumes cm: "calm e pos addr cl" and i: "i < length cl" and l: "leader_of (cl ! i) < 0"
    and nl: "\<forall>p < length cl. \<not> g_if_leader_self (cl ! p)"
    and s: "relationship_get_tracker_leader e i cl [] = (Inr (seen pos cl i i), cl1, [])" "list_all2 socks cl cl1"
  shows "list_all2 steady cl (fst (relationship_thread_round e i rnd b chg cl [])) \<and>
    (\<forall>q < length cl. vote (fst (relationship_thread_round e i rnd b chg cl []) ! q) = (-1, q = i, int (pos q i), fail_count (cl ! q)))"
proof -
  note st1 = socks_steady_cl [OF s(2)]
  note cm1 = steady_calm [OF st1 cm]
  have len: "length cl1 = length cl" using list_all2_lengthD [OF s(2)] by simp
  have v1: "g_if_leader_self (cl1 ! q) = g_if_leader_self (cl ! q)" "fail_count (cl1 ! q) = fail_count (cl ! q)" if "q < length cl" for q
    using socks_fields [OF list_all2_nthD [OF s(2) that]] by simp_all
  have own: "fdfs_server_contain_local_service (re_eq e) (local_host_ips (cl1 ! i)) (servers_of (cl1 ! i) ! pos i i) (g_server_port (cl1 ! i))"
    using own_entry [OF calmD(1) [OF cm1], of i i] i len by simp
  obtain cl2 where n: "relationship_notify_leader_changed e i (pos i i) b cl1 [] = (0, cl2, [])" "list_all2 steady cl1 cl2"
    "\<forall>q < length cl. vote (cl2 ! q) = (-1, q = i, int (pos q i), fail_count (cl ! q))"
    using election_quiet [OF cm1, of i b] i nl v1 len by auto
  have len2: "length cl2 = length cl" using list_all2_lengthD [OF n(2)] len by simp
  obtain n2 tp where f: "find_trunk_servers e (cl2 ! i) [] = (n2, tp)" by fastforce
  have ne: "servers_of (cl ! i) \<noteq> []" using cluster_entry(2) [OF calmD(1) [OF cm] i i] i by auto
  let ?n3 = "n2\<lparr>sleep_seconds := 1\<rparr>"
  have "fst (relationship_thread_round e i rnd b chg cl []) = cl2[i := ?n3]"
    using l ne s(1) own n(1) f i len2
    by (simp add: relationship_thread_round_def relationship_select_leader_def seen_def Let_def on_node_def)
  moreover have n3: "steady (cl2 ! i) ?n3" "vote ?n3 = vote (cl2 ! i)"
    using steady_trans [OF find_trunk_steady(1) [OF f] sleep_steady(1)] find_trunk_steady(2) [OF f] sleep_steady(2) by simp_all
  ultimately show ?thesis
    using steady_update [OF steady_cl_trans [OF st1 n(2)] i n3(1)] n(3) len2 i by (simp add: nth_list_update)
qed

section \<open>Rounds as steps on the votes\<close>

abbreviation (input) lead :: "int \<times> bool \<times> int \<times> int \<Rightarrow> bool" where "lead x \<equiv> fst (snd x)"
abbreviation (input) following :: "int \<times> bool \<times> int \<times> int \<Rightarrow> int" where "following x \<equiv> fst (snd (snd x))"
abbreviation (input) fails :: "int \<times> bool \<times> int \<times> int \<Rightarrow> int" where "fails x \<equiv> snd (snd (snd x))"

definition leaderless :: "nat \<Rightarrow> (nat \<Rightarrow> int \<times> bool \<times> int \<times> int) \<Rightarrow> bool" where
  "leaderless n v \<longleftrightarrow> (\<forall>p < n. \<not> lead (v p))"

text \<open>Tracker \<open>c\<close> is first among all trackers.\<close>

definition first_of :: "(nat \<Rightarrow> string \<times> int) \<Rightarrow> cluster \<Rightarrow> nat \<Rightarrow> bool" where
  "first_of addr cl c \<longleftrightarrow> c < length cl \<and> (\<forall>p < length cl. p \<noteq> c \<longrightarrow> tracker_order addr cl p c \<le> 0)"

text \<open>A round of tracker \<open>i\<close>; \<open>fst_i\<close> says that it is first.\<close>

inductive vote_step :: "(nat \<Rightarrow> nat \<Rightarrow> nat) \<Rightarrow> nat \<Rightarrow> nat \<Rightarrow> bool \<Rightarrow> (nat \<Rightarrow> int \<times> bool \<times> int \<times> int) \<Rightarrow> (nat \<Rightarrow> int \<times> bool \<times> int \<times> int) \<Rightarrow> bool"
  for pos n i fst_i v v' where
  ping: "p < n \<Longrightarrow> following (v i) = int (pos i p) \<Longrightarrow> \<forall>q < n. v' q = (if q = i then pinged (lead (v i) \<or> lead (v p)) (v i) else v q) \<Longrightarrow>
    vote_step pos n i fst_i v v'"
| follow: "following (v i) < 0 \<Longrightarrow> c < n \<Longrightarrow> lead (v c) \<Longrightarrow> \<forall>q < n. v' q = (if q = i then followed pos i c True (v i) else v q) \<Longrightarrow>
    vote_step pos n i fst_i v v'"
| wait: "following (v i) < 0 \<Longrightarrow> leaderless n v \<Longrightarrow> \<not> fst_i \<Longrightarrow> \<forall>q < n. v' q = v q \<Longrightarrow> vote_step pos n i fst_i v v'"
| elect: "following (v i) < 0 \<Longrightarrow> leaderless n v \<Longrightarrow> \<forall>q < n. v' q = (-1, q = i, int (pos q i), fails (v q)) \<Longrightarrow>
    vote_step pos n i fst_i v v'"

definition votes_ok :: "(nat \<Rightarrow> nat \<Rightarrow> nat) \<Rightarrow> nat \<Rightarrow> (nat \<Rightarrow> int \<times> bool \<times> int \<times> int) \<Rightarrow> bool" where
  "votes_ok pos n v \<longleftrightarrow>
     (\<forall>p < n. 0 \<le> fails (v p) \<and> fails (v p) \<le> 2 \<and> following (v p) < int n \<and> (lead (v p) \<longrightarrow> following (v p) = int (pos p p))) \<and>
     (\<forall>p < n. \<forall>q < n. lead (v p) \<longrightarrow> lead (v q) \<longrightarrow> p = q)"

lemma tracker_order_leader:
  assumes "g_if_leader_self (cl ! L)" "\<not> g_if_leader_self (cl ! c)"
  shows "tracker_order addr cl L c > 0"
  using assms by (simp add: tracker_order_def lex_cmp_def)

lemma first_unique:
  assumes cm: "calm e pos addr cl" and "first_of addr cl c" "first_of addr cl d"
  shows "c = d"
proof (rule ccontr)
  assume ne: "c \<noteq> d"
  have cd: "c < length cl" "d < length cl" "tracker_order addr cl c d \<le> 0" "tracker_order addr cl d c \<le> 0"
    using assms ne by (auto simp: first_of_def)
  then have "tracker_order addr cl c d = 0" using order_cmp.cmp_swap [of addr cl c d] order_cmp.cmp_swap [of addr cl d c] by auto
  then have "strcmp (fst (addr c)) (fst (addr d)) = 0" "snd (addr c) = snd (addr d)"
    by (auto simp: tracker_order_def lex_cmp_def split: if_splits)
  then have "addr c = addr d" by (simp add: strcmp_0 prod_eq_iff)
  then show False
    using cluster_listens_unique [OF calmD(1) [OF cm] cd(1,2) candidate_body(2) [OF cm cd(1) refl]] candidate_body(2) [OF cm cd(2) refl] ne by simp
qed

lemma first_of_steady:
  assumes "list_all2 steady cl cl'" "\<forall>p < length cl. g_if_leader_self (cl' ! p) = g_if_leader_self (cl ! p)"
  shows "first_of addr cl' c \<longleftrightarrow> first_of addr cl c"
proof -
  have len: "length cl' = length cl" using list_all2_lengthD [OF assms(1)] by simp
  have "tracker_calc_running_times (cl' ! p) = tracker_calc_running_times (cl ! p)" if "p < length cl" for p
    using list_all2_nthD [OF assms(1) that] by (simp add: steady_def)
  with assms(2) have "tracker_order addr cl' p q = tracker_order addr cl p q" if "p < length cl" "q < length cl" for p q
    using that by (simp add: tracker_order_def lex_cmp_def)
  then show ?thesis by (auto simp: first_of_def len)
qed

lemma round_votes:
  fixes rnd b chg
  assumes cm: "calm e pos addr cl" and ok: "votes_ok pos (length cl) (\<lambda>p. vote (cl ! p))" and i: "i < length cl"
  defines "cl' \<equiv> fst (relationship_thread_round e i rnd b chg cl [])"
  shows "list_all2 steady cl cl' \<and> vote_step pos (length cl) i (first_of addr cl i) (\<lambda>p. vote (cl ! p)) (\<lambda>p. vote (cl' ! p))"
proof (cases "leader_of (cl ! i) < 0")
  case False
  have "leader_of (cl ! i) < int (length cl)" using ok i by (simp add: votes_ok_def vote_def)
  then have "nat (leader_of (cl ! i)) < length cl" using False by linarith
  then obtain p where p: "p < length cl" "leader_of (cl ! i) = int (pos i p)"
    using pos_ok_surj [OF cluster_env(2) [OF calmD(1) [OF cm]] i] False by fastforce
  show ?thesis
    using ping_round [OF cm i p, of rnd b chg] p unfolding changed_def cl'_def
    by (auto intro!: vote_step.ping [of p] simp: vote_def)
next
  case True
  then have ni: "\<not> g_if_leader_self (cl ! i)" using ok i by (auto simp: votes_ok_def vote_def)
  obtain c cl1 where c: "relationship_get_tracker_leader e i cl [] = (Inr (seen pos cl i c), cl1, [])" "list_all2 socks cl cl1"
    "c < length cl" "\<forall>p < length cl. p \<noteq> c \<longrightarrow> tracker_order addr cl p c \<le> 0"
    by (rule get_leader_quiet [OF calmD(1) [OF cm] i calmD(3,2) [OF cm]])
  have fo: "first_of addr cl c" using c(3,4) by (simp add: first_of_def)
  show ?thesis
  proof (cases "g_if_leader_self (cl ! c)")
    case lc: True
    then have "c \<noteq> i" using ni by auto
    then show ?thesis
      using select_other [OF cm i c(3) _ True c(1,2), of rnd b chg] lc True c(3) unfolding changed_def cl'_def
      by (auto intro!: vote_step.follow [of _ _ c] simp: vote_def)
  next
    case lc: False
    then have nl: "leaderless (length cl) (\<lambda>p. vote (cl ! p))"
      using c(4) tracker_order_leader [of cl _ c addr] by (fastforce simp: leaderless_def vote_def)
    show ?thesis
    proof (cases "c = i")
      case ci: True
      then show ?thesis
        using select_self [OF cm i True _ _ c(2), of rnd b chg] c(1) nl True unfolding cl'_def
        by (auto intro!: vote_step.elect simp: vote_def leaderless_def)
    next
      case ci: False
      then have "\<not> first_of addr cl i" using first_unique [OF cm fo] by blast
      then show ?thesis
        using select_other [OF cm i c(3) ci True c(1,2), of rnd b chg] lc nl True unfolding changed_def cl'_def
        by (auto intro!: vote_step.wait simp: followed_def) (simp_all add: vote_def)
    qed
  qed
qed

text \<open>
  How many rounds a tracker needs at most until it follows a leader; in this many rounds a tracker
  without a leader to follow, which is first, is elected.
\<close>

definition rounds_left :: "(nat \<Rightarrow> nat \<Rightarrow> nat) \<Rightarrow> nat \<Rightarrow> (nat \<Rightarrow> int \<times> bool \<times> int \<times> int) \<Rightarrow> nat \<Rightarrow> nat" where
  "rounds_left pos n v p =
     (if \<exists>L < n. lead (v L) \<and> following (v p) = int (pos p L) then 0
      else if following (v p) < 0 then 1 else 4 - nat (fails (v p)))"

lemma vote_step_ok:
  assumes pos: "pos_ok n pos" and i: "i < n" and ok: "votes_ok pos n v" and st: "vote_step pos n i fi v v'"
  shows "votes_ok pos n v'"
  using st
proof cases
  case (ping p)
  then show ?thesis using ok i by (auto simp: votes_ok_def pinged_def split: prod.splits if_splits)
next
  case (follow c)
  have "\<not> lead (v i)" using ok i follow(1) by (auto simp: votes_ok_def)
  then show ?thesis using follow ok i pos_ok_less [OF pos i follow(2)] by (auto simp: votes_ok_def followed_def)
next
  case wait
  then show ?thesis using ok by (simp add: votes_ok_def)
next
  case elect
  then show ?thesis using ok pos_ok_less [OF pos _ i] by (auto simp: votes_ok_def)
qed

lemma rounds_left_pinged:
  assumes pos: "pos_ok n pos" and i: "i < n" and ok: "votes_ok pos n v" and p: "p < n" "following (v i) = int (pos i p)"
    and v': "v' i = pinged (lead (v i) \<or> lead (v p)) (v i)" and ld: "\<forall>q < n. lead (v' q) = lead (v q)"
  shows "rounds_left pos n v' i \<le> rounds_left pos n v i - 1"
proof (cases "lead (v i) \<or> lead (v p)")
  case True
  then have "following (v' i) = following (v i)" using v' by (simp add: pinged_def split: prod.splits)
  moreover have "lead (v i) \<longrightarrow> following (v i) = int (pos i i)" using ok i by (simp add: votes_ok_def)
  ultimately have "\<exists>L < n. lead (v' L) \<and> following (v' i) = int (pos i L)" using ld True i p by metis
  then show ?thesis by (simp add: rounds_left_def)
next
  case False
  have "\<not> (\<exists>L < n. lead (v L) \<and> following (v i) = int (pos i L))"
    using False p(2) pos_ok_inj [OF pos i p(1)] by (metis of_nat_eq_iff)
  then have r: "rounds_left pos n v i = 4 - nat (fails (v i))" using p(2) by (auto simp: rounds_left_def)
  have f: "0 \<le> fails (v i)" "fails (v i) \<le> 2" using ok i by (simp_all add: votes_ok_def)
  show ?thesis
  proof (cases "fails (v i) = 2")
    case True
    then have "following (v' i) = -1" using v' False by (simp add: pinged_def split: prod.splits)
    then show ?thesis unfolding r using True by (simp add: rounds_left_def)
  next
    case f2: False
    then have "following (v' i) = int (pos i p)" "fails (v' i) = fails (v i) + 1"
      using v' False f p(2) by (auto simp: pinged_def split: prod.splits)
    then show ?thesis unfolding r using f by (simp add: rounds_left_def nat_add_distrib)
  qed
qed

lemma rounds_left_cong:
  assumes "\<forall>q < n. lead (v' q) = lead (v q)" "v' p = v p"
  shows "rounds_left pos n v' p = rounds_left pos n v p"
  using assms by (simp add: rounds_left_def cong: conj_cong)

lemma vote_step_led:
  assumes pos: "pos_ok n pos" and i: "i < n" and ok: "votes_ok pos n v" and st: "vote_step pos n i fi v v'" and led: "\<not> leaderless n v"
  shows "\<not> leaderless n v' \<and> (\<forall>p < n. rounds_left pos n v' p \<le> rounds_left pos n v p - (if p = i then 1 else 0))"
proof -
  have ld: "\<forall>q < n. lead (v' q) = lead (v q)"
    using st led by cases (auto simp: pinged_def followed_def split: prod.splits)
  have "rounds_left pos n v' i \<le> rounds_left pos n v i - 1"
    using st
  proof cases
    case (ping q)
    then show ?thesis using rounds_left_pinged [OF pos i ok ping(1,2) _ ld] i by simp
  next
    case (follow c)
    then have "\<exists>L < n. lead (v' L) \<and> following (v' i) = int (pos i L)" using i ld by (auto simp: followed_def)
    then show ?thesis by (simp add: rounds_left_def)
  qed (use led in auto)
  moreover have "v' p = v p" if "p < n" "p \<noteq> i" for p using st led that by cases auto
  ultimately show ?thesis using ld led rounds_left_cong [OF ld] by (auto simp: leaderless_def)
qed

lemma vote_step_leaderless:
  assumes pos: "pos_ok n pos" and i: "i < n" and ok: "votes_ok pos n v" and st: "vote_step pos n i fi v v'" and nl: "leaderless n v"
  shows "\<not> leaderless n v' \<and> (\<forall>p < n. rounds_left pos n v' p = 0) \<or>
    leaderless n v' \<and> (\<forall>p < n. p \<noteq> i \<longrightarrow> rounds_left pos n v' p = rounds_left pos n v p) \<and>
      (rounds_left pos n v' i \<le> rounds_left pos n v i - 1 \<or> rounds_left pos n v' i = 1 \<and> \<not> fi)"
  using st
proof cases
  case (ping q)
  then have ld: "\<forall>q < n. lead (v' q) = lead (v q)" by (simp add: pinged_def split: prod.splits)
  then show ?thesis
    using nl ping i rounds_left_pinged [OF pos i ok ping(1,2) _ ld] rounds_left_cong [OF ld] by (auto simp: leaderless_def)
next
  case wait
  then have ld: "\<forall>q < n. lead (v' q) = lead (v q)" by simp
  have "rounds_left pos n v' i = 1" using wait nl i by (auto simp: rounds_left_def leaderless_def)
  then show ?thesis using nl wait rounds_left_cong [OF ld] by (auto simp: leaderless_def)
next
  case elect
  then have "lead (v' i)" "\<forall>q < n. following (v' q) = int (pos q i)" using i by simp_all
  then have "\<forall>p < n. \<exists>L < n. lead (v' L) \<and> following (v' p) = int (pos p L)" using i by blast
  then show ?thesis using \<open>lead (v' i)\<close> i by (auto simp: leaderless_def rounds_left_def)
qed (use nl in \<open>auto simp: leaderless_def\<close>)

section \<open>Agreement\<close>

text \<open>
  A schedule: the trackers whose rounds run, with the values of \<open>rand()\<close>, of \<open>bConnectFail\<close> before
  it is assigned, and of the change count that the leader keeps for the connection.
\<close>

fun thread_rounds :: "relation_env \<Rightarrow> (nat \<times> int \<times> bool \<times> int) list \<Rightarrow> cluster \<Rightarrow> cluster" where
  "thread_rounds e [] cl = cl"
| "thread_rounds e ((i, rnd, b, chg) # rs) cl = thread_rounds e rs (fst (relationship_thread_round e i rnd b chg cl []))"

definition turns :: "nat \<Rightarrow> (nat \<times> int \<times> bool \<times> int) list \<Rightarrow> nat" where
  "turns p rs = length (filter (\<lambda>r. fst r = p) rs)"

abbreviation (input) votes :: "cluster \<Rightarrow> nat \<Rightarrow> int \<times> bool \<times> int \<times> int" where
  "votes cl \<equiv> (\<lambda>p. vote (cl ! p))"

definition settling :: "relation_env \<Rightarrow> (nat \<Rightarrow> nat \<Rightarrow> nat) \<Rightarrow> (nat \<Rightarrow> string \<times> int) \<Rightarrow> cluster \<Rightarrow> bool" where
  "settling e pos addr cl \<longleftrightarrow> calm e pos addr cl \<and> votes_ok pos (length cl) (votes cl)"

lemma settling_round:
  assumes "settling e pos addr cl" "i < length cl"
  obtains "settling e pos addr (fst (relationship_thread_round e i rnd b chg cl []))"
    "length (fst (relationship_thread_round e i rnd b chg cl [])) = length cl"
    "list_all2 steady cl (fst (relationship_thread_round e i rnd b chg cl []))"
    "vote_step pos (length cl) i (first_of addr cl i) (votes cl) (votes (fst (relationship_thread_round e i rnd b chg cl [])))"
proof -
  have cm: "calm e pos addr cl" and ok: "votes_ok pos (length cl) (votes cl)" using assms(1) by (simp_all add: settling_def)
  note r = round_votes [OF cm ok assms(2), of rnd b chg]
  have len: "length (fst (relationship_thread_round e i rnd b chg cl [])) = length cl" using r list_all2_lengthD by fastforce
  have "settling e pos addr (fst (relationship_thread_round e i rnd b chg cl []))"
    using r steady_calm [OF conjunct1 [OF r] cm] vote_step_ok [OF cluster_env(2) [OF calmD(1) [OF cm]] assms(2) ok conjunct2 [OF r]]
    by (simp add: settling_def len)
  with r len show thesis using that by blast
qed

lemma settling_pos: "settling e pos addr cl \<Longrightarrow> pos_ok (length cl) pos \<and> votes_ok pos (length cl) (votes cl)"
  using cluster_env(2) [OF calmD(1)] by (auto simp: settling_def)

lemma led_run:
  assumes "settling e pos addr cl" "\<forall>r \<in> set rs. fst r < length cl" "\<not> leaderless (length cl) (votes cl)"
  defines "cl' \<equiv> thread_rounds e rs cl"
  shows "settling e pos addr cl' \<and> length cl' = length cl \<and> \<not> leaderless (length cl) (votes cl') \<and>
    (\<forall>p < length cl. rounds_left pos (length cl) (votes cl') p \<le> rounds_left pos (length cl) (votes cl) p - turns p rs)"
  using assms(1-3) unfolding cl'_def
proof (induction rs arbitrary: cl)
  case Nil
  then show ?case by (simp add: turns_def)
next
  case (Cons r rs)
  obtain i rnd b chg where r: "r = (i, rnd, b, chg)" by (cases r)
  have i: "i < length cl" using Cons.prems(2) r by simp
  let ?cl1 = "fst (relationship_thread_round e i rnd b chg cl [])"
  obtain st: "settling e pos addr ?cl1" "length ?cl1 = length cl"
    "vote_step pos (length cl) i (first_of addr cl i) (votes cl) (votes ?cl1)" by (rule settling_round [OF Cons.prems(1) i])
  note led = vote_step_led [OF conjunct1 [OF settling_pos [OF Cons.prems(1)]] i conjunct2 [OF settling_pos [OF Cons.prems(1)]] st(3) Cons.prems(3)]
  have "\<forall>r \<in> set rs. fst r < length ?cl1" using Cons.prems(2) st(2) by simp
  note ih = Cons.IH [OF st(1) this, unfolded st(2), OF conjunct1 [OF led]]
  have "rounds_left pos (length cl) (votes (thread_rounds e rs ?cl1)) p \<le> rounds_left pos (length cl) (votes cl) p - turns p (r # rs)"
    if "p < length cl" for p
    using ih conjunct2 [OF led] that by (fastforce simp: turns_def r)
  then show ?case using ih by (simp add: r)
qed

lemma leaderless_left:
  assumes "votes_ok pos n v" "leaderless n v" "p < n"
  shows "1 \<le> rounds_left pos n v p"
  using assms by (auto simp: rounds_left_def leaderless_def votes_ok_def nat_le_iff)

lemma leaderless_run:
  assumes "settling e pos addr cl" "\<forall>r \<in> set rs. fst r < length cl" "leaderless (length cl) (votes cl)"
  defines "cl' \<equiv> thread_rounds e rs cl"
  shows "settling e pos addr cl' \<and> length cl' = length cl \<and>
    (\<not> leaderless (length cl) (votes cl') \<and> (\<forall>p < length cl. rounds_left pos (length cl) (votes cl') p = 0) \<or>
     leaderless (length cl) (votes cl') \<and>
       (\<forall>p < length cl. rounds_left pos (length cl) (votes cl') p \<le> rounds_left pos (length cl) (votes cl) p - turns p rs \<or>
          rounds_left pos (length cl) (votes cl') p = 1 \<and> \<not> first_of addr cl p))"
  using assms(1-3) unfolding cl'_def
proof (induction rs arbitrary: cl)
  case Nil
  then show ?case by (simp add: turns_def)
next
  case (Cons r rs)
  obtain i rnd b chg where r: "r = (i, rnd, b, chg)" by (cases r)
  have i: "i < length cl" using Cons.prems(2) r by simp
  let ?cl1 = "fst (relationship_thread_round e i rnd b chg cl [])" and ?left = "\<lambda>cl'. rounds_left pos (length cl) (votes cl')"
  obtain st: "settling e pos addr ?cl1" "length ?cl1 = length cl" "list_all2 steady cl ?cl1"
    "vote_step pos (length cl) i (first_of addr cl i) (votes cl) (votes ?cl1)" by (rule settling_round [OF Cons.prems(1) i])
  have rs: "\<forall>r \<in> set rs. fst r < length ?cl1" using Cons.prems(2) st(2) by simp
  note step = vote_step_leaderless [OF conjunct1 [OF settling_pos [OF Cons.prems(1)]] i conjunct2 [OF settling_pos [OF Cons.prems(1)]] st(4) Cons.prems(3)]
  show ?case
  proof (cases "leaderless (length cl) (votes ?cl1)")
    case False
    with step led_run [OF st(1) rs] st(2) show ?thesis by (auto simp: r)
  next
    case True
    have f: "first_of addr ?cl1 c \<longleftrightarrow> first_of addr cl c" for c
      by (rule first_of_steady [OF st(3)]) (use True Cons.prems(3) in \<open>simp add: leaderless_def vote_def\<close>)
    note ih = Cons.IH [OF st(1) rs, unfolded st(2), OF True]
    have "?left (thread_rounds e rs ?cl1) p \<le> ?left cl p - turns p (r # rs) \<or> ?left (thread_rounds e rs ?cl1) p = 1 \<and> \<not> first_of addr cl p"
      if p: "p < length cl" and nl: "leaderless (length cl) (votes (thread_rounds e rs ?cl1))" for p
    proof -
      have "1 \<le> ?left (thread_rounds e rs ?cl1) p"
        using leaderless_left [OF _ nl p] ih settling_pos [of e pos addr "thread_rounds e rs ?cl1"] by simp
      moreover have "?left (thread_rounds e rs ?cl1) p \<le> ?left ?cl1 p - turns p rs \<or> ?left (thread_rounds e rs ?cl1) p = 1 \<and> \<not> first_of addr cl p"
        using ih p nl f by auto
      moreover have "if p = i then ?left ?cl1 p \<le> ?left cl p - 1 \<or> ?left ?cl1 p = 1 \<and> \<not> first_of addr cl p else ?left ?cl1 p = ?left cl p"
        using step True p by auto
      ultimately show ?thesis by (auto simp: turns_def r split: if_splits)
    qed
    then show ?thesis using ih by (auto simp: r)
  qed
qed

lemma first_exists:
  assumes "calm e pos addr cl" "cl \<noteq> []"
  shows "\<exists>c. first_of addr cl c"
proof (rule get_leader_quiet [OF calmD(1) [OF assms(1)] _ calmD(3,2) [OF assms(1)]])
  show "0 < length cl" using assms(2) by simp
qed (auto simp: first_of_def)

lemma all_follow:
  assumes ok: "votes_ok pos n v" and led: "\<not> leaderless n v" and z: "\<forall>p < n. rounds_left pos n v p = 0"
  shows "\<exists>L < n. \<forall>p < n. (lead (v p) \<longleftrightarrow> p = L) \<and> following (v p) = int (pos p L)"
proof -
  obtain L where L: "L < n" "lead (v L)" using led by (auto simp: leaderless_def)
  have only: "lead (v p) \<longleftrightarrow> p = L" if "p < n" for p using ok L that unfolding votes_ok_def by blast
  have "following (v p) = int (pos p L)" if p: "p < n" for p
  proof (rule ccontr)
    assume "following (v p) \<noteq> int (pos p L)"
    then have "\<not> (\<exists>L < n. lead (v L) \<and> following (v p) = int (pos p L))" using only by auto
    moreover have "fails (v p) \<le> 2" using ok p by (simp add: votes_ok_def)
    ultimately have "rounds_left pos n v p \<noteq> 0" unfolding rounds_left_def by (simp split: if_splits) linarith
    then show False using z p by simp
  qed
  with only L(1) show ?thesis by blast
qed

text \<open>
  C32: When nothing fails, the trackers agree on a leader. The rounds of the threads come one
  after the other, in any order, each tracker having at least four of them. At the end one
  tracker leads, no other one does, and every tracker follows it. At the start there is at most
  one leader and it knows itself as the leader; a tracker can follow any tracker of its list or
  none. The trackers have the same addresses in their lists, know a group each, and the list of
  their trunk servers fits the buffers; their running times, which are compared in units of five
  minutes, are taken to be the same in all rounds.
\<close>

theorem trackers_agree_on_leader:
  assumes "settling e pos addr cl" "cl \<noteq> []" "\<forall>r \<in> set rs. fst r < length cl" "\<forall>p < length cl. 4 \<le> turns p rs"
  shows "\<exists>L < length cl. \<forall>p < length cl.
    (g_if_leader_self (thread_rounds e rs cl ! p) \<longleftrightarrow> p = L) \<and> leader_of (thread_rounds e rs cl ! p) = int (pos p L)"
proof -
  let ?n = "length cl" and ?cl' = "thread_rounds e rs cl"
  have le4: "rounds_left pos ?n v p \<le> 4" for v p by (simp add: rounds_left_def)
  have "settling e pos addr ?cl' \<and> length ?cl' = ?n \<and> \<not> leaderless ?n (votes ?cl') \<and> (\<forall>p < ?n. rounds_left pos ?n (votes ?cl') p = 0)"
  proof (cases "leaderless ?n (votes cl)")
    case False
    note run = led_run [OF assms(1,3) this]
    have "rounds_left pos ?n (votes ?cl') p = 0" if p: "p < ?n" for p
    proof -
      have "rounds_left pos ?n (votes ?cl') p \<le> rounds_left pos ?n (votes cl) p - turns p rs" "4 \<le> turns p rs" using run assms(4) p by blast+
      then show ?thesis using le4 [of "votes cl" p] by linarith
    qed
    with run show ?thesis by blast
  next
    case True
    note run = leaderless_run [OF assms(1,3) True]
    obtain c where c: "first_of addr cl c" using first_exists [of e pos addr cl] assms(1,2) by (auto simp: settling_def)
    then have cn: "c < ?n" by (simp add: first_of_def)
    have "\<not> leaderless ?n (votes ?cl')"
    proof
      assume nl: "leaderless ?n (votes ?cl')"
      have "1 \<le> rounds_left pos ?n (votes ?cl') c"
        using leaderless_left [OF _ nl cn] run settling_pos [of e pos addr ?cl'] by simp
      moreover have "rounds_left pos ?n (votes ?cl') c \<le> rounds_left pos ?n (votes cl) c - turns c rs" using run nl c cn by blast
      moreover have "4 \<le> turns c rs" using assms(4) cn by blast
      ultimately show False using le4 [of "votes cl" c] by linarith
    qed
    with run show ?thesis by blast
  qed
  then have "votes_ok pos ?n (votes ?cl')" "\<not> leaderless ?n (votes ?cl')" "\<forall>p < ?n. rounds_left pos ?n (votes ?cl') p = 0"
    using settling_pos [of e pos addr ?cl'] by simp_all
  from all_follow [OF this] show ?thesis by (simp add: vote_def)
qed

text \<open>Two trackers, none of which leads; their rounds alternate.\<close>

definition sample_addr :: "nat \<Rightarrow> string \<times> int" where
  "sample_addr p = (if p = 0 then ''10.0.0.1'' else ''10.0.0.2'', 80)"

definition sample_schedule :: "(nat \<times> int \<times> bool \<times> int) list" where
  "sample_schedule = concat (replicate 4 [(1, 5, False, 0), (0, 7, True, 0)])"

lemma sample_settling: "settling sample_env (\<lambda>i p. p) sample_addr sample_cluster"
proof -
  have ad: "same_addrs (\<lambda>i p. p) sample_addr sample_cluster"
    by (auto simp: same_addrs_def sample_cluster_def sample_addr_def less_Suc_eq sample_tracker_def tracker_entry_def Shared_Func.sample_server_def)
  have rd: "tracker_ready sample_env (sample_tracker ip)" for ip
    by (simp add: tracker_ready_def sample_tracker_def sample_env_def id_groups_def tracker_calc_running_times_def FDFS_TRIM_TIME_def)
  have v: "vote (sample_tracker ip) = (-1, False, -1, 0)" for ip by (simp add: vote_def sample_tracker_def)
  have "sample_cluster ! p \<in> {sample_tracker ''10.0.0.1'', sample_tracker ''10.0.0.2''}" if "p < length sample_cluster" for p
    using that by (auto simp: sample_cluster_def less_Suc_eq)
  then have "\<forall>p < length sample_cluster. tracker_ready sample_env (sample_cluster ! p) \<and> vote (sample_cluster ! p) = (-1, False, -1, 0)"
    using rd v by fastforce
  then show ?thesis using sample_cluster_ok ad by (simp add: settling_def calm_def votes_ok_def sample_cluster_def)
qed

theorem trackers_agree_on_leader_witness:
  "\<exists>L. L < 2 \<and> g_if_leader_self (thread_rounds sample_env sample_schedule sample_cluster ! L) \<and>
     leader_of (thread_rounds sample_env sample_schedule sample_cluster ! 0) = int L \<and>
     leader_of (thread_rounds sample_env sample_schedule sample_cluster ! 1) = int L"
proof -
  have len: "length sample_cluster = 2" by (simp add: sample_cluster_def)
  have "\<exists>L < length sample_cluster. \<forall>p < length sample_cluster.
    (g_if_leader_self (thread_rounds sample_env sample_schedule sample_cluster ! p) \<longleftrightarrow> p = L) \<and>
    leader_of (thread_rounds sample_env sample_schedule sample_cluster ! p) = int L"
    by (rule trackers_agree_on_leader [OF sample_settling])
      (auto simp: len less_2 sample_cluster_def sample_schedule_def turns_def numeral_nat)
  then show ?thesis unfolding len by auto
qed

end
