(* ===== verification/Spec2Isabelle.thy ===== *)
theory Spec2Isabelle
  imports Trunk_Compress Trunk_Save Trunk_Alloc Trunk_Shared Shared_Func Store_Path Server_Ids Tracker_Proto Tracker_Groups Tracker_Election Tracker_Liveness
begin

text \<open>
  A verification development of FastDFS, a distributed file system: the decisions its servers
  take on their own data, translated from the C sources under \<open>src/\<close>, with the theorems that
  make them correct.

  \<^bold>\<open>The program.\<close> Storage servers keep the files; the servers of one group hold the same files.
  Trackers know all groups and servers and tell a client which server to use. A small file
  does not get a file of its own: it is put into a block of a large \<^emph>\<open>trunk file\<close>. In every
  group one server, the trunk server, manages the blocks. It keeps them in two indexes
  (\<open>storage/trunk_mgr/trunk_mem.c\<close>, \<open>trunk_free_block_checker.c\<close>), writes every change to the
  trunk binlog and compresses the binlog from time to time (\<open>trunk_sync.c\<close>). The name of a
  file tells where it is (\<open>storage/storage_service.c\<close>, \<open>trunk_mgr/trunk_shared.c\<close>), and the
  tracker reads the source of a file off its name (\<open>tracker/tracker_mem.c\<close>). The trackers elect
  a leader among themselves (\<open>tracker/tracker_relationship.c\<close>); only the leader chooses the
  trunk servers of the groups.

  \<^bold>\<open>The theories\<close>, in the order in which they build on each other:

    \<^item> \<open>Fdfs_Prelude\<close>: error numbers, outcomes of external calls, \<open>printf\<close> conversions and
      \<open>atoi\<close>, the interfaces \<open>step_system\<close> (steps with an invariant) and \<open>codec\<close>, list lemmas.
    \<^item> \<open>Sort_Search\<close>: \<open>strcmp\<close>, \<open>qsort\<close>, \<open>bsearch\<close> and the interface \<open>comparison\<close> of the
      functions given to them, which every comparison function of the sources interprets.
    \<^item> \<open>Avl_Api\<close>, \<open>Fastcommon_Api\<close>: what the sources use of libfastcommon, which is not part of
      the repository, as parameters with the laws they rely on, and an instance of each.
    \<^item> \<open>Trunk_Types\<close>, \<open>Trunk_Checker\<close>, \<open>Trunk_Binlog\<close>: the data of the trunk manager
      (\<open>trunk_shared.h\<close>, \<open>trunk_mem.h\<close>), the index of the blocks by trunk file
      (\<open>trunk_free_block_checker.c\<close>), the binlog with its cache and its reader
      (\<open>trunk_sync.c\<close>).
    \<^item> \<open>Shared_Func\<close>, \<open>Store_Path\<close>, \<open>Trunk_Shared\<close>: addresses and reserved space
      (\<open>tracker/fdfs_shared_func.c\<close>), the place and the name of a new file
      (\<open>storage_service.c\<close>), files inside trunk files (\<open>trunk_shared.c\<close>, \<open>storage_dio.c\<close>,
      \<open>trunk_file_delete\<close>).
    \<^item> \<open>Trunk_Mem\<close>, \<open>Trunk_Alloc\<close>: the allocator (\<open>trunk_mem.c\<close>) and what it promises.
    \<^item> \<open>Trunk_Save\<close>, \<open>Trunk_Compress\<close>: saving and merging the free blocks (\<open>trunk_mem.c\<close>), the
      compression of the binlog and its recovery (\<open>trunk_sync.c\<close>, \<open>trunk_mem.c\<close>).
    \<^item> \<open>Server_Ids\<close>, \<open>Tracker_Proto\<close>: the ids of the storage servers
      (\<open>fdfs_server_id_func.c\<close>), responses, connections and meta data (\<open>tracker_proto.c\<close>).
    \<^item> \<open>Tracker_Mem\<close>, \<open>Tracker_Groups\<close>: the groups and servers a tracker knows
      (\<open>tracker_mem.c\<close>), and what all its operations keep.
    \<^item> \<open>Tracker_Relationship\<close>, \<open>Election_Spec\<close>, \<open>Tracker_Election\<close>, \<open>Tracker_Liveness\<close>: the thread
      of a tracker and the handlers it talks to (\<open>tracker_relationship.c\<close>, \<open>tracker_service.c\<close>),
      the election as an abstract protocol, the threads of all trackers as a refinement of it,
      and the rounds of the threads when nothing fails.
\<close>

text \<open>
  \<^bold>\<open>How code becomes definitions.\<close> A definition has the name of the C function it translates; a
  loop is a recursive function named after it. The globals of a file are a record that is
  passed and returned: \<open>trunk_state\<close> for the trunk server, \<open>compress_state\<close> for the files of
  the binlog, \<open>FDFSGroups\<close> for the memory of a tracker, a list of trackers for a cluster. A
  structure of the sources is a record with the same fields; a pointer into an array is a
  position. Error numbers are returned as \<open>int\<close>, \<open>0\<close> for success. Every call that leaves the
  program and can fail (allocation, system calls, the network) takes its outcome from a list
  of outcomes, an \<open>ext_tape\<close>; the empty list stands for calls that all succeed. So a theorem
  that holds for every tape holds whatever fails. Bytes are numbers below 256; conversions to
  32 and 64 bits are written out where a value can leave its range.

  \<^bold>\<open>Loops that might not end.\<close> The search for a free block and the search for the name of a new
  trunk file are \<open>partial_function (option)\<close>, where \<open>None\<close> is a call that does not return;
  \<open>trunk_alloc_space_returns\<close> shows that this does not happen. All other loops have a measure
  or are structural: none has fuel.

  \<^bold>\<open>What the theorems show.\<close>

    \<^item> Trunk manager: an allocation hands out bytes that nobody else has, the two indexes agree
      after any sequence of operations, and every operation is a step of an abstract allocator
      on a multiset of blocks; the binary searches of the checker are exact; records of the
      binlog read back; a save writes exactly the index.
    \<^item> Compression: the server can stop in any state of the disk, again and again, and recovery
      ends with the old contents or with the new ones.
    \<^item> Names: a file in a trunk block is found by its name, a deleted one is not, and no other
      block changes; the tracker finds the source of a file from its name; addresses, meta data
      and ids read back from their text.
    \<^item> Tracker memory: after any sequence of operations the arrays are sorted, without
      duplicates and consistent, so that all look-ups are exact.
    \<^item> Election: as long as connections are made there is at most one leader, however the threads
      interleave and whatever requests or responses are lost after that. When nothing fails and
      the rounds of the threads come one after the other, four rounds of each are enough for all
      trackers to follow one leader.
    \<^item> Deviations: theorems of kind error state what the code does where that is not what it
      means to do (a held block that merging frees, free space counted twice, a cache that
      outgrows its buffer, a rollback that loses the binlog, a writer left closed, the choice of
      the trunk server, a query that overlooks the source of a file, short addresses).

  \<^bold>\<open>Assumptions.\<close> Locks are held around whole operations, as in the sources, and taking one
  succeeds; so the operations of the trunk server and of the memory of a tracker are atomic.
  Only in \<open>Tracker_Election\<close> do threads interleave, one call to another tracker at a time. What
  libfastcommon does is an explicit hypothesis (\<open>avl_ok\<close>, \<open>fc_ok\<close>, \<open>splitEx_ok\<close> and so on), and
  each theorem with such a hypothesis has a witness on an instance.

  \<^bold>\<open>Not modelled\<close>: the event loops and the wire formats of most requests (\<open>storage_nio.c\<close>,
  \<open>tracker_nio.c\<close>, most of \<open>storage_service.c\<close> and \<open>tracker_service.c\<close>), reading the
  configuration, the replication of files between the servers of a group (\<open>storage_sync.c\<close>),
  disk recovery, loading the saved blocks when the trunk server starts, loading and saving the
  files of a tracker, the client library and its bindings, log messages and statistics. These
  parts are mostly I/O: they move bytes between the network and the functions modelled here.
\<close>

end
